(* ===== verification/Prelude.thy ===== *)
theory Prelude
  imports Main "HOL-Library.Word" "HOL-Library.Multiset" "HOL-Library.Product_Lexorder"
begin

text \<open>
  Shared ground of the development: the names of the model's basic types, errors as values,
  Go's 64-bit signed integers, \<open>sort.Slice\<close>, and the list facts the components use.

  \<^item> bytes are \<open>8 word\<close>, a Go \<open>[]byte\<close> is a list of them;
  \<^item> a Go \<open>(T, error)\<close> result is \<open>error + T\<close>: \<open>Inl\<close> is a non-nil error;
  \<^item> an \<open>int\<close> or \<open>int64\<close> of the source is an \<open>int\<close> of the model, with the
    two's complement wrap-around written out by \<open>wrap64\<close> where the code can overflow;
  \<^item> an instant (\<open>time.Time\<close>) and a \<open>time.Duration\<close> are an \<open>int\<close> number of
    nanoseconds (instants since the Unix epoch).
\<close>

named_theorems sort_facts \<open>permutation and order facts of the model's sorts\<close>
named_theorems text_simps \<open>evaluation and round-trip rules of the text routines\<close>

type_synonym byte = "8 word"
type_synonym bytes = "byte list"
type_synonym u32 = "32 word"
type_synonym instant = int
type_synonym duration = int

text \<open>The zero \<open>time.Time\<close>, for which \<open>IsZero\<close> holds: midnight, January 1 of the year 1.\<close>

definition zero_time :: instant where "zero_time = - 62135596800000000000"

subsection \<open>Errors as values\<close>

text \<open>
  \<open>ErrNotExist\<close> is \<open>os.ErrNotExist\<close>, \<open>ErrEnv\<close> an error of the environment (the
  operating system, SQLite, the network), \<open>ErrText\<close> an error made with \<open>fmt.Errorf\<close> or
  \<open>errors.New\<close>, \<open>Wrapped\<close> one made with \<open>fmt.Errorf("...: %w", err)\<close>.
\<close>

datatype error =
    ErrNotExist
  | ErrEnv string
  | ErrSyntax
  | ErrRange
  | ErrText string
  | Wrapped string error

type_synonym 'a result = "error + 'a"

definition is_not_exist :: "error \<Rightarrow> bool" where
  "is_not_exist e \<longleftrightarrow> e = ErrNotExist"

fun bind_res :: "'a result \<Rightarrow> ('a \<Rightarrow> 'b result) \<Rightarrow> 'b result" where
  "bind_res (Inl e) f = Inl e"
| "bind_res (Inr x) f = f x"

definition is_ok :: "'a result \<Rightarrow> bool" where
  "is_ok r = (case r of Inl _ \<Rightarrow> False | Inr _ \<Rightarrow> True)"

lemma is_ok_simps [simp]: "is_ok (Inr x)" "\<not> is_ok (Inl e)"
  by (simp_all add: is_ok_def)

lemma bind_res_Inr_iff: "bind_res r f = Inr y \<longleftrightarrow> (\<exists>x. r = Inr x \<and> f x = Inr y)"
  by (cases r) auto

lemma bind_res_Inl_iff:
  "bind_res r f = Inl e \<longleftrightarrow> r = Inl e \<or> (\<exists>x. r = Inr x \<and> f x = Inl e)"
  by (cases r) auto

subsection \<open>64-bit signed integers\<close>

definition i64_min :: int where "i64_min = - (2 ^ 63)"
definition i64_max :: int where "i64_max = 2 ^ 63 - 1"

definition in_i64 :: "int \<Rightarrow> bool" where
  "in_i64 x \<longleftrightarrow> i64_min \<le> x \<and> x \<le> i64_max"

text \<open>The value an \<open>int64\<close> computation leaves: the exact result reduced to 64 bits.\<close>

definition wrap64 :: "int \<Rightarrow> int" where
  "wrap64 x = (x + 2 ^ 63) mod 2 ^ 64 - 2 ^ 63"

lemma wrap64_id: "in_i64 x \<Longrightarrow> wrap64 x = x"
  by (simp add: wrap64_def in_i64_def i64_min_def i64_max_def)

lemma wrap64_range: "in_i64 (wrap64 x)"
proof -
  have "0 \<le> (x + 2 ^ 63) mod 2 ^ 64" "(x + 2 ^ 63) mod 2 ^ 64 < (2 ^ 64 :: int)" by simp_all
  then show ?thesis by (simp add: wrap64_def in_i64_def i64_min_def i64_max_def)
qed

subsection \<open>Go's sort.Slice\<close>

text \<open>
  \<open>sort.Slice(xs, less)\<close> promises a permutation of \<open>xs\<close> ordered by \<open>less\<close>; it runs an
  insertion sort on short slices, which this is. The order of elements neither of which is
  \<open>less\<close> than the other is not promised by Go, and no theorem here depends on it.
\<close>

fun go_insert :: "('a \<Rightarrow> 'a \<Rightarrow> bool) \<Rightarrow> 'a \<Rightarrow> 'a list \<Rightarrow> 'a list" where
  "go_insert lt x [] = [x]"
| "go_insert lt x (y # ys) = (if lt x y then x # y # ys else y # go_insert lt x ys)"

definition go_sort :: "('a \<Rightarrow> 'a \<Rightarrow> bool) \<Rightarrow> 'a list \<Rightarrow> 'a list" where
  "go_sort lt xs = foldl (\<lambda>acc x. go_insert lt x acc) [] xs"

lemma mset_go_insert [simp]: "mset (go_insert lt x ys) = add_mset x (mset ys)"
  by (induction ys) auto

lemma set_go_insert [simp]: "set (go_insert lt x ys) = insert x (set ys)"
  by (induction ys) auto

lemma mset_go_sort [sort_facts, simp]: "mset (go_sort lt xs) = mset xs"
proof -
  have "mset (foldl (\<lambda>acc x. go_insert lt x acc) acc xs) = mset acc + mset xs" for acc
    by (induction xs arbitrary: acc) auto
  then show ?thesis by (simp add: go_sort_def)
qed

lemma set_go_sort [sort_facts, simp]: "set (go_sort lt xs) = set xs"
  using mset_go_sort by (rule mset_eq_setD)

lemma length_go_sort [sort_facts, simp]: "length (go_sort lt xs) = length xs"
  using mset_go_sort by (rule mset_eq_length)

lemma go_sort_Nil_iff [simp]: "go_sort lt xs = [] \<longleftrightarrow> xs = []"
  by (metis length_0_conv length_go_sort)

text \<open>
  The contract of a \<open>less\<close> function that compares by a key: the code's comparisons
  (newest first by \<open>CreatedAt\<close>, ascending by \<open>(Index, Offset)\<close>) are its instances.
\<close>

locale keyed_lt =
  fixes lt :: "'a \<Rightarrow> 'a \<Rightarrow> bool" and key :: "'a \<Rightarrow> 'k::linorder"
  assumes lt_key: "lt a b \<longleftrightarrow> key a < key b"
begin

lemma sorted_insert: "sorted (map key ys) \<Longrightarrow> sorted (map key (go_insert lt x ys))"
  by (induction ys) (auto simp: lt_key)

lemma sorted_go_sort: "sorted (map key (go_sort lt xs))"
proof -
  have "sorted (map key acc) \<Longrightarrow>
      sorted (map key (foldl (\<lambda>acc x. go_insert lt x acc) acc xs))" for acc
    by (induction xs arbitrary: acc) (auto intro: sorted_insert)
  then show ?thesis by (simp add: go_sort_def)
qed

text \<open>With pairwise distinct keys the result is the only ordered arrangement.\<close>

lemma go_sort_unique:
  assumes "distinct (map key ys)" and "mset xs = mset ys" and "sorted (map key ys)"
  shows "go_sort lt xs = ys"
proof (rule map_sorted_distinct_set_unique [where f = key])
  have m: "mset (go_sort lt xs) = mset ys" using assms(2) by simp
  then have k: "mset (map key (go_sort lt xs)) = mset (map key ys)" by simp
  show "set (go_sort lt xs) = set ys" using m by (rule mset_eq_setD)
  show d: "distinct (map key (go_sort lt xs))"
    using k assms(1) by (metis mset_eq_imp_distinct_iff)
  show "inj_on key (set (go_sort lt xs) \<union> set ys)"
    using d \<open>set (go_sort lt xs) = set ys\<close> by (simp add: distinct_map)
qed (use assms sorted_go_sort in auto)

lemma go_sort_id: "\<lbrakk>distinct (map key xs); sorted (map key xs)\<rbrakk> \<Longrightarrow> go_sort lt xs = xs"
  by (rule go_sort_unique) auto

end

subsection \<open>Lists\<close>

lemma drop_take_concat: "a \<le> b \<Longrightarrow> take a xs @ drop a (take b xs) = take b xs"
  by (metis append_take_drop_id min.absorb1 take_take)

end
