(* ===== verification/Go_Text.thy ===== *)
theory Go_Text
  imports Prelude "HOL-Library.Char_ord" "HOL-Library.List_Lexorder"
begin

text \<open>
  The parts of Go's \<open>strings\<close>, \<open>strconv\<close> and \<open>fmt\<close> the program uses, on byte strings
  (\<open>string\<close>, a list of 8-bit characters): zero-padded hexadecimal and decimal printing,
  \<open>ParseInt\<close> and \<open>Atoi\<close> with their syntax and range errors, \<open>Split\<close>, \<open>Join\<close>,
  \<open>Cut\<close>, \<open>Fields\<close> and the prefix and suffix trims, with the round trip
  \<open>ParseInt (Sprintf "%016x" x) = x\<close>.
\<close>

subsection \<open>Digits\<close>

definition char_code :: "char \<Rightarrow> nat" where
  "char_code c = of_char c"

definition hexd :: "nat \<Rightarrow> char" where
  "hexd d = char_of (if d < 10 then 48 + d else 87 + d)"

definition digit_val :: "char \<Rightarrow> nat option" where
  "digit_val c =
     (let n = char_code c in
      if 48 \<le> n \<and> n \<le> 57 then Some (n - 48)
      else if 97 \<le> n \<and> n \<le> 122 then Some (n - 87)
      else if 65 \<le> n \<and> n \<le> 90 then Some (n - 55)
      else None)"

lemma char_code_hexd: "d < 16 \<Longrightarrow> char_code (hexd d) = (if d < 10 then 48 + d else 87 + d)"
  by (simp add: char_code_def hexd_def)

lemma digit_val_hexd [text_simps]: "d < 16 \<Longrightarrow> digit_val (hexd d) = Some d"
  by (auto simp: digit_val_def char_code_hexd Let_def)

lemma hexd_not_dash: "d < 16 \<Longrightarrow> hexd d \<noteq> CHR ''-''"
proof
  assume "d < 16" "hexd d = CHR ''-''"
  then have "char_code (CHR ''-'') = (if d < 10 then 48 + d else 87 + d)"
    using char_code_hexd by metis
  then show False by (auto simp: char_code_def split: if_splits)
qed

lemma hexd_mono: "a < b \<Longrightarrow> b < 16 \<Longrightarrow> hexd a < hexd b"
  using char_code_hexd [of a] char_code_hexd [of b]
  by (simp add: less_char_def char_code_def split: if_splits)

subsection \<open>Printing integers\<close>

fun digits_of :: "nat \<Rightarrow> nat \<Rightarrow> string" where
  "digits_of base n =
     (if base < 2 \<or> n < base then [hexd n] else digits_of base (n div base) @ [hexd (n mod base)])"

declare digits_of.simps [simp del]

definition pad0 :: "nat \<Rightarrow> string \<Rightarrow> string" where
  "pad0 w s = replicate (w - length s) (CHR ''0'') @ s"

text \<open>\<open>fmt.Sprintf("%016x", x)\<close>: the sign of a negative value takes one of the 16 places.\<close>

definition fmt_016x :: "int \<Rightarrow> string" where
  "fmt_016x x = (if x < 0 then CHR ''-'' # pad0 15 (digits_of 16 (nat (- x)))
                 else pad0 16 (digits_of 16 (nat x)))"

definition fmt_d :: "int \<Rightarrow> string" where
  "fmt_d x = (if x < 0 then CHR ''-'' # digits_of 10 (nat (- x)) else digits_of 10 (nat x))"

text \<open>Decimal with a minimal width, padded with zeros (the fields of \<open>time.Format\<close>).\<close>

definition pad_num :: "nat \<Rightarrow> int \<Rightarrow> string" where
  "pad_num w n = (if n < 0 then CHR ''-'' # pad0 w (digits_of 10 (nat (- n))) else pad0 w (digits_of 10 (nat n)))"

primrec hex_fixed :: "nat \<Rightarrow> nat \<Rightarrow> string" where
  "hex_fixed 0 n = []"
| "hex_fixed (Suc k) n = hex_fixed k (n div 16) @ [hexd (n mod 16)]"

lemma length_hex_fixed [simp]: "length (hex_fixed k n) = k"
  by (induction k arbitrary: n) auto

lemma hex_fixed_0: "hex_fixed k 0 = replicate k (CHR ''0'')"
proof -
  have "hexd 0 = CHR ''0''" by (simp add: hexd_def char_of_def bit_0)
  then show ?thesis by (induction k) (auto simp: replicate_append_same)
qed

lemma pad0_digits: "0 < k \<Longrightarrow> n < 16 ^ k \<Longrightarrow> pad0 k (digits_of 16 n) = hex_fixed k n"
proof (induction k arbitrary: n)
  case (Suc k)
  show ?case
  proof (cases "n < 16")
    case True
    then show ?thesis
      by (simp add: digits_of.simps [of 16 n] pad0_def hex_fixed_0)
  next
    case False
    have "k \<noteq> 0"
    proof
      assume "k = 0"
      with Suc.prems(2) False show False by simp
    qed
    moreover have "n div 16 < 16 ^ k" using Suc.prems(2) by (simp add: less_mult_imp_div_less mult.commute)
    ultimately have "pad0 k (digits_of 16 (n div 16)) = hex_fixed k (n div 16)"
      using Suc.IH by simp
    with False show ?thesis
      by (simp add: digits_of.simps [of 16 n] pad0_def)
  qed
qed simp

lemma fmt_016x_fixed: "0 \<le> x \<Longrightarrow> in_i64 x \<Longrightarrow> fmt_016x x = hex_fixed 16 (nat x)"
  using pad0_digits [of 16 "nat x"]
  by (simp add: fmt_016x_def in_i64_def i64_max_def nat_less_iff)

lemma hex_fixed_no_dash: "CHR ''-'' \<notin> set (hex_fixed k n)"
proof (induction k arbitrary: n)
  case (Suc k)
  have "hexd (n mod 16) \<noteq> CHR ''-''" by (rule hexd_not_dash) simp
  with Suc.IH show ?case by auto
qed simp

lemma hex_fixed_hexd: "c \<in> set (hex_fixed k n) \<Longrightarrow> \<exists>d < 16. c = hexd d"
proof (induction k arbitrary: n)
  case (Suc k)
  have "\<exists>d < 16. hexd (n mod 16) = hexd d" by (rule exI [of _ "n mod 16"]) simp
  with Suc show ?case by auto
qed simp

text \<open>Fixed-width hexadecimal sorts as strings the way the numbers sort.\<close>

lemma append_less_same_length:
  fixes xs ys :: "'a::linorder list"
  assumes "length xs = length ys"
  shows "xs @ us < ys @ vs \<longleftrightarrow> xs < ys \<or> (xs = ys \<and> us < vs)"
  using assms
proof (induction xs ys rule: list_induct2)
  case (Cons x xs y ys)
  show ?case by (simp only: append_Cons Cons_less_Cons list.inject Cons.IH) blast
qed simp

lemma hex_fixed_less:
  "m < n \<Longrightarrow> n < 16 ^ k \<Longrightarrow> hex_fixed k m < hex_fixed k n"
proof (induction k arbitrary: m n)
  case (Suc k)
  have nk: "n div 16 < 16 ^ k" using Suc.prems(2) by (simp add: less_mult_imp_div_less mult.commute)
  have "m div 16 < n div 16 \<or> (m div 16 = n div 16 \<and> m mod 16 < n mod 16)"
  proof (cases "m div 16 = n div 16")
    case True
    then show ?thesis
      using Suc.prems(1) div_mult_mod_eq [of m 16] div_mult_mod_eq [of n 16] by linarith
  next
    case False
    then show ?thesis using Suc.prems(1) div_le_mono [of m n 16] by simp
  qed
  then show ?case
  proof
    assume "m div 16 < n div 16"
    with Suc.IH nk show ?thesis by (simp add: append_less_same_length)
  next
    assume "m div 16 = n div 16 \<and> m mod 16 < n mod 16"
    then show ?thesis by (simp add: append_less_same_length hexd_mono)
  qed
qed simp

subsection \<open>Parsing integers\<close>

text \<open>
  \<open>strconv.ParseUint\<close> without base prefix: left to right, a character that is no digit of
  the base is a syntax error, a value above \<open>2^64 - 1\<close> a range error.
\<close>

fun parse_uint_from :: "nat \<Rightarrow> nat \<Rightarrow> string \<Rightarrow> nat result" where
  "parse_uint_from base n [] = Inr n"
| "parse_uint_from base n (c # cs) =
     (case digit_val c of
        None \<Rightarrow> Inl ErrSyntax
      | Some d \<Rightarrow> if base \<le> d then Inl ErrSyntax
                  else if 2 ^ 64 \<le> n * base + d then Inl ErrRange
                  else parse_uint_from base (n * base + d) cs)"

definition parse_uint :: "string \<Rightarrow> nat \<Rightarrow> nat result" where
  "parse_uint s base = (if s = [] then Inl ErrSyntax else parse_uint_from base 0 s)"

definition parse_int :: "string \<Rightarrow> nat \<Rightarrow> int result" where
  "parse_int s base =
     (let neg = (case s of c # _ \<Rightarrow> c = CHR ''-'' | [] \<Rightarrow> False);
          body = (case s of c # cs \<Rightarrow> if c = CHR ''-'' \<or> c = CHR ''+'' then cs else s | [] \<Rightarrow> [])
      in bind_res (parse_uint body base)
           (\<lambda>un. if \<not> neg \<and> 2 ^ 63 \<le> un then Inl ErrRange
                  else if neg \<and> 2 ^ 63 < un then Inl ErrRange
                  else Inr (if neg then - int un else int un)))"

definition atoi :: "string \<Rightarrow> int result" where
  "atoi s = parse_int s 10"

lemma parse_int_in_i64: "parse_int s base = Inr x \<Longrightarrow> in_i64 x"
  by (auto simp: parse_int_def Let_def bind_res_Inr_iff in_i64_def i64_min_def i64_max_def
      split: if_splits)

lemma atoi_in_i64: "atoi s = Inr x \<Longrightarrow> in_i64 x"
  unfolding atoi_def by (rule parse_int_in_i64)

lemma parse_uint_from_hex_fixed:
  "k \<le> 16 \<Longrightarrow> n < 16 ^ k \<Longrightarrow> acc * 16 ^ k + n < 2 ^ 64 \<Longrightarrow>
   parse_uint_from 16 acc (hex_fixed k n @ cs) = parse_uint_from 16 (acc * 16 ^ k + n) cs"
proof (induction k arbitrary: n cs)
  case (Suc k)
  let ?q = "n div 16" and ?r = "n mod 16"
  have q: "?q < 16 ^ k" using Suc.prems(2) by (simp add: less_mult_imp_div_less mult.commute)
  have n: "n = ?q * 16 + ?r" by simp
  have e: "acc * 16 ^ Suc k + n = (acc * 16 ^ k + ?q) * 16 + ?r"
    by (subst (1) n) (simp add: algebra_simps)
  then have "acc * 16 ^ k + ?q < 2 ^ 64" using Suc.prems(3) by simp
  then have "parse_uint_from 16 acc (hex_fixed k ?q @ hexd ?r # cs)
           = parse_uint_from 16 (acc * 16 ^ k + ?q) (hexd ?r # cs)"
    using Suc.IH q Suc.prems(1) by simp
  also have "\<dots> = parse_uint_from 16 ((acc * 16 ^ k + ?q) * 16 + ?r) cs"
  proof -
    have "\<not> 16 \<le> ?r" by (simp add: not_le)
    then show ?thesis using Suc.prems(3) e digit_val_hexd [of ?r] by simp
  qed
  finally show ?case by (simp only: hex_fixed.simps append_assoc append_Cons append_Nil e)
qed simp

lemma parse_int_fmt_016x [text_simps]:
  assumes "0 \<le> x" and "in_i64 x"
  shows "parse_int (fmt_016x x) 16 = Inr x"
proof -
  have x: "nat x < 2 ^ 63" using assms by (simp add: in_i64_def i64_max_def nat_less_iff)
  obtain c cs where s: "fmt_016x x = c # cs"
    using assms by (simp add: fmt_016x_fixed) (metis length_hex_fixed length_Suc_conv numeral_eq_Suc)
  have c: "\<exists>d < 16. c = hexd d"
    using s assms hex_fixed_hexd [of c 16 "nat x"] by (simp add: fmt_016x_fixed)
  then have "c \<noteq> CHR ''-''" using hexd_not_dash by metis
  moreover have "c \<noteq> CHR ''+''"
  proof -
    from c obtain d where "d < 16" "c = hexd d" by blast
    then show ?thesis using digit_val_hexd [of d]
      by (auto simp: digit_val_def char_code_def)
  qed
  moreover have "parse_uint (fmt_016x x) 16 = Inr (nat x)"
    using parse_uint_from_hex_fixed [of 16 "nat x" 0 "[]"] assms x s
    by (simp add: parse_uint_def fmt_016x_fixed)
  ultimately show ?thesis using s x assms(1) by (simp add: parse_int_def not_le)
qed

subsection \<open>Splitting, joining and trimming\<close>

text \<open>\<open>strings.Split\<close> with a one-byte separator; never empty, \<open>Split("", sep) = [""]\<close>.\<close>

fun split_on :: "char \<Rightarrow> string \<Rightarrow> string list" where
  "split_on d [] = [[]]"
| "split_on d (c # cs) =
     (if c = d then [] # split_on d cs
      else case split_on d cs of [] \<Rightarrow> [[c]] | w # ws \<Rightarrow> (c # w) # ws)"

lemma split_on_not_Nil [simp]: "split_on d s \<noteq> []"
  by (cases s) (auto split: list.splits)

lemma split_on_no_sep: "d \<notin> set s \<Longrightarrow> split_on d s = [s]"
  by (induction s) auto

lemma split_on_append_sep:
  "d \<notin> set s \<Longrightarrow> split_on d (s @ d # t) = s # split_on d t"
  by (induction s) auto

fun join :: "string \<Rightarrow> string list \<Rightarrow> string" where
  "join sep [] = []"
| "join sep [s] = s"
| "join sep (s # t # ss) = s @ sep @ join sep (t # ss)"

lemma join_Cons_char: "join sep ((c # w) # ws) = c # join sep (w # ws)"
  by (cases ws) auto

lemma join_Nil_first: "ws \<noteq> [] \<Longrightarrow> join sep ([] # ws) = sep @ join sep ws"
  by (cases ws) auto

lemma join_split_on: "join [d] (split_on d s) = s"
proof (induction s)
  case (Cons c cs)
  then show ?case by (cases "split_on d cs") (auto simp: join_Cons_char join_Nil_first)
qed simp

lemma set_split_on: "w \<in> set (split_on d s) \<Longrightarrow> set w \<subseteq> set s - {d}"
proof (induction s arbitrary: w)
  case (Cons c cs)
  then show ?case by (fastforce split: if_splits list.splits)
qed simp

definition has_suffix :: "string \<Rightarrow> string \<Rightarrow> bool" where
  "has_suffix s suf \<longleftrightarrow> length suf \<le> length s \<and> drop (length s - length suf) s = suf"

definition trim_suffix :: "string \<Rightarrow> string \<Rightarrow> string" where
  "trim_suffix s suf = (if has_suffix s suf then take (length s - length suf) s else s)"

definition cut_suffix :: "string \<Rightarrow> string \<Rightarrow> string \<times> bool" where
  "cut_suffix s suf =
     (if has_suffix s suf then (take (length s - length suf) s, True) else (s, False))"

definition has_prefix :: "string \<Rightarrow> string \<Rightarrow> bool" where
  "has_prefix s p \<longleftrightarrow> take (length p) s = p"

definition trim_prefix :: "string \<Rightarrow> string \<Rightarrow> string" where
  "trim_prefix s p = (if has_prefix s p then drop (length p) s else s)"

lemma has_suffix_append [simp]: "has_suffix (s @ suf) suf"
  by (simp add: has_suffix_def)

lemma trim_suffix_append [simp]: "trim_suffix (s @ suf) suf = s"
  by (simp add: trim_suffix_def)

lemma cut_suffix_append [simp]: "cut_suffix (s @ suf) suf = (s, True)"
  by (simp add: cut_suffix_def)

lemma trim_prefix_append [simp]: "trim_prefix (p @ s) p = s"
  by (simp add: trim_prefix_def has_prefix_def)

text \<open>\<open>strings.Cut\<close> at a one-byte separator: before, after, found.\<close>

fun cut :: "char \<Rightarrow> string \<Rightarrow> string \<times> string \<times> bool" where
  "cut d [] = ([], [], False)"
| "cut d (c # cs) =
     (if c = d then ([], cs, True) else case cut d cs of (a, b, ok) \<Rightarrow> (c # a, b, ok))"

lemma cut_append: "d \<notin> set s \<Longrightarrow> cut d (s @ d # t) = (s, t, True)"
  by (induction s) auto

text \<open>\<open>strings.Index\<close> of a one-byte substring; \<open>None\<close> is the result \<open>-1\<close>.\<close>

fun index_byte :: "char \<Rightarrow> string \<Rightarrow> nat option" where
  "index_byte d [] = None"
| "index_byte d (c # cs) = (if c = d then Some 0 else map_option Suc (index_byte d cs))"

lemma index_byte_None: "index_byte d s = None \<longleftrightarrow> d \<notin> set s"
  by (induction s) auto

lemma index_byte_append: "d \<notin> set s \<Longrightarrow> index_byte d (s @ d # t) = Some (length s)"
  by (induction s) auto

text \<open>\<open>strings.Trim(s, "/")\<close>: both ends stripped of one byte value.\<close>

definition trim_byte :: "char \<Rightarrow> string \<Rightarrow> string" where
  "trim_byte d s = rev (dropWhile (\<lambda>c. c = d) (rev (dropWhile (\<lambda>c. c = d) s)))"

text \<open>\<open>strings.Fields\<close> on ASCII text: maximal runs of non-space bytes.\<close>

definition is_space :: "char \<Rightarrow> bool" where
  "is_space c \<longleftrightarrow> char_code c \<in> {9, 10, 11, 12, 13, 32}"

fun fields_from :: "string \<Rightarrow> string \<Rightarrow> string list" where
  "fields_from w [] = (if w = [] then [] else [w])"
| "fields_from w (c # cs) =
     (if is_space c then (if w = [] then fields_from [] cs else w # fields_from [] cs)
      else fields_from (w @ [c]) cs)"

definition fields :: "string \<Rightarrow> string list" where
  "fields s = fields_from [] s"

text \<open>A word without spaces before a space is the next field.\<close>

lemma fields_from_word:
  "(\<forall>c \<in> set s. \<not> is_space c) \<Longrightarrow> fields_from w (s @ t) = fields_from (w @ s) t"
  by (induction s arbitrary: w) auto

subsection \<open>Decimal numbers read back\<close>

lemma digit_char_facts: "d < 10 \<Longrightarrow> hexd d \<noteq> CHR ''-'' \<and> hexd d \<noteq> CHR ''/'' \<and> hexd d \<noteq> CHR ''+'' \<and> hexd d \<noteq> CHR ''*''"
proof -
  assume d: "d < 10"
  have "char_code c \<noteq> 48 + d" if "c \<in> {CHR ''-'', CHR ''/'', CHR ''+'', CHR ''*''}" for c
    using that d by (auto simp: char_code_def)
  moreover have "char_code (hexd d) = 48 + d" using char_code_hexd [of d] d by simp
  ultimately show ?thesis by blast
qed

lemma digits_of_digit: "c \<in> set (digits_of 10 n) \<Longrightarrow> \<exists>d < 10. c = hexd d"
proof (induction n rule: less_induct)
  case (less n)
  show ?case
  proof (cases "n < 10")
    case True
    then show ?thesis using less.prems by (auto simp: digits_of.simps [of 10 n])
  next
    case False
    then have "c \<in> set (digits_of 10 (n div 10)) \<or> c = hexd (n mod 10)"
      using less.prems by (auto simp: digits_of.simps [of 10 n])
    moreover have "\<exists>d < 10. hexd (n mod 10) = hexd d" by (rule exI [of _ "n mod 10"]) simp
    moreover have "c \<in> set (digits_of 10 (n div 10)) \<Longrightarrow> \<exists>d < 10. c = hexd d"
      by (rule less.IH) (use False in simp_all)
    ultimately show ?thesis by (elim disjE) simp_all
  qed
qed

lemma digits_of_no: "c \<in> {CHR ''-'', CHR ''/'', CHR ''+'', CHR ''*''} \<Longrightarrow> c \<notin> set (digits_of 10 n)"
proof
  assume c: "c \<in> {CHR ''-'', CHR ''/'', CHR ''+'', CHR ''*''}" and "c \<in> set (digits_of 10 n)"
  then obtain d where "d < 10" "c = hexd d" using digits_of_digit by blast
  with c digit_char_facts [of d] show False by auto
qed

lemma digits_of_not_Nil: "digits_of 10 n \<noteq> []"
  by (subst digits_of.simps) simp

lemma parse_digits: "n < 2 ^ 64 \<Longrightarrow> parse_uint_from 10 0 (digits_of 10 n @ t) = parse_uint_from 10 n t"
proof (induction n arbitrary: t rule: less_induct)
  case (less n)
  show ?case
  proof (cases "n < 10")
    case True
    then show ?thesis by (simp add: digits_of.simps [of 10 n] digit_val_hexd)
  next
    case False
    have "parse_uint_from 10 0 (digits_of 10 n @ t) =
        parse_uint_from 10 0 (digits_of 10 (n div 10) @ (hexd (n mod 10) # t))"
      using False by (simp add: digits_of.simps [of 10 n])
    also have "\<dots> = parse_uint_from 10 (n div 10) (hexd (n mod 10) # t)"
      by (rule less.IH) (use False less.prems in auto)
    also have "\<dots> = parse_uint_from 10 n t"
    proof -
      have "n mod 10 < 10" by simp
      then have m: "n mod 10 < 16" "(10 \<le> n mod 10) = False" by (linarith, simp only: not_le [symmetric] simp_thms)
      have "n div 10 * 10 + n mod 10 = n" "(2 ^ 64 \<le> n) = False" using less.prems by simp_all
      then show ?thesis by (simp only: parse_uint_from.simps digit_val_hexd [OF m(1)] option.case m(2) if_False)
    qed
    finally show ?thesis .
  qed
qed

lemma atoi_fmt_d [text_simps]: "0 \<le> x \<Longrightarrow> in_i64 x \<Longrightarrow> atoi (fmt_d x) = Inr x"
proof -
  assume x: "0 \<le> x" "in_i64 x"
  then have n: "nat x < 2 ^ 63" by (simp add: in_i64_def i64_max_def nat_less_iff)
  obtain c cs where d: "digits_of 10 (nat x) = c # cs" using digits_of_not_Nil list.exhaust by blast
  have c: "c \<noteq> CHR ''-''" "c \<noteq> CHR ''+''"
    using digits_of_no [of _ "nat x"] unfolding d by auto
  have "parse_uint (digits_of 10 (nat x)) 10 = Inr (nat x)"
    using parse_digits [of "nat x" "[]"] n d by (simp add: parse_uint_def)
  then show ?thesis using x n c d by (simp add: atoi_def parse_int_def fmt_d_def)
qed

end
