(* ===== verification/Go_Fmt.thy ===== *)
theory Go_Fmt
  imports Go_Text
begin

text \<open>
  Go's formatting of errors and quoted strings (\<open>err.Error()\<close>, the verb \<open>%q\<close>) and the lexical
  cleaning of file names (\<open>filepath.Join\<close> on Unix). Text is ASCII, as everywhere in the
  development; a character above it is passed through.
\<close>

subsection \<open>Errors and quoted strings\<close>

fun err_text :: "error \<Rightarrow> string" where
  "err_text ErrNotExist = ''file does not exist''"
| "err_text (ErrEnv s) = s"
| "err_text ErrSyntax = ''invalid syntax''"
| "err_text ErrRange = ''value out of range''"
| "err_text (ErrText s) = s"
| "err_text (Wrapped p e) = p @ '': '' @ err_text e"

definition quote_char :: "char \<Rightarrow> string" where
  "quote_char c =
     (let n = char_code c in
      if n = 0x22 \<or> n = 0x5C then [CHR 0x5C, c]
      else if 32 \<le> n \<and> n \<noteq> 127 then [c]
      else if n = 7 then [CHR 0x5C, CHR ''a'']
      else if n = 8 then [CHR 0x5C, CHR ''b'']
      else if n = 12 then [CHR 0x5C, CHR ''f'']
      else if n = 10 then [CHR 0x5C, CHR ''n'']
      else if n = 13 then [CHR 0x5C, CHR ''r'']
      else if n = 9 then [CHR 0x5C, CHR ''t'']
      else if n = 11 then [CHR 0x5C, CHR ''v'']
      else [CHR 0x5C, CHR ''x'', hexd (n div 16), hexd (n mod 16)])"

definition go_quote :: "string \<Rightarrow> string" where
  "go_quote s = [CHR 0x22] @ concat (map quote_char s) @ [CHR 0x22]"

subsection \<open>File names\<close>

text \<open>The elements of a path, the ones kept so far in reverse.\<close>

fun clean_parts :: "bool \<Rightarrow> string list \<Rightarrow> string list \<Rightarrow> string list" where
  "clean_parts rooted kept [] = rev kept"
| "clean_parts rooted kept (x # xs) =
     (if x = [] \<or> x = ''.'' then clean_parts rooted kept xs
      else if x = ''..'' then
        clean_parts rooted
          (case kept of
             [] \<Rightarrow> if rooted then [] else [x]
           | k # ks \<Rightarrow> if k = ''..'' then x # kept else ks) xs
      else clean_parts rooted (x # kept) xs)"

definition path_Clean :: "string \<Rightarrow> string" where
  "path_Clean p =
     (if p = [] then ''.''
      else
        let rooted = hd p = CHR ''/''; out = join ''/'' (clean_parts rooted [] (split_on (CHR ''/'') p))
        in if rooted then CHR ''/'' # out else if out = [] then ''.'' else out)"

fun filepath_Join :: "string list \<Rightarrow> string" where
  "filepath_Join [] = []"
| "filepath_Join (e # es) = (if e = [] then filepath_Join es else path_Clean (join ''/'' (e # es)))"

lemma clean_parts_plain:
  "x \<noteq> [] \<Longrightarrow> x \<noteq> ''.'' \<Longrightarrow> x \<noteq> ''..'' \<Longrightarrow> clean_parts r k (xs @ [x]) = clean_parts r k xs @ [x]"
  by (induction r k xs rule: clean_parts.induct) simp_all

lemma split_on_snoc: "d \<notin> set s \<Longrightarrow> split_on d (p @ d # s) = split_on d p @ [s]"
proof (induction p)
  case Nil
  then show ?case using split_on_no_sep by simp
next
  case (Cons c cs)
  then show ?case by (auto split: list.splits)
qed

lemma join_snoc: "join sep (xs @ [x]) = (if xs = [] then x else join sep xs @ sep @ x)"
  by (induction sep xs rule: join.induct) auto

text \<open>A plain file name of a directory: the directory's clean elements, then the name.\<close>

definition plain_name :: "string \<Rightarrow> bool" where
  "plain_name x \<longleftrightarrow> CHR ''/'' \<notin> set x \<and> x \<noteq> [] \<and> x \<noteq> ''.'' \<and> x \<noteq> ''..''"

lemma filepath_Join_plain:
  assumes "dir \<noteq> []"
  obtains pre where "\<And>x. plain_name x \<Longrightarrow> filepath_Join [dir, x] = pre @ x"
proof
  let ?r = "hd dir = CHR ''/''" and ?l = "clean_parts (hd dir = CHR ''/'') [] (split_on (CHR ''/'') dir)"
  let ?pre = "(if ?r then ''/'' else []) @ (if ?l = [] then [] else join ''/'' ?l @ ''/'')"
  fix x
  assume "plain_name x"
  then have x: "CHR ''/'' \<notin> set x" "x \<noteq> []" "x \<noteq> ''.''" "x \<noteq> ''..''" by (simp_all add: plain_name_def)
  have h: "hd (dir @ CHR ''/'' # x) = hd dir" using assms by (cases dir) simp_all
  have "clean_parts ?r [] (split_on (CHR ''/'') (dir @ CHR ''/'' # x)) = ?l @ [x]"
    using split_on_snoc [OF x(1), of dir] clean_parts_plain [OF x(2-4)] by simp
  then show "filepath_Join [dir, x] = ?pre @ x"
    using assms x(2) h by (cases ?r) (simp_all add: path_Clean_def Let_def join_snoc)
qed

end
