(* ===== verification/Go_Time.thy ===== *)
theory Go_Time
  imports Prelude
begin

text \<open>
  The parts of Go's \<open>time\<close> the cron schedules use: the proleptic Gregorian calendar
  (\<open>Date\<close>, \<open>Month\<close>, \<open>Day\<close>, \<open>Weekday\<close>), the wall clock of a location and
  \<open>time.Date\<close> with its normalisation of out-of-range months, days and hours. A location is
  the function that gives the zone's offset from UTC, in seconds, at a Unix second.
\<close>

type_synonym location = "int \<Rightarrow> int"

definition second :: duration where "second = 1000000000"
definition minute :: duration where "minute = 60000000000"

definition leap :: "int \<Rightarrow> bool" where
  "leap y \<longleftrightarrow> y mod 4 = 0 \<and> (y mod 100 \<noteq> 0 \<or> y mod 400 = 0)"

text \<open>Days from January 1 of the year 1 to January 1 of the year \<open>y\<close>.\<close>

definition year_start :: "int \<Rightarrow> int" where
  "year_start y = (let p = y - 1 in 365 * p + p div 4 - p div 100 + p div 400)"

text \<open>Days of the year before the month \<open>m\<close>; 13 stands for the end of the year.\<close>

definition month_start :: "int \<Rightarrow> int \<Rightarrow> int" where
  "month_start y m =
     [0, 31, 59, 90, 120, 151, 181, 212, 243, 273, 304, 334, 365] ! nat (m - 1) +
     (if leap y \<and> 2 < m then 1 else 0)"

text \<open>The year of a day, by cycles of 400, 100, 4 and 1 years.\<close>

definition year_of :: "int \<Rightarrow> int" where
  "year_of n =
     (let a = n div 146097; r = n mod 146097;
          b = min 3 (r div 36524); r = r - 36524 * b;
          c = r div 1461; r = r - 1461 * c;
          e = min 3 (r div 365)
      in 400 * a + 100 * b + 4 * c + e + 1)"

definition month_of :: "int \<Rightarrow> int \<Rightarrow> int" where
  "month_of y yd = (if yd < month_start y 2 then 1 else if yd < month_start y 3 then 2
     else if yd < month_start y 4 then 3 else if yd < month_start y 5 then 4
     else if yd < month_start y 6 then 5 else if yd < month_start y 7 then 6
     else if yd < month_start y 8 then 7 else if yd < month_start y 9 then 8
     else if yd < month_start y 10 then 9 else if yd < month_start y 11 then 10
     else if yd < month_start y 12 then 11 else 12)"

text \<open>Day 0 of the calendar below is January 1, 1970, day 719162 of the era.\<close>

definition civil_of :: "int \<Rightarrow> int \<times> int \<times> int" where
  "civil_of n =
     (let n = n + 719162; y = year_of n; yd = n - year_start y; m = month_of y yd
      in (y, m, yd - month_start y m + 1))"

definition days_civil :: "int \<Rightarrow> int \<Rightarrow> int \<Rightarrow> int" where
  "days_civil y m d =
     (let y = y + (m - 1) div 12; m = (m - 1) mod 12 + 1
      in year_start y + month_start y m + d - 1 - 719162)"

subsection \<open>The wall clock of a location\<close>

definition wall_secs :: "location \<Rightarrow> instant \<Rightarrow> int" where
  "wall_secs loc t = (let u = t div second in u + loc u)"

definition t_Date :: "location \<Rightarrow> instant \<Rightarrow> int \<times> int \<times> int" where
  "t_Date loc t = civil_of (wall_secs loc t div 86400)"

definition t_Month :: "location \<Rightarrow> instant \<Rightarrow> int" where
  "t_Month loc t = fst (snd (t_Date loc t))"

definition t_Day :: "location \<Rightarrow> instant \<Rightarrow> int" where
  "t_Day loc t = snd (snd (t_Date loc t))"

text \<open>January 1, 1970 was a Thursday; Sunday is 0.\<close>

definition t_Weekday :: "location \<Rightarrow> instant \<Rightarrow> int" where
  "t_Weekday loc t = (wall_secs loc t div 86400 + 4) mod 7"

definition t_Hour :: "location \<Rightarrow> instant \<Rightarrow> int" where
  "t_Hour loc t = wall_secs loc t mod 86400 div 3600"

definition t_Minute :: "location \<Rightarrow> instant \<Rightarrow> int" where
  "t_Minute loc t = wall_secs loc t mod 3600 div 60"

text \<open>
  \<open>time.Date(y, m, d, h, 0, 0, 0, loc)\<close>: the wall-clock reading is first taken as if it were
  UTC; the zone in force at that second gives an offset, and the offset in force at the instant
  this yields is the one that is used. Around a change of the offset the result can be an instant
  whose wall clock reads something else.
\<close>

definition time_Date :: "location \<Rightarrow> int \<Rightarrow> int \<Rightarrow> int \<Rightarrow> int \<Rightarrow> instant" where
  "time_Date loc y m d h =
     (let u = days_civil y m d * 86400 + h * 3600 in (u - loc (u - loc u)) * second)"

definition trunc_minute :: "instant \<Rightarrow> instant" where
  "trunc_minute t = t - t mod minute"

subsection \<open>The calendar is a bijection\<close>

lemma div_step: "0 < k \<Longrightarrow> (p + 1) div k = p div k + (if (p + 1) mod k = 0 then 1 else 0)" for p k :: int
proof -
  assume k: "0 < k"
  have r: "0 \<le> p mod k" "p mod k < k" using k by simp_all
  have p: "p = k * (p div k) + p mod k" by simp
  show ?thesis
  proof (cases "p mod k + 1 = k")
    case True
    have e: "p + 1 = k * (p div k + 1) + 0" unfolding distrib_left using p True by linarith
    have "(p + 1) div k = p div k + 1" by (rule int_div_pos_eq [OF e]) (use k in simp_all)
    moreover have "(p + 1) mod k = 0" by (rule int_mod_pos_eq [OF e]) (use k in simp_all)
    ultimately show ?thesis by simp
  next
    case False
    have e: "p + 1 = k * (p div k) + (p mod k + 1)" using p by simp
    have l: "0 \<le> p mod k + 1" "p mod k + 1 < k" "p mod k + 1 \<noteq> 0" using r False by linarith+
    have "(p + 1) div k = p div k" by (rule int_div_pos_eq [OF e l(1,2)])
    moreover have "(p + 1) mod k = p mod k + 1" by (rule int_mod_pos_eq [OF e l(1,2)])
    ultimately show ?thesis using l(3) by simp
  qed
qed

lemma mod_dvd_chain: "y mod 100 = 0 \<Longrightarrow> y mod 4 = 0" "y mod 400 = 0 \<Longrightarrow> y mod 100 = 0" for y :: int
  by (simp_all only: mod_eq_0_iff_dvd) (erule dvd_trans [rotated], simp)+

lemma year_start_Suc: "year_start (y + 1) = year_start y + 365 + (if leap y then 1 else 0)"
proof -
  have count: "(if A then 1 else 0) - (if B then 1 else 0) + (if C then 1 else 0) =
      (if A \<and> (\<not> B \<or> C) then 1 else (0 :: int))" if "B \<Longrightarrow> A" "C \<Longrightarrow> B" for A B C
    using that by (cases A; cases B; cases C) simp_all
  have c: "y div k = (y - 1) div k + (if y mod k = 0 then 1 else 0)" if "0 < k" for k
    using div_step [OF that, of "y - 1"] by simp
  have "year_start (y + 1) = 365 * y + y div 4 - y div 100 + y div 400" by (simp add: year_start_def)
  also have "\<dots> = year_start y + 365 + ((if y mod 4 = 0 then 1 else 0) - (if y mod 100 = 0 then 1 else 0) +
      (if y mod 400 = 0 then 1 else 0))"
    unfolding c [of 4, simplified] c [of 100, simplified] c [of 400, simplified] year_start_def Let_def
    by (simp only: right_diff_distrib)
  also have "\<dots> = year_start y + 365 + (if leap y then 1 else 0)"
    unfolding leap_def by (subst count [OF mod_dvd_chain [of y]]) (assumption | rule refl)+
  finally show ?thesis .
qed

lemma year_start_mono: "x \<le> y \<Longrightarrow> year_start x \<le> year_start y"
proof (induction y rule: int_ge_induct)
  case (step y)
  then show ?case using year_start_Suc [of y] by simp
qed simp

lemma year_unique:
  assumes "year_start x \<le> n" and "n < year_start (x + 1)" and "year_start y \<le> n" and "n < year_start (y + 1)"
  shows "x = y"
proof (rule ccontr)
  assume "x \<noteq> y"
  then have "x + 1 \<le> y \<or> y + 1 \<le> x" by linarith
  then show False using year_start_mono [of "x + 1" y] year_start_mono [of "y + 1" x] assms by linarith
qed

text \<open>The cycle arithmetic: with \<open>a\<close>, \<open>b\<close>, \<open>c\<close>, \<open>e\<close> full cycles the year starts there.\<close>

lemma cycles_start:
  assumes "0 \<le> b" and "b \<le> 3" and "0 \<le> c" and "c \<le> 24" and "0 \<le> e" and "e \<le> (3 :: int)"
  shows "year_start (400 * a + 100 * b + 4 * c + e + 1) = 146097 * a + 36524 * b + 1461 * c + 365 * e"
    and "leap (400 * a + 100 * b + 4 * c + e + 1) \<longleftrightarrow> e = 3 \<and> (c < 24 \<or> b = 3)"
proof -
  let ?p = "400 * a + 100 * b + 4 * c + e"
  have d: "?p div 4 = 100 * a + 25 * b + c"
    by (rule int_div_pos_eq [where r = e]) (use assms in simp_all)
  have d2: "?p div 100 = 4 * a + b"
    by (rule int_div_pos_eq [where r = "4 * c + e"]) (use assms in simp_all)
  have d3: "?p div 400 = a"
    by (rule int_div_pos_eq [where r = "100 * b + 4 * c + e"]) (use assms in simp_all)
  show "year_start (?p + 1) = 146097 * a + 36524 * b + 1461 * c + 365 * e"
    unfolding year_start_def Let_def add_diff_cancel_right' d d2 d3 by simp
  have m: "(k * q + r) mod k = 0 \<longleftrightarrow> r = 0 \<or> r = k" if "0 \<le> r" "r \<le> k" "0 < k" for k q r :: int
    using that by (cases "r = k") (simp_all add: mod_pos_pos_trivial)
  have "(4 * (100 * a + 25 * b + c) + (e + 1)) mod 4 = 0 \<longleftrightarrow> e + 1 = 0 \<or> e + 1 = 4"
    by (rule m) (use assms in simp_all)
  moreover have "(100 * (4 * a + b) + (4 * c + e + 1)) mod 100 = 0 \<longleftrightarrow> 4 * c + e + 1 = 0 \<or> 4 * c + e + 1 = 100"
    by (rule m) (use assms in simp_all)
  moreover have "(400 * a + (100 * b + 4 * c + e + 1)) mod 400 = 0 \<longleftrightarrow>
      100 * b + 4 * c + e + 1 = 0 \<or> 100 * b + 4 * c + e + 1 = 400"
    by (rule m) (use assms in simp_all)
  moreover have "4 * (100 * a + 25 * b + c) + (e + 1) = ?p + 1" "100 * (4 * a + b) + (4 * c + e + 1) = ?p + 1"
    "400 * a + (100 * b + 4 * c + e + 1) = ?p + 1" by simp_all
  ultimately have "leap (?p + 1) \<longleftrightarrow> (e + 1 = 0 \<or> e + 1 = 4) \<and>
      (\<not> (4 * c + e + 1 = 0 \<or> 4 * c + e + 1 = 100) \<or> (100 * b + 4 * c + e + 1 = 0 \<or> 100 * b + 4 * c + e + 1 = 400))"
    by (simp only: leap_def)
  also have "\<dots> \<longleftrightarrow> e = 3 \<and> (c < 24 \<or> b = 3)" using assms by (cases "e = 3") auto
  finally show "leap (?p + 1) \<longleftrightarrow> e = 3 \<and> (c < 24 \<or> b = 3)" .
qed

lemma div_window: "0 < k \<Longrightarrow> k * (r div k) \<le> r" "0 < k \<Longrightarrow> r < k * (r div k) + k" for r k :: int
  using pos_mod_sign [of k r] pos_mod_bound [of k r] mult_div_mod_eq [of k r] by linarith+

lemma year_of_bounds: "year_start (year_of n) \<le> n \<and> n < year_start (year_of n + 1)"
proof -
  define a r where "a = n div 146097" and "r = n mod 146097"
  define b r2 where "b = min 3 (r div 36524)" and "r2 = r - 36524 * b"
  define c r3 where "c = r2 div 1461" and "r3 = r2 - 1461 * c"
  define e where "e = min 3 (r3 div 365)"
  have n: "n = 146097 * a + r" by (simp add: a_def r_def)
  have r: "0 \<le> r" "r < 146097" by (simp_all add: r_def)
  have bd: "0 \<le> r div 36524" using r by (simp add: pos_imp_zdiv_nonneg_iff)
  have b: "0 \<le> b" "b \<le> 3" "36524 * b \<le> r" "r < 36524 * b + 36524 \<or> b = 3"
    using bd div_window [of 36524 r] by (simp_all add: b_def min_def)
  have r2: "0 \<le> r2" "r2 \<le> 36524" "r2 = 36524 \<longrightarrow> b = 3" using b r by (auto simp: r2_def)
  have c: "0 \<le> c" "1461 * c \<le> r2" "r2 < 1461 * c + 1461"
    using r2 div_window [of 1461 r2] by (simp_all add: c_def pos_imp_zdiv_nonneg_iff)
  then have c24: "c \<le> 24" using r2 by linarith
  have r3: "0 \<le> r3" "r3 < 1461" "c = 24 \<longrightarrow> b \<noteq> 3 \<longrightarrow> r3 < 1460" using c r2 by (auto simp: r3_def)
  have ed: "0 \<le> r3 div 365" using r3 by (simp add: pos_imp_zdiv_nonneg_iff)
  have e: "0 \<le> e" "e \<le> 3" "365 * e \<le> r3" "r3 < 365 * e + 365 \<or> e = 3"
    using ed div_window [of 365 r3] by (simp_all add: e_def min_def)
  have y: "year_of n = 400 * a + 100 * b + 4 * c + e + 1"
    by (simp add: year_of_def Let_def a_def b_def c_def e_def r_def r2_def r3_def)
  note s = cycles_start [OF b(1,2) c(1) c24 e(1,2), of a]
  have n': "n = 146097 * a + 36524 * b + 1461 * c + r3" using n by (simp add: r2_def r3_def)
  have "year_start (year_of n) \<le> n" unfolding y s(1) using n' e(3) by linarith
  moreover have "year_start (year_of n + 1) = year_start (year_of n) + 365 + (if leap (year_of n) then 1 else 0)"
    by (rule year_start_Suc)
  then have ys: "year_start (year_of n + 1) = 146097 * a + 36524 * b + 1461 * c + 365 * e + 365 +
      (if e = 3 \<and> (c < 24 \<or> b = 3) then 1 else 0)"
    by (simp only: y s)
  have "n < year_start (year_of n + 1)"
  proof (cases "r3 < 365 * e + 365")
    case True
    then show ?thesis unfolding ys using n' by simp
  next
    case False
    with e(4) have "e = 3" by simp
    moreover from this False r3 c24 have "c < 24 \<or> b = 3" by auto
    ultimately show ?thesis unfolding ys using n' r3 by simp
  qed
  ultimately show ?thesis by simp
qed

lemma year_of_unique: "year_start y \<le> n \<Longrightarrow> n < year_start (y + 1) \<Longrightarrow> year_of n = y"
  using year_of_bounds [of n] by (blast intro: year_unique)

text \<open>Months: the starts increase, and the month of a day is the one whose window holds it.\<close>

lemma month_starts:
  "month_start y 1 = 0" "month_start y 2 = 31" "month_start y 3 = 59 + (if leap y then 1 else 0)"
  "month_start y 4 = 90 + (if leap y then 1 else 0)" "month_start y 5 = 120 + (if leap y then 1 else 0)"
  "month_start y 6 = 151 + (if leap y then 1 else 0)" "month_start y 7 = 181 + (if leap y then 1 else 0)"
  "month_start y 8 = 212 + (if leap y then 1 else 0)" "month_start y 9 = 243 + (if leap y then 1 else 0)"
  "month_start y 10 = 273 + (if leap y then 1 else 0)" "month_start y 11 = 304 + (if leap y then 1 else 0)"
  "month_start y 12 = 334 + (if leap y then 1 else 0)" "month_start y 13 = 365 + (if leap y then 1 else 0)"
  by (simp_all add: month_start_def)

lemma month_cases:
  assumes "1 \<le> m" and "m \<le> (12 :: int)"
  obtains "m = 1" | "m = 2" | "m = 3" | "m = 4" | "m = 5" | "m = 6" | "m = 7" | "m = 8" | "m = 9" | "m = 10" | "m = 11" | "m = 12"
proof -
  have "m = 1 \<or> m = 2 \<or> m = 3 \<or> m = 4 \<or> m = 5 \<or> m = 6 \<or> m = 7 \<or> m = 8 \<or> m = 9 \<or> m = 10 \<or> m = 11 \<or> m = 12"
    using assms by arith
  then show thesis using that by blast
qed

definition in_month :: "int \<Rightarrow> int \<Rightarrow> int \<Rightarrow> bool" where
  "in_month y m yd \<longleftrightarrow> 1 \<le> m \<and> m \<le> 12 \<and> month_start y m \<le> yd \<and> yd < month_start y (m + 1)"

lemma month_of_in: "0 \<le> yd \<Longrightarrow> yd < month_start y 13 \<Longrightarrow> in_month y (month_of y yd) yd"
  unfolding month_of_def in_month_def by (simp add: month_starts)

lemma month_of_unique: "in_month y m yd \<Longrightarrow> month_of y yd = m"
  unfolding in_month_def month_of_def
  by (elim conjE, erule (1) month_cases) (simp_all add: month_starts split: if_splits)

lemma in_month_year: "in_month y m yd \<Longrightarrow> 0 \<le> yd \<and> yd < month_start y 13"
  unfolding in_month_def
  by (elim conjE, erule (1) month_cases) (simp_all add: month_starts split: if_splits)

lemma year_start_month: "year_start (y + 1) = year_start y + month_start y 13"
  by (simp add: year_start_Suc month_starts)

text \<open>The date of a day, and the days that have a date.\<close>

definition is_date :: "int \<Rightarrow> int \<times> int \<times> int \<Rightarrow> bool" where
  "is_date n x \<longleftrightarrow> (case x of (y, m, d) \<Rightarrow>
     in_month y m (n + 719162 - year_start y) \<and> d = n + 719162 - year_start y - month_start y m + 1)"

lemma civil_of_date: "is_date n (civil_of n)"
proof -
  define y where "y = year_of (n + 719162)"
  have "0 \<le> n + 719162 - year_start y" "n + 719162 - year_start y < month_start y 13"
    using year_of_bounds [of "n + 719162"] year_start_month [of y] by (simp_all add: y_def)
  then have "in_month y (month_of y (n + 719162 - year_start y)) (n + 719162 - year_start y)" by (rule month_of_in)
  then show ?thesis by (simp add: is_date_def civil_of_def Let_def flip: y_def)
qed

lemma civil_of_unique: "is_date n x \<Longrightarrow> civil_of n = x"
proof -
  assume a: "is_date n x"
  obtain y m d where x: "x = (y, m, d)" by (cases x)
  have i: "in_month y m (n + 719162 - year_start y)" and d: "d = n + 719162 - year_start y - month_start y m + 1"
    using a by (simp_all add: is_date_def x)
  have "year_of (n + 719162) = y"
    using in_month_year [OF i] year_start_month [of y] by (intro year_of_unique) simp_all
  then show ?thesis using month_of_unique [OF i] d by (simp add: civil_of_def Let_def x)
qed

lemma days_civil_valid: "1 \<le> m \<Longrightarrow> m \<le> 12 \<Longrightarrow> days_civil y m d = year_start y + month_start y m + d - 1 - 719162"
  by (simp add: days_civil_def)

lemma days_civil_next_month:
  "1 \<le> m \<Longrightarrow> m \<le> 12 \<Longrightarrow> days_civil y (m + 1) 1 = year_start y + month_start y (m + 1) - 719162"
proof (cases "m = 12")
  case True
  then show ?thesis by (simp add: days_civil_def year_start_month month_starts)
qed (simp add: days_civil_def)

lemma days_civil_inverse: "is_date n (y, m, d) \<Longrightarrow> days_civil y m d = n"
  by (auto simp: is_date_def in_month_def days_civil_valid)

lemma days_civil_plus: "days_civil y m (d + k) = days_civil y m d + k"
  by (simp add: days_civil_def Let_def)

text \<open>The days of the same month form the window that ends where the next month starts.\<close>

lemma month_window:
  assumes "is_date n (y, m, d)" and "n \<le> k" and "k < days_civil y (m + 1) 1"
  shows "fst (snd (civil_of k)) = m"
proof -
  have i: "in_month y m (n + 719162 - year_start y)" using assms(1) by (simp add: is_date_def)
  then have m: "1 \<le> m" "m \<le> 12" by (simp_all add: in_month_def)
  have "in_month y m (k + 719162 - year_start y)"
    using i assms(2,3) days_civil_next_month [OF m] by (simp add: in_month_def)
  then have "is_date k (y, m, k + 719162 - year_start y - month_start y m + 1)" by (simp add: is_date_def)
  from civil_of_unique [OF this] show ?thesis by simp
qed

lemma next_month_later: "is_date n (y, m, d) \<Longrightarrow> n < days_civil y (m + 1) 1"
  using days_civil_next_month [of m y] by (simp add: is_date_def in_month_def)

end
