(* ===== verification/Wal.thy ===== *)
theory Wal
  imports Prelude
begin

text \<open>
  The SQLite write-ahead log as the backup engine reads it (\<open>wal.go\<close>): the 32-byte header
  and its parser, the cumulative checksum over 8-byte chunks, and the scan that finds the
  byte offset just past the last committed frame. The scan is proved equal to a declarative
  specification (frame \<open>i\<close> of the file, validity of a frame, the last commit frame whose
  prefix is valid), from which the facts the engine relies on follow: the committed size
  depends on the committed bytes only, and never shrinks while the file only grows.
\<close>

unbundle bit_operations_syntax

subsection \<open>Reading 32-bit integers\<close>

text \<open>
  \<open>binary.BigEndian.Uint32\<close> and \<open>binary.LittleEndian.Uint32\<close> of the first four bytes.
  On fewer than four bytes Go panics; every call of the program passes at least four.
\<close>

fun be_u32 :: "bytes \<Rightarrow> u32" where
  "be_u32 (a # b # c # d # _) =
     push_bit 24 (ucast a) OR push_bit 16 (ucast b) OR push_bit 8 (ucast c) OR ucast d"
| "be_u32 _ = 0"

fun le_u32 :: "bytes \<Rightarrow> u32" where
  "le_u32 (a # b # c # d # _) =
     ucast a OR push_bit 8 (ucast b) OR push_bit 16 (ucast c) OR push_bit 24 (ucast d)"
| "le_u32 _ = 0"

text \<open>\<open>binary.BigEndian.Uint32(b[i:i+4])\<close>.\<close>

definition be_u32_at :: "bytes \<Rightarrow> nat \<Rightarrow> u32" where
  "be_u32_at b i = be_u32 (take 4 (drop i b))"

subsection \<open>The header\<close>

definition walHeaderSize :: nat where "walHeaderSize = 32"
definition walFrameHeaderSize :: nat where "walFrameHeaderSize = 24"
definition walMagicBE :: u32 where "walMagicBE = 0x377f0683"
definition walMagicLE :: u32 where "walMagicLE = 0x377f0682"

record walHeader =
  bigEndian :: bool
  pageSize :: nat
  h_salt1 :: u32
  h_salt2 :: u32
  h_cks1 :: u32
  h_cks2 :: u32

definition frameSize :: "walHeader \<Rightarrow> nat" where
  "frameSize h = walFrameHeaderSize + pageSize h"

lemma frameSize_ge [simp]: "24 \<le> frameSize h" "0 < frameSize h" "frameSize h \<noteq> 0"
  by (simp_all add: frameSize_def walFrameHeaderSize_def)

definition read_u32 :: "bool \<Rightarrow> bytes \<Rightarrow> u32" where
  "read_u32 big b = (if big then be_u32 b else le_u32 b)"

text \<open>The running pair over 8-byte chunks; a last incomplete chunk is left out.\<close>

function walChecksum :: "bool \<Rightarrow> u32 \<Rightarrow> u32 \<Rightarrow> bytes \<Rightarrow> u32 \<times> u32" where
  "walChecksum big s1 s2 b =
     (if 8 \<le> length b then
        let x0 = read_u32 big b;
            x1 = read_u32 big (drop 4 b);
            s1' = s1 + (x0 + s2);
            s2' = s2 + (x1 + s1')
        in walChecksum big s1' s2' (drop 8 b)
      else (s1, s2))"
  by pat_completeness auto
termination
  by (relation "measure (\<lambda>(big, s1, s2, b). length b)") auto

declare walChecksum.simps [simp del]

definition parseWALHeader :: "bytes \<Rightarrow> walHeader result" where
  "parseWALHeader b =
     (if length b < walHeaderSize then Inl (ErrText ''colmena: short WAL header'')
      else
        let magic = be_u32_at b 0 in
        if magic \<noteq> walMagicBE \<and> magic \<noteq> walMagicLE then Inl (ErrText ''colmena: bad WAL magic'')
        else
          let h = \<lparr> bigEndian = (magic = walMagicBE),
                    pageSize = unat (be_u32_at b 8),
                    h_salt1 = be_u32_at b 16, h_salt2 = be_u32_at b 20,
                    h_cks1 = be_u32_at b 24, h_cks2 = be_u32_at b 28 \<rparr> in
          if pageSize h < 512 \<or> 65536 < pageSize h \<or> (pageSize h AND (pageSize h - 1)) \<noteq> 0
          then Inl (ErrText ''colmena: bad WAL page size'')
          else
            let (s1, s2) = walChecksum (bigEndian h) 0 0 (take 24 b) in
            if s1 \<noteq> h_cks1 h \<or> s2 \<noteq> h_cks2 h
            then Inl (ErrText ''colmena: WAL header checksum mismatch'')
            else Inr h)"

subsection \<open>The scan\<close>

text \<open>
  The read loop of \<open>walCommittedSize\<close>, on the bytes still unread (what the file yields
  until the end or a read error): \<open>io.ReadFull\<close> of a whole frame or stop, salts, checksum
  chain, then the durable boundary moves when the frame is a commit frame.
\<close>

function scan_frames ::
  "walHeader \<Rightarrow> u32 \<Rightarrow> u32 \<Rightarrow> nat \<Rightarrow> nat \<Rightarrow> bytes \<Rightarrow> nat" where
  "scan_frames hdr s1 s2 offset committed unread =
     (if length unread < frameSize hdr then committed
      else
        let frame = take (frameSize hdr) unread;
            salt1 = be_u32_at frame 8;
            salt2 = be_u32_at frame 12 in
        if salt1 \<noteq> h_salt1 hdr \<or> salt2 \<noteq> h_salt2 hdr then committed
        else
          let fcks1 = be_u32_at frame 16;
              fcks2 = be_u32_at frame 20;
              (a1, a2) = walChecksum (bigEndian hdr) s1 s2 (take 8 frame);
              (b1, b2) = walChecksum (bigEndian hdr) a1 a2 (drop walFrameHeaderSize frame) in
          if b1 \<noteq> fcks1 \<or> b2 \<noteq> fcks2 then committed
          else
            let offset' = offset + frameSize hdr;
                committed' = (if 0 < be_u32_at frame 4 then offset' else committed) in
            scan_frames hdr b1 b2 offset' committed' (drop (frameSize hdr) unread))"
  by pat_completeness auto
termination
  by (relation "measure (\<lambda>(hdr, s1, s2, offset, committed, unread). length unread)")
    (auto simp: not_less intro: diff_less order_less_le_trans [OF frameSize_ge(2)])

declare scan_frames.simps [simp del]

text \<open>The argument is what opening and reading the file gives: an error, or its bytes.\<close>

definition walCommittedSize :: "bytes result \<Rightarrow> (walHeader \<times> nat) result" where
  "walCommittedSize file =
     (case file of
        Inl err \<Rightarrow> Inl err
      | Inr dat \<Rightarrow>
          if length dat < walHeaderSize then Inl ErrNotExist
          else case parseWALHeader (take walHeaderSize dat) of
                 Inl _ \<Rightarrow> Inl ErrNotExist
               | Inr hdr \<Rightarrow>
                   Inr (hdr, scan_frames hdr (h_cks1 hdr) (h_cks2 hdr) walHeaderSize walHeaderSize
                              (drop walHeaderSize dat)))"

subsection \<open>The checksum: composition and detection\<close>

lemma walChecksum_short: "length b < 8 \<Longrightarrow> walChecksum big s1 s2 b = (s1, s2)"
  by (simp add: walChecksum.simps [of big s1 s2 b])

text \<open>One round of the loop, on the pair.\<close>

definition cks_chunk :: "bool \<Rightarrow> u32 \<times> u32 \<Rightarrow> bytes \<Rightarrow> u32 \<times> u32" where
  "cks_chunk big s b =
     (let a = fst s + (read_u32 big b + snd s) in (a, snd s + (read_u32 big (drop 4 b) + a)))"

definition walChecksum2 :: "bool \<Rightarrow> u32 \<times> u32 \<Rightarrow> bytes \<Rightarrow> u32 \<times> u32" where
  "walChecksum2 big s b = walChecksum big (fst s) (snd s) b"

lemma walChecksum2_short: "length b < 8 \<Longrightarrow> walChecksum2 big s b = s"
  by (simp add: walChecksum2_def walChecksum_short)

lemma walChecksum2_chunk:
  "8 \<le> length b \<Longrightarrow> walChecksum2 big s b = walChecksum2 big (cks_chunk big s b) (drop 8 b)"
  by (simp add: walChecksum2_def cks_chunk_def walChecksum.simps [of big "fst s" "snd s" b] Let_def)

lemma bytes_split8: "8 \<le> length b \<Longrightarrow> \<exists>a c. b = a @ c \<and> length a = 8"
  by (metis append_take_drop_id length_take min.absorb2)

lemma read_u32_append: "4 \<le> length b \<Longrightarrow> read_u32 big (b @ c) = read_u32 big b"
  by (auto simp: read_u32_def numeral_eq_Suc Suc_le_length_iff)

lemma cks_chunk_append: "8 \<le> length b \<Longrightarrow> cks_chunk big s (b @ c) = cks_chunk big s b"
  by (simp add: cks_chunk_def read_u32_append)

lemma walChecksum2_append:
  "8 dvd length xs \<Longrightarrow> walChecksum2 big s (xs @ ys) = walChecksum2 big (walChecksum2 big s xs) ys"
proof (induction "length xs" arbitrary: s xs rule: less_induct)
  case less
  show ?case
  proof (cases "8 \<le> length xs")
    case True
    then have "8 dvd length (drop 8 xs)" "length (drop 8 xs) < length xs"
      using less.prems by (auto simp: dvd_minus_self)
    with True show ?thesis
      by (simp add: walChecksum2_chunk less.hyps cks_chunk_append)
  next
    case False
    with less.prems have "xs = []" by (cases "length xs") (auto dest: dvd_imp_le)
    then show ?thesis by (simp add: walChecksum2_short)
  qed
qed

lemma be_u32_bytes:
  "drop_bit 24 (be_u32 [a, b, c, d]) = ucast a"
  "take_bit 8 (drop_bit 16 (be_u32 [a, b, c, d])) = ucast b"
  "take_bit 8 (drop_bit 8 (be_u32 [a, b, c, d])) = ucast c"
  "take_bit 8 (be_u32 [a, b, c, d]) = ucast d"
  by (rule bit_word_eqI; auto simp: bit_simps dest: bit_imp_le_length)+

lemma le_be_u32: "le_u32 [a, b, c, d] = be_u32 [d, c, b, a]"
  by (simp add: ac_simps)

lemma ucast_byte_inj: "ucast (x :: byte) = (ucast y :: u32) \<Longrightarrow> x = y"
proof -
  have t: "take_bit 32 (unat (z :: byte)) = unat z" for z
    using unsigned_less [of z, where 'a = nat] by (simp add: take_bit_nat_eq_self_iff)
  show "ucast x = (ucast y :: u32) \<Longrightarrow> x = y"
    by (drule arg_cong [where f = unat]) (simp add: unsigned_ucast_eq t word_unat_eq_iff)
qed

lemma be_u32_inj: "be_u32 [a, b, c, d] = be_u32 [a', b', c', d'] \<longleftrightarrow> [a, b, c, d] = [a', b', c', d']"
proof
  assume "be_u32 [a, b, c, d] = be_u32 [a', b', c', d']"
  then have "ucast a = (ucast a' :: u32)" "ucast b = (ucast b' :: u32)"
    "ucast c = (ucast c' :: u32)" "ucast d = (ucast d' :: u32)"
    by (metis be_u32_bytes)+
  then show "[a, b, c, d] = [a', b', c', d']" by (simp add: ucast_byte_inj)
qed simp

lemma read_u32_inj:
  assumes "length xs = 4" and "length ys = 4"
  shows "read_u32 big xs = read_u32 big ys \<longleftrightarrow> xs = ys"
proof -
  obtain a b c d where x: "xs = [a, b, c, d]"
    using assms(1) by (auto simp: numeral_eq_Suc length_Suc_conv)
  obtain a' b' c' d' where y: "ys = [a', b', c', d']"
    using assms(2) by (auto simp: numeral_eq_Suc length_Suc_conv)
  show ?thesis
    using be_u32_inj [of a b c d a' b' c' d'] be_u32_inj [of d c b a d' c' b' a']
    by (auto simp: x y read_u32_def le_be_u32 simp del: be_u32.simps le_u32.simps)
qed

text \<open>The pair after a chunk determines the chunk (given the pair before) and the pair before
  (given the chunk): the round is a bijection in each.\<close>

lemma cks_chunk_inj_chunk:
  assumes "length xs = 8" and "length ys = 8" and "cks_chunk big s xs = cks_chunk big s ys"
  shows "xs = ys"
proof -
  have "read_u32 big xs = read_u32 big ys" "read_u32 big (drop 4 xs) = read_u32 big (drop 4 ys)"
    using assms(3) by (auto simp: cks_chunk_def Let_def)
  moreover have "read_u32 big xs = read_u32 big (take 4 xs)" "read_u32 big ys = read_u32 big (take 4 ys)"
    using assms(1,2) read_u32_append [of "take 4 xs" big "drop 4 xs"]
      read_u32_append [of "take 4 ys" big "drop 4 ys"] by simp_all
  ultimately have "take 4 xs = take 4 ys" "drop 4 xs = drop 4 ys"
    using assms(1,2) by (simp_all add: read_u32_inj [symmetric, of _ _ big])
  then show ?thesis by (metis append_take_drop_id)
qed

lemma cks_chunk_inj_state: "cks_chunk big s b = cks_chunk big t b \<Longrightarrow> s = t"
proof -
  assume eq: "cks_chunk big s b = cks_chunk big t b"
  then have "snd s = snd t" unfolding cks_chunk_def Let_def prod.inject by (metis add_right_cancel)
  with eq show "s = t" by (simp add: cks_chunk_def Let_def prod_eq_iff)
qed

lemma walChecksum2_inj_state: "walChecksum2 big s b = walChecksum2 big t b \<Longrightarrow> s = t"
proof (induction "length b" arbitrary: s t b rule: less_induct)
  case less
  show ?case
  proof (cases "8 \<le> length b")
    case True
    then have "length (drop 8 b) < length b" by simp
    then have "cks_chunk big s b = cks_chunk big t b"
      using less.hyps [of "drop 8 b"] less.prems True by (simp add: walChecksum2_chunk)
    then show ?thesis by (rule cks_chunk_inj_state)
  next
    case False
    then show ?thesis using less.prems by (simp add: walChecksum2_short)
  qed
qed

text \<open>
  A change confined to one 8-byte chunk always changes the checksum: no corrupted word of a
  frame passes the chain unless a second chunk is corrupted too.
\<close>

lemma walChecksum2_detects_chunk:
  assumes "8 dvd length xs" and "length c = 8" and "length d = 8" and "c \<noteq> d"
  shows "walChecksum2 big s (xs @ c @ ys) \<noteq> walChecksum2 big s (xs @ d @ ys)"
proof
  let ?t = "walChecksum2 big s xs"
  assume "walChecksum2 big s (xs @ c @ ys) = walChecksum2 big s (xs @ d @ ys)"
  then have "walChecksum2 big (cks_chunk big ?t c) ys = walChecksum2 big (cks_chunk big ?t d) ys"
    using assms(2,3) walChecksum2_chunk [of "c @ ys" big ?t] walChecksum2_chunk [of "d @ ys" big ?t]
    by (simp only: walChecksum2_append [OF assms(1)]) (simp add: cks_chunk_append)
  then have "cks_chunk big ?t c = cks_chunk big ?t d" by (rule walChecksum2_inj_state)
  with assms(2-4) show False by (blast dest: cks_chunk_inj_chunk)
qed

subsection \<open>What the scan computes\<close>

text \<open>
  The specification, on the whole file and without a loop. Frame \<open>i\<close> is the slice at
  \<open>32 + i * frameSize\<close>; \<open>sums_after i\<close> is the checksum chain over the first \<open>i\<close>
  frames; a frame is valid when it is complete, carries the header's salts and stores the
  chain's value; the committed size ends the last commit frame all of whose predecessors
  (itself included) are valid.
\<close>

definition frame_at :: "walHeader \<Rightarrow> bytes \<Rightarrow> nat \<Rightarrow> bytes" where
  "frame_at h d i = take (frameSize h) (drop (walHeaderSize + i * frameSize h) d)"

definition frame_sums :: "walHeader \<Rightarrow> u32 \<times> u32 \<Rightarrow> bytes \<Rightarrow> u32 \<times> u32" where
  "frame_sums h s fr =
     walChecksum2 (bigEndian h) (walChecksum2 (bigEndian h) s (take 8 fr)) (drop walFrameHeaderSize fr)"

primrec sums_after :: "walHeader \<Rightarrow> bytes \<Rightarrow> nat \<Rightarrow> u32 \<times> u32" where
  "sums_after h d 0 = (h_cks1 h, h_cks2 h)"
| "sums_after h d (Suc i) = frame_sums h (sums_after h d i) (frame_at h d i)"

definition frame_end :: "walHeader \<Rightarrow> nat \<Rightarrow> nat" where
  "frame_end h k = walHeaderSize + k * frameSize h"

definition frame_valid :: "walHeader \<Rightarrow> bytes \<Rightarrow> nat \<Rightarrow> bool" where
  "frame_valid h d i \<longleftrightarrow>
     frame_end h (Suc i) \<le> length d \<and>
     be_u32_at (frame_at h d i) 8 = h_salt1 h \<and> be_u32_at (frame_at h d i) 12 = h_salt2 h \<and>
     sums_after h d (Suc i) = (be_u32_at (frame_at h d i) 16, be_u32_at (frame_at h d i) 20)"

definition frame_commits :: "walHeader \<Rightarrow> bytes \<Rightarrow> nat \<Rightarrow> bool" where
  "frame_commits h d i \<longleftrightarrow> 0 < be_u32_at (frame_at h d i) 4"

definition valid_prefix :: "walHeader \<Rightarrow> bytes \<Rightarrow> nat \<Rightarrow> bool" where
  "valid_prefix h d k \<longleftrightarrow> (\<forall>i < k. frame_valid h d i)"

text \<open>\<open>k\<close> frames are durable: a valid prefix that is empty or ends in a commit frame, and no
  longer valid prefix ends in one.\<close>

definition durable :: "walHeader \<Rightarrow> bytes \<Rightarrow> nat \<Rightarrow> bool" where
  "durable h d k \<longleftrightarrow>
     valid_prefix h d k \<and> (0 < k \<longrightarrow> frame_commits h d (k - 1)) \<and>
     (\<forall>j. k < j \<longrightarrow> valid_prefix h d j \<longrightarrow> \<not> frame_commits h d (j - 1))"

lemma durable_unique: "durable h d j \<Longrightarrow> durable h d k \<Longrightarrow> j = k"
  unfolding durable_def by (metis gr_zeroI linorder_neqE_nat not_less_zero)

lemma scan_step:
  "scan_frames h (fst s) (snd s) off com unread =
     (if length unread < frameSize h then com
      else let fr = take (frameSize h) unread in
        if be_u32_at fr 8 \<noteq> h_salt1 h \<or> be_u32_at fr 12 \<noteq> h_salt2 h then com
        else let t = frame_sums h s fr in
          if t \<noteq> (be_u32_at fr 16, be_u32_at fr 20) then com
          else scan_frames h (fst t) (snd t) (off + frameSize h)
                 (if 0 < be_u32_at fr 4 then off + frameSize h else com) (drop (frameSize h) unread))"
  by (subst scan_frames.simps)
    (simp add: Let_def frame_sums_def walChecksum2_def case_prod_beta prod_eq_iff)

lemma valid_prefix_Suc: "valid_prefix h d (Suc i) \<longleftrightarrow> valid_prefix h d i \<and> frame_valid h d i"
  by (auto simp: valid_prefix_def less_Suc_eq)

lemma valid_prefix_mono: "valid_prefix h d k \<Longrightarrow> j \<le> k \<Longrightarrow> valid_prefix h d j"
  by (auto simp: valid_prefix_def)

lemma frame_end_Suc: "frame_end h (Suc i) = frame_end h i + frameSize h"
  by (simp add: frame_end_def)

text \<open>The loop's state after \<open>i\<close> frames: the durable boundary so far is at frame \<open>k\<close>.\<close>

definition boundary_at :: "walHeader \<Rightarrow> bytes \<Rightarrow> nat \<Rightarrow> nat \<Rightarrow> bool" where
  "boundary_at h d i k \<longleftrightarrow> k \<le> i \<and> (0 < k \<longrightarrow> frame_commits h d (k - 1)) \<and>
     (\<forall>j. k < j \<longrightarrow> j \<le> i \<longrightarrow> \<not> frame_commits h d (j - 1))"

lemma boundary_at_Suc:
  "boundary_at h d i k \<Longrightarrow>
   boundary_at h d (Suc i) (if frame_commits h d i then Suc i else k)"
  by (auto simp: boundary_at_def le_Suc_eq)

lemma boundary_stop:
  assumes "valid_prefix h d i" "boundary_at h d i k" "\<not> frame_valid h d i"
  shows "durable h d k"
proof -
  have "j \<le> i" if "valid_prefix h d j" for j
    using that assms(3) by (auto simp: valid_prefix_def not_less [symmetric])
  with assms show ?thesis
    by (auto simp: durable_def boundary_at_def intro: valid_prefix_mono)
qed

lemma scan_durable:
  assumes "valid_prefix h d i" "boundary_at h d i k" "frame_end h i \<le> length d"
  shows "\<exists>k'. durable h d k' \<and>
    scan_frames h (fst (sums_after h d i)) (snd (sums_after h d i)) (frame_end h i) (frame_end h k)
      (drop (frame_end h i) d) = frame_end h k'"
  using assms
proof (induction "length d - frame_end h i" arbitrary: i k rule: less_induct)
  case less
  let ?s = "sums_after h d i" and ?fr = "frame_at h d i"
  have fr: "take (frameSize h) (drop (frame_end h i) d) = ?fr"
    by (simp add: frame_at_def frame_end_def)
  show ?case
  proof (cases "frame_valid h d i")
    case False
    then have "scan_frames h (fst ?s) (snd ?s) (frame_end h i) (frame_end h k)
        (drop (frame_end h i) d) = frame_end h k"
      using less.prems(3)
      by (subst scan_step) (auto simp: Let_def fr frame_valid_def frame_end_Suc prod_eq_iff)
    with boundary_stop [OF less.prems(1,2) False] show ?thesis by blast
  next
    case True
    let ?k = "if frame_commits h d i then Suc i else k"
    have n: "frame_end h (Suc i) \<le> length d" using True by (simp add: frame_valid_def)
    have "scan_frames h (fst ?s) (snd ?s) (frame_end h i) (frame_end h k) (drop (frame_end h i) d) =
      scan_frames h (fst (sums_after h d (Suc i))) (snd (sums_after h d (Suc i)))
        (frame_end h (Suc i)) (frame_end h ?k) (drop (frame_end h (Suc i)) d)"
      using True n
      by (subst scan_step) (auto simp: Let_def fr frame_valid_def frame_commits_def frame_end_Suc
          add.commute)
    moreover have "length d - frame_end h (Suc i) < length d - frame_end h i"
      using n frameSize_ge(2) [of h] unfolding frame_end_Suc by linarith
    ultimately show ?thesis
      using less.hyps [of "Suc i" ?k] less.prems(1,2) True n
      by (simp add: valid_prefix_Suc boundary_at_Suc del: sums_after.simps)
  qed
qed

text \<open>The scan returns the end of the durable frames, and only that.\<close>

lemma walCommittedSize_durable:
  "walCommittedSize (Inr d) = Inr (h, c) \<longleftrightarrow>
   walHeaderSize \<le> length d \<and> parseWALHeader (take walHeaderSize d) = Inr h \<and>
   (\<exists>k. durable h d k \<and> c = frame_end h k)"
proof -
  have "\<exists>k'. durable h d k' \<and>
      scan_frames h (h_cks1 h) (h_cks2 h) walHeaderSize walHeaderSize (drop walHeaderSize d)
        = frame_end h k'" if "walHeaderSize \<le> length d"
    using scan_durable [of h d 0 0] that
    by (simp add: valid_prefix_def boundary_at_def frame_end_def)
  then show ?thesis
    unfolding walCommittedSize_def
    by (auto simp: not_less split: sum.splits dest: durable_unique)
qed

subsection \<open>Locality: only the committed bytes matter\<close>

lemma frame_end_mono: "i \<le> j \<Longrightarrow> frame_end h i \<le> frame_end h j"
  by (simp add: frame_end_def)

lemma frame_at_take: "frame_end h (Suc i) \<le> m \<Longrightarrow> frame_at h (take m d) i = frame_at h d i"
  unfolding frame_at_def frame_end_Suc
  by (simp add: frame_end_def take_drop min.absorb1)

lemma sums_after_take: "frame_end h i \<le> m \<Longrightarrow> sums_after h (take m d) i = sums_after h d i"
proof (induction i)
  case (Suc i)
  then have "frame_end h i \<le> m" using frame_end_mono [of i "Suc i" h] by linarith
  with Suc show ?case by (simp add: frame_at_take)
qed simp

lemma frame_valid_take:
  "frame_valid h (take m d) i \<longleftrightarrow> frame_valid h d i \<and> frame_end h (Suc i) \<le> m"
proof (cases "frame_end h (Suc i) \<le> m")
  case True
  then show ?thesis
    by (auto simp: frame_valid_def frame_at_take sums_after_take simp del: sums_after.simps)
qed (auto simp: frame_valid_def)

lemma valid_prefix_take:
  assumes "frame_end h k \<le> m"
  shows "valid_prefix h (take m d) k \<longleftrightarrow> valid_prefix h d k"
proof -
  have "frame_end h (Suc i) \<le> m" if "i < k" for i
    using frame_end_mono [of "Suc i" k h] that assms by linarith
  then show ?thesis by (auto simp: valid_prefix_def frame_valid_take)
qed

lemma frame_commits_take:
  "frame_end h (Suc i) \<le> m \<Longrightarrow> frame_commits h (take m d) i = frame_commits h d i"
  by (simp add: frame_commits_def frame_at_take)

lemma valid_prefix_end: "valid_prefix h d k \<Longrightarrow> 0 < k \<Longrightarrow> frame_end h k \<le> length d"
  by (cases k) (auto simp: valid_prefix_Suc frame_valid_def)

lemma durable_take:
  assumes "durable h d k" and "frame_end h k \<le> m"
  shows "durable h (take m d) k"
proof -
  have v: "valid_prefix h (take m d) k" using assms by (simp add: durable_def valid_prefix_take)
  have c: "frame_commits h (take m d) (k - 1)" if "0 < k"
    using assms that by (simp add: durable_def frame_commits_take)
  have "\<not> frame_commits h (take m d) (j - 1)" if "k < j" "valid_prefix h (take m d) j" for j
  proof -
    have "frame_end h j \<le> m" using valid_prefix_end [OF that(2)] that(1) by simp
    then show ?thesis
      using assms(1) that by (simp add: durable_def frame_commits_take valid_prefix_take)
  qed
  with v c show ?thesis by (auto simp: durable_def)
qed

lemma durable_append_le:
  assumes "durable h d j" and "durable h (d @ e) k"
  shows "j \<le> k"
proof (rule ccontr)
  assume "\<not> j \<le> k"
  then have p: "0 < j" "k < j" by auto
  have v: "valid_prefix h d j" and c: "frame_commits h d (j - 1)"
    using assms(1) p by (auto simp: durable_def)
  have len: "frame_end h j \<le> length d" using valid_prefix_end [OF v p(1)] .
  then have "valid_prefix h (d @ e) j" "frame_commits h (d @ e) (j - 1)"
    using v c valid_prefix_take [of h j "length d" "d @ e"]
      frame_commits_take [of h "j - 1" "length d" "d @ e"] p by simp_all
  with assms(2) p show False by (auto simp: durable_def)
qed

text \<open>C22. Every committed size the scan reports is the end of a whole number of frames inside
  the file, and those frames are exactly the durable ones: a valid prefix ending in a commit
  frame (or no frame) that no longer valid prefix ending in a commit frame extends.\<close>

theorem walCommittedSize_spec:
  assumes "walCommittedSize (Inr d) = Inr (h, c)"
  shows "\<exists>k. durable h d k \<and> c = walHeaderSize + k * frameSize h \<and> c \<le> length d"
proof -
  obtain k where k: "durable h d k" "c = frame_end h k" "walHeaderSize \<le> length d"
    using assms by (auto simp: walCommittedSize_durable)
  moreover have "c \<le> length d"
    using k valid_prefix_end [of h d k] by (cases "k = 0") (auto simp: frame_end_def durable_def)
  ultimately show ?thesis by (auto simp: frame_end_def)
qed

lemma walCommittedSize_bounds:
  assumes "walCommittedSize (Inr d) = Inr (h, c)"
  shows "walHeaderSize \<le> c" and "c \<le> length d"
  using assms walCommittedSize_durable [of d h c] valid_prefix_end [of h d]
  by (auto simp: frame_end_def durable_def) (metis add.right_neutral gr0I mult_0)

lemma walCommittedSize_take:
  assumes "walCommittedSize (Inr d) = Inr (h, c)" and "c \<le> m"
  shows "walCommittedSize (Inr (take m d)) = Inr (h, c)"
proof -
  have "walHeaderSize \<le> m" using walCommittedSize_bounds(1) [OF assms(1)] assms(2) by simp
  with assms show ?thesis
    by (auto simp: walCommittedSize_durable min.absorb2 intro: durable_take)
qed

lemma walCommittedSize_append:
  assumes "walCommittedSize (Inr d) = Inr (h, c)"
  shows "\<exists>c'. walCommittedSize (Inr (d @ e)) = Inr (h, c') \<and> c \<le> c'"
proof -
  have l: "walHeaderSize \<le> length d" and p: "parseWALHeader (take walHeaderSize d) = Inr h"
    and "\<exists>k. durable h d k \<and> c = frame_end h k"
    using assms by (auto simp: walCommittedSize_durable)
  then obtain k where k: "durable h d k" "c = frame_end h k" by blast
  have "\<exists>r. walCommittedSize (Inr (d @ e)) = Inr (h, r)"
    using l p by (simp add: walCommittedSize_def)
  then obtain r k' where r: "walCommittedSize (Inr (d @ e)) = Inr (h, r)"
    and k': "durable h (d @ e) k'" "r = frame_end h k'"
    by (auto simp: walCommittedSize_durable)
  have "k \<le> k'" using k(1) k'(1) by (rule durable_append_le)
  with r k(2) k'(2) show ?thesis by (auto intro: frame_end_mono)
qed

subsection \<open>A concrete log\<close>

text \<open>
  A header (page size 512, salts 1 and 2) and one commit frame of a zero page, with the
  checksums SQLite writes; and the rules by which the simplifier computes a checksum.
\<close>

lemma walChecksum_Cons8:
  "walChecksum big s1 s2 (b0 # b1 # b2 # b3 # b4 # b5 # b6 # b7 # r) =
     (let a = s1 + (read_u32 big [b0, b1, b2, b3] + s2);
          b = s2 + (read_u32 big [b4, b5, b6, b7] + a) in walChecksum big a b r)"
  by (simp add: walChecksum.simps [of big s1 s2 "b0 # b1 # b2 # b3 # b4 # b5 # b6 # b7 # r"]
     read_u32_def Let_def)

lemmas wal_eval = walChecksum_Cons8 walChecksum_short read_u32_def Let_def be_u32_at_def
  walHeaderSize_def walFrameHeaderSize_def walMagicBE_def walMagicLE_def

definition wal_hdr_ex :: bytes where
  "wal_hdr_ex = [55, 127, 6, 131, 0, 45, 226, 24, 0, 0, 2, 0, 0, 0, 0, 0, 0, 0, 0, 1, 0, 0, 0, 2,
     22, 4, 202, 216, 188, 221, 164, 147]"

definition wal_fhdr_ex :: bytes where
  "wal_fhdr_ex = [0, 0, 0, 1, 0, 0, 0, 1, 0, 0, 0, 1, 0, 0, 0, 2, 37, 113, 131, 60, 184, 245, 30, 28]"

definition wal_frame_ex :: bytes where
  "wal_frame_ex = wal_fhdr_ex @ replicate 512 0"

definition wal_h_ex :: walHeader where
  "wal_h_ex = \<lparr> bigEndian = True, pageSize = 512, h_salt1 = 1, h_salt2 = 2,
     h_cks1 = 0x1604CAD8, h_cks2 = 0xBCDDA493 \<rparr>"

lemma parse_wal_ex: "parseWALHeader wal_hdr_ex = Inr wal_h_ex"
  by (simp add: parseWALHeader_def wal_hdr_ex_def wal_h_ex_def wal_eval)

lemma committed_hdr_ex: "walCommittedSize (Inr wal_hdr_ex) = Inr (wal_h_ex, 32)"
  using parse_wal_ex
  by (simp add: walCommittedSize_def wal_hdr_ex_def walHeaderSize_def
      scan_frames.simps [of _ _ _ _ _ "[]"])

lemma zeros_32: "replicate 32 (0 :: byte) = [0, 0, 0, 0, 0, 0, 0, 0, 0, 0, 0, 0, 0, 0, 0, 0, 0, 0, 0, 0, 0, 0, 0, 0, 0, 0, 0, 0, 0, 0, 0, 0]"
  by (simp add: eval_nat_numeral)

lemma walChecksum_zeros_32:
  "walChecksum True a b (replicate 32 0 @ r) = walChecksum True (13 * a + 21 * b) (21 * a + 34 * b) r"
  unfolding zeros_32 by (simp add: wal_eval algebra_simps)

lemma zeros_512: "replicate 512 (0 :: byte) = concat (replicate 16 (replicate 32 0))"
  by (simp add: eval_nat_numeral)

lemma replicate_16: "replicate 16 x = [x, x, x, x, x, x, x, x, x, x, x, x, x, x, x, x]"
  by (simp add: eval_nat_numeral)

lemma zero_page_cks:
  "walChecksum True 0xD2E26F6C 0x8FC01400 (replicate 512 0) = (0x2571833C, 0xB8F51E1C)"
  unfolding zeros_512 replicate_16 concat.simps
  by (simp add: walChecksum_zeros_32 walChecksum_short del: append_Nil2)

lemma committed_frame_ex: "walCommittedSize (Inr (wal_hdr_ex @ wal_frame_ex)) = Inr (wal_h_ex, 568)"
proof -
  have h: "take 32 (wal_hdr_ex @ wal_frame_ex) = wal_hdr_ex" "length wal_hdr_ex = 32"
    "length wal_frame_ex = 536"
    by (simp_all add: wal_hdr_ex_def wal_frame_ex_def wal_fhdr_ex_def)
  have fs: "frameSize wal_h_ex = 536" by (simp add: frameSize_def wal_h_ex_def walFrameHeaderSize_def)
  have sums: "frame_sums wal_h_ex (h_cks1 wal_h_ex, h_cks2 wal_h_ex) wal_frame_ex
      = (0x2571833C, 0xB8F51E1C)"
  proof -
    have "walChecksum True (h_cks1 wal_h_ex) (h_cks2 wal_h_ex) (take 8 wal_frame_ex)
        = (0xD2E26F6C, 0x8FC01400)"
      by (simp add: wal_h_ex_def wal_frame_ex_def wal_fhdr_ex_def wal_eval)
    moreover have "drop walFrameHeaderSize wal_frame_ex = replicate 512 0"
      by (simp add: wal_frame_ex_def wal_fhdr_ex_def walFrameHeaderSize_def)
    ultimately show ?thesis
      using zero_page_cks by (simp add: frame_sums_def walChecksum2_def wal_h_ex_def)
  qed
  have "scan_frames wal_h_ex (h_cks1 wal_h_ex) (h_cks2 wal_h_ex) 32 32 wal_frame_ex = 568"
    using sums scan_step [of wal_h_ex "(h_cks1 wal_h_ex, h_cks2 wal_h_ex)" 32 32 wal_frame_ex]
    by (simp add: fs h Let_def scan_frames.simps [of _ _ _ _ _ "[]"])
      (simp add: wal_frame_ex_def wal_fhdr_ex_def wal_h_ex_def be_u32_at_def)
  then show ?thesis
    using parse_wal_ex by (simp add: walCommittedSize_def h walHeaderSize_def)
qed

text \<open>The committed size depends on the committed bytes only, and only grows: cutting the
  file anywhere at or after it leaves header and size as they are (a torn or uncommitted tail
  never counts), and appending anything can only move it forward, over an unchanged prefix.\<close>

lemma walCommittedSize_stable:
  assumes "walCommittedSize (Inr d) = Inr (h, c)"
  shows "(\<forall>m \<ge> c. walCommittedSize (Inr (take m d)) = Inr (h, c)) \<and>
         (\<exists>c' \<ge> c. walCommittedSize (Inr (d @ tail)) = Inr (h, c') \<and> take c (d @ tail) = take c d)"
  using walCommittedSize_take [OF assms] walCommittedSize_append [OF assms, of tail]
    walCommittedSize_bounds(2) [OF assms] by auto

theorem walCommittedSize_spec_witness:
  "\<exists>k. durable wal_h_ex (wal_hdr_ex @ wal_frame_ex) k \<and> 568 = walHeaderSize + k * frameSize wal_h_ex
     \<and> 568 \<le> length (wal_hdr_ex @ wal_frame_ex)"
  by (rule walCommittedSize_spec [OF committed_frame_ex])

lemma walCommittedSize_stable_witness:
  "walCommittedSize (Inr (take 568 (wal_hdr_ex @ wal_frame_ex))) = Inr (wal_h_ex, 568) \<and>
   (\<exists>c' \<ge> 568. walCommittedSize (Inr ((wal_hdr_ex @ wal_frame_ex) @ [1, 2, 3])) = Inr (wal_h_ex, c') \<and>
      take 568 ((wal_hdr_ex @ wal_frame_ex) @ [1, 2, 3]) = take 568 (wal_hdr_ex @ wal_frame_ex))"
  using walCommittedSize_stable [OF committed_frame_ex, of "[1, 2, 3]"] by blast

lemma frame_valid_committed:
  assumes "walCommittedSize (Inr d) = Inr (h, c)" and "frame_end h (Suc i) \<le> c"
  shows "valid_prefix h d (Suc i)"
proof -
  obtain k where k: "durable h d k" "c = frame_end h k"
    using assms(1) by (auto simp: walCommittedSize_durable)
  have "Suc i \<le> k"
  proof (rule ccontr)
    assume "\<not> Suc i \<le> k"
    then have "frame_end h k \<le> frame_end h i" by (simp add: frame_end_mono)
    then show False using assms(2) k(2) frameSize_ge(2) [of h] unfolding frame_end_Suc by linarith
  qed
  with k(1) show ?thesis by (auto simp: durable_def intro: valid_prefix_mono)
qed

text \<open>C25. A corruption confined to one 8-byte chunk of a committed frame's page data is
  noticed: the scan of the damaged file stops before that frame, so neither it nor anything
  after it is shipped.\<close>

theorem corrupt_chunk_not_committed:
  assumes "walCommittedSize (Inr (p @ x @ q)) = Inr (h, c)"
    and "length p = frame_end h i + walFrameHeaderSize + 8 * j" and "8 * j + 8 \<le> pageSize h"
    and "length x = 8" and "length y = 8" and "x \<noteq> y" and "frame_end h (Suc i) \<le> c"
  shows "\<exists>c'. walCommittedSize (Inr (p @ y @ q)) = Inr (h, c') \<and> c' \<le> frame_end h i"
proof -
  let ?d = "p @ x @ q" and ?e = "p @ y @ q" and ?n = "frameSize h"
  have pe: "frame_end h i \<le> length p" "walHeaderSize \<le> length p"
    using assms(2) by (auto simp: frame_end_def)
  have W: "walHeaderSize \<le> length ?e" "parseWALHeader (take walHeaderSize ?e) = Inr h"
    using assms(1) pe(2) by (auto simp: walCommittedSize_durable)
  have eq: "take (frame_end h i) ?d = take (frame_end h i) ?e" using pe(1) by simp
  have s: "sums_after h ?e i = sums_after h ?d i"
    by (metis eq sums_after_take order_refl)
  define p' where "p' = drop (frame_end h i) p"
  have p': "length p' = 24 + 8 * j"
    using assms(2) by (simp add: p'_def walFrameHeaderSize_def)
  define r where "r = take (?n - length p' - 8) q"
  have fr: "frame_at h (p @ z @ q) i = p' @ z @ r" if "length z = 8" for z
    using that pe(1) p' assms(3)
    by (simp add: frame_at_def frame_end_def p'_def r_def walHeaderSize_def frameSize_def
        walFrameHeaderSize_def)
  have cks: "frame_sums h t (p' @ z @ r) =
      walChecksum2 (bigEndian h) (walChecksum2 (bigEndian h) t (take 8 p')) (drop 24 p' @ z @ r)" for t z
    using p' by (simp add: frame_sums_def walFrameHeaderSize_def)
  have vd: "frame_valid h ?d i"
    using frame_valid_committed [OF assms(1,7)] by (simp add: valid_prefix_Suc)
  have "\<not> frame_valid h ?e i"
  proof
    assume ve: "frame_valid h ?e i"
    have fld: "be_u32_at (p' @ z @ r) k = be_u32_at p' k" if "k \<le> 20" for z k
      using that p' by (simp add: be_u32_at_def)
    have "frame_sums h (sums_after h ?d i) (p' @ x @ r) = frame_sums h (sums_after h ?d i) (p' @ y @ r)"
      using vd ve assms(4,5) by (simp add: frame_valid_def fr s fld)
    then show False
      using walChecksum2_detects_chunk [of "drop 24 p'" x y] p' assms(4-6) by (simp add: cks)
  qed
  moreover obtain c' where c': "walCommittedSize (Inr ?e) = Inr (h, c')"
    using W by (simp add: walCommittedSize_def del: append_assoc)
  ultimately have "\<not> frame_end h (Suc i) \<le> c'"
    using frame_valid_committed [OF c'] by (auto simp: valid_prefix_Suc)
  moreover obtain k where "c' = frame_end h k" using c' by (auto simp: walCommittedSize_durable)
  ultimately have "c' \<le> frame_end h i"
    using frame_end_mono [of "Suc i" k h] frame_end_mono [of k i h] by (cases "Suc i \<le> k") auto
  with c' show ?thesis by blast
qed

theorem corrupt_chunk_not_committed_witness:
  "\<exists>c'. walCommittedSize (Inr ((wal_hdr_ex @ wal_fhdr_ex) @ [0, 0, 0, 9, 0, 0, 0, 0] @ replicate 504 0))
        = Inr (wal_h_ex, c') \<and> c' \<le> frame_end wal_h_ex 0"
proof (rule corrupt_chunk_not_committed [where x = "replicate 8 0" and c = 568 and j = 0])
  have "replicate 512 (0 :: byte) = replicate 8 0 @ replicate 504 0"
    by (simp flip: replicate_add)
  then show "walCommittedSize (Inr ((wal_hdr_ex @ wal_fhdr_ex) @ replicate 8 0 @ replicate 504 0))
      = Inr (wal_h_ex, 568)" using committed_frame_ex by (simp add: wal_frame_ex_def)
  have r8: "replicate 8 (0 :: byte) = [0, 0, 0, 0, 0, 0, 0, 0]" by (simp add: eval_nat_numeral)
  show "replicate 8 0 \<noteq> [0 :: byte, 0, 0, 9, 0, 0, 0, 0]" unfolding r8 by simp
qed (simp_all add: frame_end_def walHeaderSize_def walFrameHeaderSize_def wal_h_ex_def
    wal_hdr_ex_def wal_fhdr_ex_def frameSize_def)

end
