(* ===== verification/Names.thy ===== *)
theory Names
  imports Go_Fmt
begin

text \<open>
  Object names of a backup (\<open>backup.go\<close>): a segment is stored under
  \<open><index>-<offset>-<unixnano>.seg.gz\<close>, a generation under \<open><unixnano>-<random>\<close>, both
  with zero-padded hexadecimal numbers. The names are the only metadata restore has, so they
  must round-trip, must not collide, and must sort the way the numbers do.
\<close>

subsection \<open>Generations and segments\<close>

record Generation =
  g_ID :: string
  g_CreatedAt :: instant

record WALSegmentInfo =
  s_Index :: int
  s_Offset :: int
  s_Size :: int
  s_CreatedAt :: instant

definition seg_suffix :: string where "seg_suffix = ''.seg.gz''"

definition segmentKey :: "WALSegmentInfo \<Rightarrow> string" where
  "segmentKey s = fmt_016x (s_Index s) @ ''-'' @ fmt_016x (s_Offset s) @ ''-'' @
     fmt_016x (s_CreatedAt s) @ seg_suffix"

definition parseSegmentKey :: "string \<Rightarrow> WALSegmentInfo result" where
  "parseSegmentKey name =
     (let base = trim_suffix name seg_suffix;
          bad = Inl (ErrText (''colmena: bad segment name '' @ go_quote name)) in
      case split_on (CHR ''-'') base of
        [p0, p1, p2] \<Rightarrow>
          (case (parse_int p0 16, parse_int p1 16, parse_int p2 16) of
             (Inr idx, Inr off, Inr ts) \<Rightarrow>
               Inr \<lparr> s_Index = idx, s_Offset = off, s_Size = 0, s_CreatedAt = ts \<rparr>
           | _ \<Rightarrow> bad)
      | _ \<Rightarrow> bad)"

text \<open>\<open>hex.EncodeToString\<close>; the four random bytes are an argument.\<close>

fun hex_encode :: "bytes \<Rightarrow> string" where
  "hex_encode [] = []"
| "hex_encode (b # bs) = hexd (unat b div 16) # hexd (unat b mod 16) # hex_encode bs"

definition NewGenerationID :: "instant \<Rightarrow> bytes \<Rightarrow> string" where
  "NewGenerationID now rnd = fmt_016x now @ ''-'' @ hex_encode rnd"

definition ParseGenerationID :: "string \<Rightarrow> instant result" where
  "ParseGenerationID gid =
     (case cut (CHR ''-'') gid of (head, _, ok) \<Rightarrow>
        (if \<not> ok then Inl (ErrText (''colmena: bad generation id '' @ go_quote gid))
         else (case parse_int head 16 of
                 Inl _ \<Rightarrow> Inl (ErrText (''colmena: bad generation id '' @ go_quote gid))
               | Inr ns \<Rightarrow> Inr ns)))"

text \<open>What the engine produces: indexes and offsets count up from 0 and the clock is past 1970,
  all inside an \<open>int64\<close>.\<close>

definition seg_ok :: "WALSegmentInfo \<Rightarrow> bool" where
  "seg_ok s \<longleftrightarrow> (\<forall>x \<in> {s_Index s, s_Offset s, s_CreatedAt s}. 0 \<le> x \<and> in_i64 x)"

lemma seg_okD:
  assumes "seg_ok s"
  shows "0 \<le> s_Index s" "in_i64 (s_Index s)" "0 \<le> s_Offset s" "in_i64 (s_Offset s)"
    "0 \<le> s_CreatedAt s" "in_i64 (s_CreatedAt s)"
  using assms by (simp_all add: seg_ok_def)

lemma fmt_no_dash: "0 \<le> x \<Longrightarrow> in_i64 x \<Longrightarrow> CHR ''-'' \<notin> set (fmt_016x x)"
  by (simp add: fmt_016x_fixed hex_fixed_no_dash)

lemma split_segmentKey:
  assumes "seg_ok s" and "CHR ''-'' \<notin> set t"
  shows "split_on (CHR ''-'') (fmt_016x (s_Index s) @ ''-'' @ fmt_016x (s_Offset s) @ ''-'' @
           fmt_016x (s_CreatedAt s) @ t)
       = [fmt_016x (s_Index s), fmt_016x (s_Offset s), fmt_016x (s_CreatedAt s) @ t]"
  using seg_okD [OF assms(1)] assms(2)
  by (simp add: split_on_append_sep split_on_no_sep fmt_no_dash)

lemma parse_segmentKey [text_simps]:
  assumes "seg_ok s"
  shows "parseSegmentKey (segmentKey s) = Inr (s\<lparr>s_Size := 0\<rparr>)"
proof -
  have "trim_suffix (segmentKey s) seg_suffix
      = fmt_016x (s_Index s) @ ''-'' @ fmt_016x (s_Offset s) @ ''-'' @ fmt_016x (s_CreatedAt s) @ []"
    using trim_suffix_append [of "fmt_016x (s_Index s) @ ''-'' @ fmt_016x (s_Offset s) @ ''-'' @
      fmt_016x (s_CreatedAt s)" seg_suffix]
    by (simp add: segmentKey_def)
  moreover have "parse_int (fmt_016x x) 16 = Inr x" if "x \<in> {s_Index s, s_Offset s, s_CreatedAt s}" for x
    using that assms by (intro parse_int_fmt_016x) (auto simp: seg_ok_def)
  ultimately show ?thesis
    using split_segmentKey [OF assms, of "[]"] by (simp add: parseSegmentKey_def Let_def)
qed

lemma segmentKey_inj:
  assumes "seg_ok s" and "seg_ok t" and "segmentKey s = segmentKey t"
  shows "s\<lparr>s_Size := 0\<rparr> = t\<lparr>s_Size := 0\<rparr>"
  using parse_segmentKey [OF assms(1)] parse_segmentKey [OF assms(2)] assms(3) by simp

text \<open>A key under construction (\<open>atomicWrite\<close>'s temporary name) is never taken for a segment.\<close>

lemma parse_uint_from_bad: "\<forall>d. digit_val c = Some d \<longrightarrow> base \<le> d \<Longrightarrow>
   \<exists>e. parse_uint_from base n (s @ c # t) = Inl e"
  by (induction s arbitrary: n) (auto split: option.splits)

lemma parse_int_bad:
  assumes "digit_val c = None" and "c \<noteq> CHR ''-''" and "c \<noteq> CHR ''+''"
  shows "\<exists>e. parse_int (s @ c # t) 16 = Inl e"
proof (cases s)
  case Nil
  then show ?thesis using assms by (simp add: parse_int_def Let_def parse_uint_def)
next
  case (Cons a u)
  have "\<exists>e. parse_uint (u @ c # t) 16 = Inl e" "\<exists>e. parse_uint ((a # u) @ c # t) 16 = Inl e"
    using parse_uint_from_bad [of c 16 0 u t] parse_uint_from_bad [of c 16 0 "a # u" t] assms(1)
    by (auto simp: parse_uint_def)
  then show ?thesis by (auto simp: Cons parse_int_def Let_def)
qed

lemma parse_segmentKey_tmp:
  assumes "seg_ok s"
  shows "\<exists>e. parseSegmentKey (segmentKey s @ ''.tmp'') = Inl e"
proof -
  have "\<not> has_suffix (segmentKey s @ ''.tmp'') seg_suffix"
    by (simp add: has_suffix_def seg_suffix_def)
  then have "trim_suffix (segmentKey s @ ''.tmp'') seg_suffix = segmentKey s @ ''.tmp''"
    by (simp add: trim_suffix_def)
  moreover obtain e where "parse_int (fmt_016x (s_CreatedAt s) @ seg_suffix @ ''.tmp'') 16 = Inl e"
    using parse_int_bad [of "CHR ''.''" "fmt_016x (s_CreatedAt s)" "''seg.gz.tmp''"]
    by (auto simp: seg_suffix_def digit_val_def char_code_def)
  moreover have "split_on (CHR ''-'') (segmentKey s @ ''.tmp'') =
      [fmt_016x (s_Index s), fmt_016x (s_Offset s), fmt_016x (s_CreatedAt s) @ seg_suffix @ ''.tmp'']"
    using split_segmentKey [OF assms, of "seg_suffix @ ''.tmp''"]
    by (simp add: segmentKey_def seg_suffix_def)
  ultimately show ?thesis
    by (simp add: parseSegmentKey_def Let_def split: sum.splits)
qed

subsection \<open>Names sort the way the numbers do\<close>

lemma fmt_016x_less:
  assumes "0 \<le> x" "x < y" "in_i64 y"
  shows "fmt_016x x < fmt_016x y"
proof -
  have "in_i64 x" using assms by (simp add: in_i64_def i64_min_def)
  moreover have "nat y < 16 ^ 16" using assms by (simp add: in_i64_def i64_max_def nat_less_iff)
  ultimately show ?thesis
    using assms hex_fixed_less [of "nat x" "nat y" 16] by (simp add: fmt_016x_fixed)
qed

lemma fmt_016x_length: "0 \<le> x \<Longrightarrow> in_i64 x \<Longrightarrow> length (fmt_016x x) = 16"
  by (simp add: fmt_016x_fixed)

lemma segmentKey_less:
  assumes "seg_ok s" and "seg_ok t"
    and "(s_Index s, s_Offset s, s_CreatedAt s) < (s_Index t, s_Offset t, s_CreatedAt t)"
  shows "segmentKey s < segmentKey t"
proof -
  note o = seg_okD [OF assms(1)] seg_okD [OF assms(2)]
  have lt: "x < y \<Longrightarrow> 0 \<le> x \<Longrightarrow> in_i64 x \<Longrightarrow> in_i64 y \<Longrightarrow> fmt_016x x @ u < fmt_016x y @ v" for x y u v
    using append_less_same_length [of "fmt_016x x" "fmt_016x y" u v] fmt_016x_less [of x y]
      fmt_016x_length [of x] fmt_016x_length [of y] by simp
  have same: "(x @ u < x @ v) = (u < v)" for x u v :: string
    using append_less_same_length [of x x u v] by simp
  show ?thesis
    using assms(3) o lt unfolding segmentKey_def less_prod_def'
    by (auto simp: same)
qed

text \<open>C35. A segment's object name gives the segment back (its size is not in the name): index,
  offset and time survive printing and parsing, so distinct segments never share a name, and
  the temporary name of a segment being written is never read as a segment.\<close>

theorem segmentKey_roundtrip:
  assumes "seg_ok s"
  shows "parseSegmentKey (segmentKey s) = Inr (s\<lparr>s_Size := 0\<rparr>) \<and>
         (\<forall>t. seg_ok t \<longrightarrow> segmentKey t = segmentKey s \<longrightarrow> t\<lparr>s_Size := 0\<rparr> = s\<lparr>s_Size := 0\<rparr>) \<and>
         (\<exists>e. parseSegmentKey (segmentKey s @ ''.tmp'') = Inl e)"
  using assms parse_segmentKey segmentKey_inj parse_segmentKey_tmp by blast

definition seg_ex :: WALSegmentInfo where
  "seg_ex = \<lparr> s_Index = 2, s_Offset = 568, s_Size = 99, s_CreatedAt = 1751461200000000000 \<rparr>"

lemma seg_ok_ex: "seg_ok seg_ex"
  by (simp add: seg_ok_def seg_ex_def in_i64_def i64_min_def i64_max_def)

theorem segmentKey_roundtrip_witness:
  "parseSegmentKey (segmentKey seg_ex) = Inr (seg_ex\<lparr>s_Size := 0\<rparr>) \<and>
   (\<exists>e. parseSegmentKey (segmentKey seg_ex @ ''.tmp'') = Inl e)"
  using segmentKey_roundtrip [OF seg_ok_ex] by simp

text \<open>A generation's id gives its creation time back, and ids sort as strings in the order
  of their creation times, whatever the random part.\<close>

theorem generation_id_sortable:
  assumes "0 \<le> t1" and "t1 < t2" and "in_i64 t2"
  shows "ParseGenerationID (NewGenerationID t1 r1) = Inr t1 \<and>
         ParseGenerationID (NewGenerationID t2 r2) = Inr t2 \<and>
         NewGenerationID t1 r1 < NewGenerationID t2 r2"
proof -
  have r: "ParseGenerationID (NewGenerationID t r) = Inr t" if "0 \<le> t" "in_i64 t" for t r
    using that cut_append [of "CHR ''-''" "fmt_016x t" "hex_encode r"]
    by (simp add: ParseGenerationID_def NewGenerationID_def fmt_no_dash parse_int_fmt_016x)
  have "in_i64 t1" using assms by (simp add: in_i64_def i64_min_def)
  moreover have "NewGenerationID t1 r1 < NewGenerationID t2 r2"
    using assms \<open>in_i64 t1\<close> append_less_same_length [of "fmt_016x t1" "fmt_016x t2"]
      fmt_016x_less [of t1 t2] fmt_016x_length [of t1] fmt_016x_length [of t2]
    by (simp add: NewGenerationID_def)
  ultimately show ?thesis using r assms by simp
qed

theorem generation_id_sortable_witness:
  "ParseGenerationID (NewGenerationID 1000 [1, 2, 3, 255]) = Inr 1000 \<and>
   ParseGenerationID (NewGenerationID 2000 [0, 0, 0, 0]) = Inr 2000 \<and>
   NewGenerationID 1000 [1, 2, 3, 255] < NewGenerationID 2000 [0, 0, 0, 0]"
  by (rule generation_id_sortable) (simp_all add: in_i64_def i64_min_def i64_max_def)

end
