(* ===== verification/File_System.thy ===== *)
theory File_System
  imports Prelude "HOL-Library.AList" "HOL-Library.Char_ord" "HOL-Library.List_Lexorder"
begin

text \<open>
  The file system as the program's \<open>os\<close> and \<open>io\<close> calls see it: a finite tree of paths
  (lists of components), each a directory or a file with its bytes, and a plan of faults.
  Every call takes the next element of the plan: \<open>None\<close> lets it through, \<open>Some n\<close> makes it
  fail (a copy fails after \<open>n\<close> bytes). An exhausted plan fails no more. So one model covers
  every way a sequence of calls can fail.
\<close>

type_synonym path = "string list"

datatype node = Dir | File bytes

record fs =
  tree :: "(path \<times> node) list"
  faults :: "nat option list"

definition node_at :: "fs \<Rightarrow> path \<Rightarrow> node option" where
  "node_at s p = map_of (tree s) p"

definition put_node :: "path \<Rightarrow> node \<Rightarrow> fs \<Rightarrow> fs" where
  "put_node p n s = s\<lparr>tree := AList.update p n (tree s)\<rparr>"

definition del_node :: "path \<Rightarrow> fs \<Rightarrow> fs" where
  "del_node p s = s\<lparr>tree := AList.delete p (tree s)\<rparr>"

definition io_error :: error where "io_error = ErrEnv ''input/output error''"

definition next_fault :: "fs \<Rightarrow> nat option \<times> fs" where
  "next_fault s = (case faults s of [] \<Rightarrow> (None, s) | f # fl \<Rightarrow> (f, s\<lparr>faults := fl\<rparr>))"

lemma node_at_put: "node_at (put_node p n s) q = (if q = p then Some n else node_at s q)"
  by (simp add: node_at_def put_node_def update_conv')

lemma node_at_del: "node_at (del_node p s) q = (if q = p then None else node_at s q)"
  by (simp add: node_at_def del_node_def delete_conv')

lemma node_at_next_fault [simp]: "next_fault s = (f, s') \<Longrightarrow> node_at s' p = node_at s p"
  by (auto simp: next_fault_def node_at_def split: list.splits)

lemma next_fault_None: "faults s = [] \<Longrightarrow> next_fault s = (None, s)"
  by (simp add: next_fault_def)

subsection \<open>The calls\<close>

text \<open>\<open>os.MkdirAll\<close>: every prefix of the path becomes a directory; a file in the way is an
  error.\<close>

fun mkdirs :: "path \<Rightarrow> path \<Rightarrow> fs \<Rightarrow> error option \<times> fs" where
  "mkdirs p [] s = (None, s)"
| "mkdirs p (c # cs) s =
     (let q = p @ [c] in
      case node_at s q of
        Some Dir \<Rightarrow> mkdirs q cs s
      | Some (File _) \<Rightarrow> (Some (ErrEnv ''not a directory''), s)
      | None \<Rightarrow> mkdirs q cs (put_node q Dir s))"

definition os_MkdirAll :: "path \<Rightarrow> fs \<Rightarrow> error option \<times> fs" where
  "os_MkdirAll p s =
     (case next_fault s of
        (Some _, s') \<Rightarrow> (Some io_error, s')
      | (None, s') \<Rightarrow> mkdirs [] p s')"

text \<open>\<open>os.Create\<close>: an empty file, the old contents truncated.\<close>

definition os_Create :: "path \<Rightarrow> fs \<Rightarrow> error option \<times> fs" where
  "os_Create p s =
     (case next_fault s of
        (Some _, s') \<Rightarrow> (Some io_error, s')
      | (None, s') \<Rightarrow>
          (if node_at s' p = Some Dir then (Some (ErrEnv ''is a directory''), s')
           else if node_at s' (butlast p) \<noteq> Some Dir then (Some ErrNotExist, s')
           else (None, put_node p (File []) s')))"

text \<open>\<open>io.Copy\<close> to the end of a file that is being written: all of the data, or a prefix of it
  and an error.\<close>

fun contents :: "node option \<Rightarrow> bytes" where
  "contents (Some (File c)) = c"
| "contents _ = []"

definition io_Copy :: "path \<Rightarrow> bytes \<Rightarrow> fs \<Rightarrow> error option \<times> fs" where
  "io_Copy p d s =
     (case next_fault s of
        (Some n, s') \<Rightarrow> (Some io_error, put_node p (File (contents (node_at s' p) @ take n d)) s')
      | (None, s') \<Rightarrow> (None, put_node p (File (contents (node_at s' p) @ d)) s'))"

definition os_Close :: "fs \<Rightarrow> error option \<times> fs" where
  "os_Close s = (case next_fault s of (Some _, s') \<Rightarrow> (Some io_error, s') | (None, s') \<Rightarrow> (None, s'))"

text \<open>\<open>os.Remove\<close>, of the files the program removes; a directory is refused.\<close>

definition os_Remove :: "path \<Rightarrow> fs \<Rightarrow> error option \<times> fs" where
  "os_Remove p s =
     (case next_fault s of
        (Some _, s') \<Rightarrow> (Some io_error, s')
      | (None, s') \<Rightarrow> (case node_at s' p of
            None \<Rightarrow> (Some ErrNotExist, s')
          | Some Dir \<Rightarrow> (Some (ErrEnv ''directory not empty''), s')
          | Some (File _) \<Rightarrow> (None, del_node p s')))"

text \<open>\<open>os.Rename\<close> of a file over a file or nothing: atomic.\<close>

definition os_Rename :: "path \<Rightarrow> path \<Rightarrow> fs \<Rightarrow> error option \<times> fs" where
  "os_Rename p q s =
     (case next_fault s of
        (Some _, s') \<Rightarrow> (Some io_error, s')
      | (None, s') \<Rightarrow>
          (case node_at s' p of
             Some (File d) \<Rightarrow>
               (if node_at s' q = Some Dir then (Some (ErrEnv ''file exists''), s')
                else (None, put_node q (File d) (del_node p s')))
           | _ \<Rightarrow> (Some ErrNotExist, s')))"

text \<open>\<open>os.RemoveAll\<close>: the path and everything below it; nothing there is no error. On a fault
  some of the files below are gone (those among the first \<open>n\<close> entries), the directories are
  not.\<close>

definition below :: "path \<Rightarrow> path \<Rightarrow> bool" where
  "below p q \<longleftrightarrow> take (length p) q = p"

definition os_RemoveAll :: "path \<Rightarrow> fs \<Rightarrow> error option \<times> fs" where
  "os_RemoveAll p s =
     (case next_fault s of
        (Some n, s') \<Rightarrow>
          (Some io_error, s'\<lparr>tree := filter (\<lambda>(q, nd). \<not> (below p q \<and> nd \<noteq> Dir)) (take n (tree s')) @ drop n (tree s')\<rparr>)
      | (None, s') \<Rightarrow> (None, s'\<lparr>tree := filter (\<lambda>(q, _). \<not> below p q) (tree s')\<rparr>))"

text \<open>\<open>os.ReadDir\<close>: the names directly below a directory, sorted, with whether each is a
  directory and its size.\<close>

definition dir_entries :: "path \<Rightarrow> fs \<Rightarrow> (string \<times> node) list" where
  "dir_entries p s =
     go_sort (\<lambda>a b. fst a < fst b)
       (map (\<lambda>(q, n). (last q, n)) (filter (\<lambda>(q, n). q \<noteq> [] \<and> butlast q = p) (tree s)))"

definition os_ReadDir :: "path \<Rightarrow> fs \<Rightarrow> (string \<times> node) list result \<times> fs" where
  "os_ReadDir p s =
     (case next_fault s of
        (Some _, s') \<Rightarrow> (Inl io_error, s')
      | (None, s') \<Rightarrow> (case node_at s' p of
            Some Dir \<Rightarrow> (Inr (dir_entries p s'), s')
          | Some (File _) \<Rightarrow> (Inl (ErrEnv ''not a directory''), s')
          | None \<Rightarrow> (Inl ErrNotExist, s')))"

text \<open>\<open>os.Open\<close> and reading to the end.\<close>

definition os_ReadFile :: "path \<Rightarrow> fs \<Rightarrow> bytes result \<times> fs" where
  "os_ReadFile p s =
     (case next_fault s of
        (Some _, s') \<Rightarrow> (Inl io_error, s')
      | (None, s') \<Rightarrow> (case node_at s' p of
            Some (File d) \<Rightarrow> (Inr d, s')
          | Some Dir \<Rightarrow> (Inl (ErrEnv ''is a directory''), s')
          | None \<Rightarrow> (Inl ErrNotExist, s')))"

subsection \<open>What the calls leave alone\<close>

lemma mkdirs_files: "mkdirs p cs s = (e, s') \<Longrightarrow> (node_at s' q = Some (File d)) = (node_at s q = Some (File d))"
proof (induction p cs s rule: mkdirs.induct)
  case (2 p c cs s)
  then show ?case
    by (cases "node_at s (p @ [c])") (auto simp: Let_def node_at_put split: node.splits)
qed simp

lemma mkdirs_dirs: "mkdirs p cs s = (e, s') \<Longrightarrow> node_at s q = Some Dir \<Longrightarrow> node_at s' q = Some Dir"
proof (induction p cs s rule: mkdirs.induct)
  case (2 p c cs s)
  then show ?case
    by (cases "node_at s (p @ [c])") (auto simp: Let_def node_at_put split: node.splits if_splits)
qed simp

lemma mkdirs_made:
  "mkdirs p cs s = (None, s') \<Longrightarrow> 0 < k \<Longrightarrow> k \<le> length cs \<Longrightarrow> node_at s' (p @ take k cs) = Some Dir"
proof (induction p cs s arbitrary: k rule: mkdirs.induct)
  case (2 p c cs s)
  let ?q = "p @ [c]"
  obtain t where t: "mkdirs ?q cs t = (None, s')" "node_at t ?q = Some Dir"
    and ih: "\<And>k. 0 < k \<Longrightarrow> k \<le> length cs \<Longrightarrow> node_at s' (?q @ take k cs) = Some Dir"
    using "2.prems"(1) "2.IH" by (auto simp: Let_def node_at_put split: option.splits node.splits)
  obtain j where j: "k = Suc j" using "2.prems"(2) by (cases k) auto
  show ?case
  proof (cases "j = 0")
    case True
    then show ?thesis using mkdirs_dirs [OF t(1) t(2)] j by simp
  next
    case False
    then show ?thesis using ih [of j] "2.prems"(3) j by simp
  qed
qed simp

lemma MkdirAll_cases:
  assumes "os_MkdirAll p s = (e, s')"
  obtains f where "next_fault s = (Some f, s')" "e = Some io_error"
  | t where "next_fault s = (None, t)" "mkdirs [] p t = (e, s')"
  using assms by (auto simp: os_MkdirAll_def split: prod.splits option.splits)

lemma MkdirAll_files:
  "os_MkdirAll p s = (e, s') \<Longrightarrow> (node_at s' q = Some (File d)) = (node_at s q = Some (File d))"
  by (erule MkdirAll_cases) (simp_all add: mkdirs_files)

lemma MkdirAll_dirs: "os_MkdirAll p s = (e, s') \<Longrightarrow> node_at s q = Some Dir \<Longrightarrow> node_at s' q = Some Dir"
  by (erule MkdirAll_cases) (auto intro: mkdirs_dirs)

lemma MkdirAll_made:
  "os_MkdirAll p s = (None, s') \<Longrightarrow> 0 < k \<Longrightarrow> k \<le> length p \<Longrightarrow> node_at s' (take k p) = Some Dir"
  by (erule MkdirAll_cases) (use mkdirs_made [of "[]"] in auto)

subsection \<open>Well-formed trees\<close>

text \<open>Paths are distinct, the root is a directory, and whatever exists lies in a directory.\<close>

definition fs_wf :: "fs \<Rightarrow> bool" where
  "fs_wf s \<longleftrightarrow> distinct (map fst (tree s)) \<and> node_at s [] = Some Dir \<and>
     (\<forall>p. node_at s p \<noteq> None \<longrightarrow> p \<noteq> [] \<longrightarrow> node_at s (butlast p) = Some Dir)"

lemma next_fault_tree: "next_fault s = (f, s') \<Longrightarrow> tree s' = tree s"
  by (auto simp: next_fault_def split: list.splits)

lemma fs_wf_next_fault: "next_fault s = (f, s') \<Longrightarrow> fs_wf s' = fs_wf s"
  by (drule next_fault_tree) (simp add: fs_wf_def node_at_def)

lemma fs_wf_parent: "fs_wf s \<Longrightarrow> node_at s p = Some n \<Longrightarrow> p \<noteq> [] \<Longrightarrow> node_at s (butlast p) = Some Dir"
  by (simp add: fs_wf_def)

lemma fs_wf_root: "fs_wf s \<Longrightarrow> node_at s [] = Some Dir"
  by (simp add: fs_wf_def)

lemma fs_wf_distinct: "fs_wf s \<Longrightarrow> distinct (map fst (tree s))"
  by (simp add: fs_wf_def)

lemma fs_wfI:
  assumes "distinct (map fst (tree s))" and "node_at s [] = Some Dir"
    and "\<And>p n. node_at s p = Some n \<Longrightarrow> p \<noteq> [] \<Longrightarrow> node_at s (butlast p) = Some Dir"
  shows "fs_wf s"
  unfolding fs_wf_def using assms by blast

lemma fs_wf_put:
  assumes "fs_wf s" "p \<noteq> []" "node_at s (butlast p) = Some Dir" "n = Dir \<or> node_at s p \<noteq> Some Dir"
  shows "fs_wf (put_node p n s)"
proof (rule fs_wfI)
  show "distinct (map fst (tree (put_node p n s)))"
    using fs_wf_distinct [OF assms(1)] by (simp add: put_node_def distinct_update)
  show "node_at (put_node p n s) [] = Some Dir"
    using fs_wf_root [OF assms(1)] assms(2) by (simp add: node_at_put)
  have d: "node_at (put_node p n s) q = Some Dir" if "node_at s q = Some Dir" for q
    using that assms(4) by (cases "q = p") (simp_all add: node_at_put)
  fix q m
  assume "node_at (put_node p n s) q = Some m" "q \<noteq> []"
  then have "node_at s (butlast q) = Some Dir"
    using assms(3) fs_wf_parent [OF assms(1), of q m] by (cases "q = p") (simp_all add: node_at_put)
  then show "node_at (put_node p n s) (butlast q) = Some Dir" by (rule d)
qed

lemma fs_wf_put_dir:
  "fs_wf s \<Longrightarrow> p \<noteq> [] \<Longrightarrow> node_at s (butlast p) = Some Dir \<Longrightarrow> fs_wf (put_node p Dir s)"
  by (rule fs_wf_put) auto

lemma fs_wf_del_file:
  assumes "fs_wf s" "node_at s p = Some (File d)"
  shows "fs_wf (del_node p s)"
proof (rule fs_wfI)
  show "distinct (map fst (tree (del_node p s)))"
    using fs_wf_distinct [OF assms(1)] by (simp add: del_node_def distinct_delete)
  have d: "node_at (del_node p s) q = Some Dir" if "node_at s q = Some Dir" for q
    using that assms(2) by (cases "q = p") (simp_all add: node_at_del)
  show "node_at (del_node p s) [] = Some Dir" using d fs_wf_root [OF assms(1)] by blast
  fix q m
  assume "node_at (del_node p s) q = Some m" "q \<noteq> []"
  then have "node_at s (butlast q) = Some Dir"
    using fs_wf_parent [OF assms(1), of q m] by (cases "q = p") (simp_all add: node_at_del)
  then show "node_at (del_node p s) (butlast q) = Some Dir" by (rule d)
qed

lemma fs_wf_mkdirs: "mkdirs p cs s = (e, s') \<Longrightarrow> fs_wf s \<Longrightarrow> node_at s p = Some Dir \<Longrightarrow> fs_wf s'"
proof (induction p cs s rule: mkdirs.induct)
  case (2 p c cs s)
  then show ?case using fs_wf_put_dir [of s "p @ [c]"]
    by (cases "node_at s (p @ [c])") (auto simp: Let_def node_at_put split: node.splits)
qed simp

lemma fs_wf_MkdirAll: "os_MkdirAll p s = (e, s') \<Longrightarrow> fs_wf s \<Longrightarrow> fs_wf s'"
proof (erule MkdirAll_cases)
  fix t
  assume "next_fault s = (None, t)" "mkdirs [] p t = (e, s')" "fs_wf s"
  moreover have "fs_wf t" using calculation by (simp add: fs_wf_next_fault)
  moreover have "node_at t [] = Some Dir" using \<open>fs_wf t\<close> by (simp add: fs_wf_def)
  ultimately show "fs_wf s'" by (blast intro: fs_wf_mkdirs)
qed (simp add: fs_wf_next_fault)

lemma last_split: "q \<noteq> [] \<and> butlast q = p \<and> last q = x \<longleftrightarrow> q = p @ [x]"
  by (metis append_butlast_last_id butlast_snoc last_snoc snoc_eq_iff_butlast)

lemma dir_entries_iff:
  assumes "fs_wf s"
  shows "(x, n) \<in> set (dir_entries p s) \<longleftrightarrow> node_at s (p @ [x]) = Some n"
proof -
  have "(x, n) \<in> set (dir_entries p s) \<longleftrightarrow>
      (\<exists>q. (q, n) \<in> set (tree s) \<and> q \<noteq> [] \<and> butlast q = p \<and> last q = x)"
    unfolding dir_entries_def set_go_sort set_map set_filter image_iff
    by (simp add: case_prod_beta) (metis fst_conv prod.collapse snd_conv)
  also have "\<dots> \<longleftrightarrow> (p @ [x], n) \<in> set (tree s)"
    by (simp add: last_split)
  also have "\<dots> \<longleftrightarrow> node_at s (p @ [x]) = Some n"
    using assms by (simp add: node_at_def fs_wf_def)
  finally show ?thesis .
qed

lemma distinct_dir_entries:
  assumes "fs_wf s"
  shows "distinct (map fst (dir_entries p s))"
proof -
  let ?l = "filter (\<lambda>(q, n). q \<noteq> [] \<and> butlast q = p) (tree s)"
  have d: "distinct (map fst ?l)"
    using assms by (simp add: fs_wf_def distinct_map_filter)
  have l: "q \<noteq> [] \<and> butlast q = p" if "q \<in> set (map fst ?l)" for q
    using that by auto
  have i: "inj_on last (set (map fst ?l))"
  proof (rule inj_onI)
    fix q r assume "q \<in> set (map fst ?l)" "r \<in> set (map fst ?l)" "last q = last r"
    then have "q = p @ [last r]" "r = p @ [last r]"
      using l [of q] l [of r] last_split [of q p "last r"] last_split [of r p "last r"]
      by (simp_all only: simp_thms)
    then show "q = r" by (rule trans [OF _ sym])
  qed
  have dl: "distinct (map last (map fst ?l))"
    using d i by (subst distinct_map) blast
  have ml: "map last (map fst ?l) = map fst (map (\<lambda>(q, n). (last q, n)) ?l)"
    by (simp add: comp_def case_prod_beta)
  have "mset (map fst (dir_entries p s)) = mset (map fst (map (\<lambda>(q, n). (last q, n)) ?l))"
    unfolding dir_entries_def mset_map mset_go_sort by (rule refl)
  then have "distinct (map fst (dir_entries p s)) = distinct (map last (map fst ?l))"
    unfolding ml by (rule mset_eq_imp_distinct_iff)
  with dl show ?thesis by (rule iffD2 [rotated])
qed

subsection \<open>Calls on one file\<close>

text \<open>What a call may do to a file being written: nothing else changes, the tree stays
  well-formed.\<close>

definition touches :: "path \<Rightarrow> fs \<Rightarrow> fs \<Rightarrow> bool" where
  "touches p s s' \<longleftrightarrow> (\<forall>q. q \<noteq> p \<longrightarrow> node_at s' q = node_at s q) \<and> (fs_wf s \<longrightarrow> fs_wf s')"

lemma touches_refl [simp]: "touches p s s"
  by (simp add: touches_def)

lemma touches_trans: "touches p s t \<Longrightarrow> touches p t u \<Longrightarrow> touches p s u"
  by (simp add: touches_def)

lemma touches_fault: "next_fault s = (f, s') \<Longrightarrow> touches p s s' \<and> node_at s' p = node_at s p"
  by (simp add: touches_def fs_wf_next_fault)

lemma Create_touches:
  assumes "os_Create p s = (e, s')" "p \<noteq> []"
  shows "touches p s s' \<and> (e = None \<longrightarrow> node_at s' p = Some (File []) \<and> node_at s (butlast p) = Some Dir) \<and>
    (e \<noteq> None \<longrightarrow> node_at s' p = node_at s p)"
  using assms
  by (auto simp: os_Create_def touches_def node_at_put fs_wf_next_fault
      split: prod.splits option.splits if_splits intro!: fs_wf_put)

lemma Copy_touches:
  assumes "io_Copy p d s = (e, s')" "node_at s p = Some (File c)" "p \<noteq> []"
  shows "touches p s s' \<and> (e = None \<longrightarrow> node_at s' p = Some (File (c @ d))) \<and> (\<exists>c'. node_at s' p = Some (File c'))"
proof -
  obtain f t where t: "next_fault s = (f, t)" by fastforce
  have "fs_wf (put_node p (File x) t)" if "fs_wf s" for x
    using that assms(2,3) t fs_wf_parent [OF that assms(2,3)]
    by (intro fs_wf_put) (simp_all add: fs_wf_next_fault)
  then show ?thesis
    using assms(1,2) t by (auto simp: io_Copy_def touches_def node_at_put split: option.splits)
qed

lemma Close_touches: "os_Close s = (e, s') \<Longrightarrow> touches p s s' \<and> node_at s' p = node_at s p"
  by (auto simp: os_Close_def split: prod.splits option.splits dest: touches_fault)

lemma Remove_touches:
  assumes "os_Remove p s = (e, s')"
  shows "touches p s s' \<and> (node_at s' p = node_at s p \<or> node_at s' p = None)"
proof -
  obtain f t where t: "next_fault s = (f, t)" by fastforce
  have "fs_wf (del_node p t)" if "fs_wf s" "node_at s p = Some (File d)" for d
    using that t by (intro fs_wf_del_file) (simp_all add: fs_wf_next_fault)
  then show ?thesis
    using assms t
    by (auto simp: os_Remove_def touches_def node_at_del fs_wf_next_fault split: option.splits node.splits)
qed

lemma Rename_result:
  assumes "os_Rename p q s = (e, s')" "node_at s p = Some (File d)" "p \<noteq> q" "q \<noteq> []"
    "butlast p = butlast q" "p \<noteq> []"
  shows "(\<forall>r. r \<noteq> p \<longrightarrow> r \<noteq> q \<longrightarrow> node_at s' r = node_at s r) \<and> (fs_wf s \<longrightarrow> fs_wf s') \<and>
    (e = None \<longrightarrow> node_at s' q = Some (File d) \<and> node_at s' p = None) \<and>
    (e \<noteq> None \<longrightarrow> node_at s' q = node_at s q \<and> node_at s' p = node_at s p)"
proof -
  obtain f t where t: "next_fault s = (f, t)" by fastforce
  have "fs_wf (put_node q (File d) (del_node p t))" if "fs_wf s" "node_at s q \<noteq> Some Dir"
  proof (rule fs_wf_put)
    show "fs_wf (del_node p t)"
      using that assms(2) t by (intro fs_wf_del_file) (simp_all add: fs_wf_next_fault)
    have "butlast p \<noteq> p" using assms(6) by (metis append_butlast_last_id not_Cons_self2 self_append_conv)
    then show "node_at (del_node p t) (butlast q) = Some Dir"
      using fs_wf_parent [OF that(1) assms(2,6)] assms(5) t by (simp add: node_at_del)
    show "File d = Dir \<or> node_at (del_node p t) q \<noteq> Some Dir"
      using that(2) assms(3) t by (simp add: node_at_del)
  qed fact
  then show ?thesis
    using assms(1,2,3) t
    by (auto simp: os_Rename_def node_at_put node_at_del fs_wf_next_fault split: option.splits if_splits)
qed

end
