(* ===== verification/Backend.thy ===== *)
theory Backend
  imports Names
begin

text \<open>
  The storage interface of continuous backups (\<open>BackupBackend\<close> in \<open>backup.go\<close>) as a record
  of operations over a backend state, and its contract as the locale \<open>backup_backend\<close>: which
  object a successful write leaves, what a failed write may have left, that reads change
  nothing and listings name what is stored. The engine and restore call a backend through the
  record; their lemmas are proved from the contract, inside the locale.

  Payloads are produced and read through \<open>compress/gzip\<close>, of which the program uses that
  reading back what was written gives the data: a \<open>codec\<close> is any such pair.
\<close>

record 'b backend_ops =
  WriteSnapshot :: "string \<Rightarrow> bytes \<Rightarrow> 'b \<Rightarrow> error option \<times> 'b"
  WriteWALSegment :: "string \<Rightarrow> WALSegmentInfo \<Rightarrow> bytes \<Rightarrow> 'b \<Rightarrow> error option \<times> 'b"
  Generations :: "'b \<Rightarrow> Generation list result \<times> 'b"
  WALSegments :: "string \<Rightarrow> 'b \<Rightarrow> WALSegmentInfo list result \<times> 'b"
  ReadSnapshot :: "string \<Rightarrow> 'b \<Rightarrow> bytes result \<times> 'b"
  ReadWALSegment :: "string \<Rightarrow> WALSegmentInfo \<Rightarrow> 'b \<Rightarrow> bytes result \<times> 'b"
  DeleteGeneration :: "string \<Rightarrow> 'b \<Rightarrow> error option \<times> 'b"

record codec =
  gzip_write :: "bytes \<Rightarrow> bytes result"
  gzip_header :: "bytes \<Rightarrow> error option"
  gzip_stream :: "bytes \<Rightarrow> bytes \<times> error option"

text \<open>\<open>gzip_header\<close> is what \<open>gzip.NewReader\<close> returns, \<open>gzip_stream\<close> the data the reader then
  yields and the error it ends with (\<open>None\<close> is a clean end).\<close>

definition gzip_read :: "codec \<Rightarrow> bytes \<Rightarrow> bytes result" where
  "gzip_read cd z =
     (case gzip_header cd z of
        Some e \<Rightarrow> Inl e
      | None \<Rightarrow> (case gzip_stream cd z of (d, Some e) \<Rightarrow> Inl e | (d, None) \<Rightarrow> Inr d))"

definition codec_ok :: "codec \<Rightarrow> bool" where
  "codec_ok cd \<longleftrightarrow> (\<forall>d z. gzip_write cd d = Inr z \<longrightarrow> gzip_read cd z = Inr d)"

text \<open>The codec that stores data as it is, for evaluating the model.\<close>

definition codec_ex :: codec where
  "codec_ex = \<lparr> gzip_write = Inr, gzip_header = (\<lambda>_. None), gzip_stream = (\<lambda>z. (z, None)) \<rparr>"

lemma codec_ok_ex: "codec_ok codec_ex"
  by (simp add: codec_ok_def codec_ex_def gzip_read_def)

text \<open>\<open>gzipBytes\<close>: the compressed payload and its size.\<close>

definition gzipBytes :: "codec \<Rightarrow> bytes \<Rightarrow> (bytes \<times> int) result" where
  "gzipBytes cd d = (case gzip_write cd d of Inl e \<Rightarrow> Inl e | Inr z \<Rightarrow> Inr (z, int (length z)))"

text \<open>The comparison \<open>sort.Slice\<close> gets for segments: by index, then by offset.\<close>

definition seg_lt :: "WALSegmentInfo \<Rightarrow> WALSegmentInfo \<Rightarrow> bool" where
  "seg_lt a b = (if s_Index a \<noteq> s_Index b then s_Index a < s_Index b else s_Offset a < s_Offset b)"

definition seg_key :: "WALSegmentInfo \<Rightarrow> int \<times> int" where
  "seg_key s = (s_Index s, s_Offset s)"

text \<open>And for generations: newest first.\<close>

definition gen_lt :: "Generation \<Rightarrow> Generation \<Rightarrow> bool" where
  "gen_lt a b \<longleftrightarrow> g_CreatedAt b < g_CreatedAt a"

interpretation seg_order: keyed_lt seg_lt seg_key
  by unfold_locales (auto simp: seg_lt_def seg_key_def less_prod_def')

interpretation gen_order: keyed_lt gen_lt "\<lambda>g. - g_CreatedAt g"
  by unfold_locales (simp add: gen_lt_def)

text \<open>
  The contract. \<open>names g\<close> says that \<open>g\<close> can name a generation (the ids the engine makes can; an
  object store has no use for ids with a slash), \<open>snap b g\<close> is the snapshot object of generation \<open>g\<close>, \<open>seg b g k\<close> its segment
  object named \<open>k\<close>, \<open>invar\<close> what the backend keeps true of its own state. Only objects under
  names the engine writes (\<open>seg_ok\<close>) are promised.
\<close>

locale backup_backend =
  fixes bk :: "'b backend_ops"
    and snap :: "'b \<Rightarrow> string \<Rightarrow> bytes option"
    and seg :: "'b \<Rightarrow> string \<Rightarrow> string \<Rightarrow> bytes option"
    and invar :: "'b \<Rightarrow> bool"
    and names :: "string \<Rightarrow> bool"
  assumes new_name: "names (NewGenerationID t rnd)"
    and snap_name: "\<lbrakk>invar b; snap b g \<noteq> None\<rbrakk> \<Longrightarrow> names g"
    and snapshot_ok: "\<lbrakk>invar b; WriteSnapshot bk g d b = (None, b'); names g\<rbrakk> \<Longrightarrow>
      invar b' \<and> snap b' = (snap b)(g := Some d) \<and> seg b' = seg b"
    and snapshot_err: "\<lbrakk>invar b; WriteSnapshot bk g d b = (Some e, b'); names g\<rbrakk> \<Longrightarrow>
      invar b' \<and> (snap b' = snap b \<or> snap b' = (snap b)(g := Some d)) \<and> seg b' = seg b"
    and segment_ok: "\<lbrakk>invar b; seg_ok s; WriteWALSegment bk g s d b = (None, b'); names g\<rbrakk> \<Longrightarrow>
      invar b' \<and> snap b' = snap b \<and> seg b' = (seg b)(g := (seg b g)(segmentKey s := Some d))"
    and segment_err: "\<lbrakk>invar b; seg_ok s; WriteWALSegment bk g s d b = (Some e, b'); names g\<rbrakk> \<Longrightarrow>
      invar b' \<and> snap b' = snap b \<and>
      (seg b' = seg b \<or> seg b' = (seg b)(g := (seg b g)(segmentKey s := Some d)))"
    and read_snapshot: "\<lbrakk>invar b; ReadSnapshot bk g b = (r, b')\<rbrakk> \<Longrightarrow>
      invar b' \<and> snap b' = snap b \<and> seg b' = seg b \<and> (\<forall>d. r = Inr d \<longrightarrow> snap b g = Some d)"
    and read_segment: "\<lbrakk>invar b; ReadWALSegment bk g s b = (r, b')\<rbrakk> \<Longrightarrow>
      invar b' \<and> snap b' = snap b \<and> seg b' = seg b \<and>
      (\<forall>d. r = Inr d \<longrightarrow> seg_ok s \<longrightarrow> seg b g (segmentKey s) = Some d)"
    and list_generations: "\<lbrakk>invar b; Generations bk b = (rl, b')\<rbrakk> \<Longrightarrow>
      invar b' \<and> snap b' = snap b \<and> seg b' = seg b \<and>
      (\<forall>l. rl = Inr l \<longrightarrow> sorted (map (\<lambda>g. - g_CreatedAt g) l) \<and>
        (\<forall>x \<in> set l. ParseGenerationID (g_ID x) = Inr (g_CreatedAt x) \<and> names (g_ID x)) \<and>
        (\<forall>g t. snap b g \<noteq> None \<longrightarrow> ParseGenerationID g = Inr t \<longrightarrow>
           \<lparr>g_ID = g, g_CreatedAt = t\<rparr> \<in> set l))"
    and list_segments: "\<lbrakk>invar b; WALSegments bk g b = (rw, b'); names g\<rbrakk> \<Longrightarrow>
      invar b' \<and> snap b' = snap b \<and> seg b' = seg b \<and>
      (\<forall>sl. rw = Inr sl \<longrightarrow> sorted (map seg_key sl) \<and> distinct (map segmentKey sl) \<and>
        (\<forall>x \<in> set sl. seg_ok x) \<and>
        (\<forall>s. seg_ok s \<longrightarrow>
           (segmentKey s \<in> segmentKey ` set sl) = (seg b g (segmentKey s) \<noteq> None)))"
    and delete_ok: "\<lbrakk>invar b; DeleteGeneration bk g b = (None, b'); names g\<rbrakk> \<Longrightarrow>
      invar b' \<and> snap b' = (snap b)(g := None) \<and> seg b' = (seg b)(g := (\<lambda>_. None))"
    and delete_err: "\<lbrakk>invar b; DeleteGeneration bk g b = (Some e, b'); names g\<rbrakk> \<Longrightarrow>
      invar b' \<and> (snap b g = None \<longrightarrow> snap b' g = None) \<and>
      (\<forall>g'. g' \<noteq> g \<longrightarrow> snap b' g' = snap b g' \<and> seg b' g' = seg b g')"
begin

text \<open>No call changes the objects of a generation it does not name.\<close>

lemma snapshot_frame:
  assumes "invar b" and "WriteSnapshot bk g d b = (r, b')" and "names g"
  shows "invar b' \<and> (\<forall>g'. g' \<noteq> g \<longrightarrow> snap b' g' = snap b g') \<and> seg b' = seg b"
proof (cases r)
  case None
  with snapshot_ok [of b g d b'] assms show ?thesis by simp
next
  case (Some e)
  with assms have "invar b' \<and> (snap b' = snap b \<or> snap b' = (snap b)(g := Some d)) \<and> seg b' = seg b"
    by (intro snapshot_err) simp_all
  then show ?thesis by (elim conjE disjE) simp_all
qed

lemma segment_frame:
  assumes "invar b" and "seg_ok s" and "WriteWALSegment bk g s d b = (r, b')" and "names g"
  shows "invar b' \<and> snap b' = snap b \<and>
    (\<forall>g' k. (g', k) \<noteq> (g, segmentKey s) \<longrightarrow> seg b' g' k = seg b g' k)"
proof (cases r)
  case None
  with segment_ok [of b s g d b'] assms show ?thesis by simp
next
  case (Some e)
  with assms have "invar b' \<and> snap b' = snap b \<and>
      (seg b' = seg b \<or> seg b' = (seg b)(g := (seg b g)(segmentKey s := Some d)))"
    by (intro segment_err) simp_all
  then show ?thesis by (elim conjE disjE) simp_all
qed

lemma delete_frame:
  assumes "invar b" and "DeleteGeneration bk g b = (r, b')" and "names g"
  shows "invar b' \<and> (snap b g = None \<longrightarrow> snap b' g = None) \<and>
    (\<forall>g'. g' \<noteq> g \<longrightarrow> snap b' g' = snap b g' \<and> seg b' g' = seg b g')"
proof (cases r)
  case None
  with delete_ok [of b g b'] assms show ?thesis by simp
next
  case (Some e)
  with delete_err [of b g e b'] assms show ?thesis by simp
qed

end

subsection \<open>Backends whose writes are all or nothing\<close>

text \<open>A segment write that reports an error has stored nothing (an object store that lost the
  reply to a write does not promise this, a file renamed into place does).\<close>

locale atomic_backend = backup_backend bk snap seg invar names
  for bk :: "'b backend_ops" and snap :: "'b \<Rightarrow> string \<Rightarrow> bytes option"
    and seg :: "'b \<Rightarrow> string \<Rightarrow> string \<Rightarrow> bytes option" and invar :: "'b \<Rightarrow> bool"
    and names :: "string \<Rightarrow> bool" +
  assumes segment_atomic: "\<lbrakk>invar b; seg_ok s; WriteWALSegment bk g s d b = (Some e, b'); names g\<rbrakk> \<Longrightarrow>
    seg b' = seg b"

end
