(* ===== verification/Local_Backend.thy ===== *)
theory Local_Backend
  imports Backend File_System
begin

text \<open>
  The local-directory backend (\<open>backup_local.go\<close>) over the file system model:
  \<open><dir>/<generation>/snapshot.db.gz\<close> and \<open><dir>/<generation>/wal/<key>\<close>, written through
  \<open>atomicWrite\<close> (a temporary file, then a rename). It is proved to keep the contract of
  \<open>backup_backend\<close> whatever the plan of faults of the file system.
\<close>

subsection \<open>atomicWrite\<close>

definition tmp_path :: "path \<Rightarrow> path" where
  "tmp_path p = butlast p @ [last p @ ''.tmp'']"

definition atomicWrite :: "path \<Rightarrow> bytes \<Rightarrow> fs \<Rightarrow> error option \<times> fs" where
  "atomicWrite p r s =
     (let tmp = tmp_path p in
      case os_Create tmp s of
        (Some err, s1) \<Rightarrow> (Some err, s1)
      | (None, s1) \<Rightarrow>
          (case io_Copy tmp r s1 of
             (Some err, s2) \<Rightarrow> (let s3 = snd (os_Close s2) in (Some err, snd (os_Remove tmp s3)))
           | (None, s2) \<Rightarrow>
               (case os_Close s2 of
                  (Some err, s3) \<Rightarrow> (Some err, snd (os_Remove tmp s3))
                | (None, s3) \<Rightarrow> os_Rename tmp p s3)))"

subsection \<open>The backend\<close>

text \<open>A backend is its directory.\<close>

type_synonym LocalBackend = path

definition NewLocalBackend :: "path \<Rightarrow> fs \<Rightarrow> LocalBackend result \<times> fs" where
  "NewLocalBackend dir s =
     (case os_MkdirAll dir s of
        (Some err, s) \<Rightarrow> (Inl (Wrapped ''colmena: local backend'' err), s)
      | (None, s) \<Rightarrow> (Inr dir, s))"

definition snap_name :: string where "snap_name = ''snapshot.db.gz''"

definition genDir :: "path \<Rightarrow> string \<Rightarrow> path" where
  "genDir dir g = dir @ [g]"

definition local_WriteSnapshot :: "path \<Rightarrow> string \<Rightarrow> bytes \<Rightarrow> fs \<Rightarrow> error option \<times> fs" where
  "local_WriteSnapshot dir generation r s =
     (let d = genDir dir generation in
      case os_MkdirAll d s of
        (Some err, s1) \<Rightarrow> (Some err, s1)
      | (None, s1) \<Rightarrow> atomicWrite (d @ [snap_name]) r s1)"

definition local_WriteWALSegment ::
  "path \<Rightarrow> string \<Rightarrow> WALSegmentInfo \<Rightarrow> bytes \<Rightarrow> fs \<Rightarrow> error option \<times> fs" where
  "local_WriteWALSegment dir generation sg r s =
     (let d = genDir dir generation @ [''wal''] in
      case os_MkdirAll d s of
        (Some err, s1) \<Rightarrow> (Some err, s1)
      | (None, s1) \<Rightarrow> atomicWrite (d @ [segmentKey sg]) r s1)"

fun gen_entries :: "(string \<times> node) list \<Rightarrow> Generation list" where
  "gen_entries [] = []"
| "gen_entries ((name, n) # es) =
     (if n \<noteq> Dir then gen_entries es
      else case ParseGenerationID name of
             Inl _ \<Rightarrow> gen_entries es
           | Inr ts \<Rightarrow> \<lparr>g_ID = name, g_CreatedAt = ts\<rparr> # gen_entries es)"

definition local_Generations :: "path \<Rightarrow> fs \<Rightarrow> Generation list result \<times> fs" where
  "local_Generations dir s =
     (case os_ReadDir dir s of
        (Inl err, s1) \<Rightarrow> (Inl err, s1)
      | (Inr entries, s1) \<Rightarrow> (Inr (go_sort gen_lt (gen_entries entries)), s1))"

text \<open>\<open>e.Info()\<close> is one more call that may fail; the size then stays 0.\<close>

fun seg_entries :: "(string \<times> node) list \<Rightarrow> fs \<Rightarrow> WALSegmentInfo list \<times> fs" where
  "seg_entries [] s = ([], s)"
| "seg_entries ((name, n) # es) s =
     (case parseSegmentKey name of
        Inl _ \<Rightarrow> seg_entries es s
      | Inr sg \<Rightarrow>
          (let (flt, s1) = next_fault s;
               sz = (case n of File d \<Rightarrow> int (length d) | Dir \<Rightarrow> 4096);
               sg' = (if flt = None then sg\<lparr>s_Size := sz\<rparr> else sg);
               (out, s2) = seg_entries es s1 in (sg' # out, s2)))"

definition local_WALSegments :: "path \<Rightarrow> string \<Rightarrow> fs \<Rightarrow> WALSegmentInfo list result \<times> fs" where
  "local_WALSegments dir generation s =
     (case os_ReadDir (genDir dir generation @ [''wal'']) s of
        (Inl err, s1) \<Rightarrow> if is_not_exist err then (Inr [], s1) else (Inl err, s1)
      | (Inr entries, s1) \<Rightarrow>
          (let (out, s2) = seg_entries entries s1 in (Inr (go_sort seg_lt out), s2)))"

definition local_ReadSnapshot :: "path \<Rightarrow> string \<Rightarrow> fs \<Rightarrow> bytes result \<times> fs" where
  "local_ReadSnapshot dir generation s = os_ReadFile (genDir dir generation @ [snap_name]) s"

definition local_ReadWALSegment ::
  "path \<Rightarrow> string \<Rightarrow> WALSegmentInfo \<Rightarrow> fs \<Rightarrow> bytes result \<times> fs" where
  "local_ReadWALSegment dir generation sg s =
     os_ReadFile (genDir dir generation @ [''wal'', segmentKey sg]) s"

definition local_DeleteGeneration :: "path \<Rightarrow> string \<Rightarrow> fs \<Rightarrow> error option \<times> fs" where
  "local_DeleteGeneration dir generation s = os_RemoveAll (genDir dir generation) s"

definition local_ops :: "path \<Rightarrow> fs backend_ops" where
  "local_ops dir =
     \<lparr> WriteSnapshot = local_WriteSnapshot dir,
       WriteWALSegment = local_WriteWALSegment dir,
       Generations = local_Generations dir,
       WALSegments = local_WALSegments dir,
       ReadSnapshot = local_ReadSnapshot dir,
       ReadWALSegment = local_ReadWALSegment dir,
       DeleteGeneration = local_DeleteGeneration dir \<rparr>"

subsection \<open>What atomicWrite leaves\<close>

lemma tmp_path_neq: "p \<noteq> [] \<Longrightarrow> tmp_path p \<noteq> p"
proof
  assume "p \<noteq> []" "tmp_path p = p"
  then have "last (tmp_path p) = last p" by simp
  then show False by (simp add: tmp_path_def)
qed

lemma butlast_tmp_path [simp]: "butlast (tmp_path p) = butlast p"
  by (simp add: tmp_path_def)

lemma tmp_path_not_Nil [simp]: "tmp_path p \<noteq> []"
  by (simp add: tmp_path_def)

text \<open>
  The call either leaves the target with the whole new contents and reports success, or
  leaves it as it was and reports an error; besides the target only the temporary file is
  touched, and that is a file, absent, or as it was.
\<close>

lemma atomicWrite_result:
  assumes "atomicWrite p r s = (e, s')" and "p \<noteq> []"
  shows "(\<forall>q. q \<noteq> p \<longrightarrow> q \<noteq> tmp_path p \<longrightarrow> node_at s' q = node_at s q) \<and> (fs_wf s \<longrightarrow> fs_wf s') \<and>
    (e = None \<longrightarrow> node_at s' p = Some (File r)) \<and> (e \<noteq> None \<longrightarrow> node_at s' p = node_at s p) \<and>
    (node_at s' (tmp_path p) = node_at s (tmp_path p) \<or> node_at s' (tmp_path p) = None \<or>
      (\<exists>d. node_at s' (tmp_path p) = Some (File d)))"
proof -
  let ?t = "tmp_path p"
  have np: "?t \<noteq> p" using assms(2) by (rule tmp_path_neq)
  obtain e1 s1 where c: "os_Create ?t s = (e1, s1)" by fastforce
  obtain e2 s2 where y: "io_Copy ?t r s1 = (e2, s2)" by fastforce
  obtain e3 s3 where l: "os_Close s2 = (e3, s3)" by fastforce
  obtain e4 s4 where m: "os_Remove ?t s3 = (e4, s4)" by fastforce
  obtain e5 s5 where n: "os_Rename ?t p s3 = (e5, s5)" by fastforce
  note C = Create_touches [OF c tmp_path_not_Nil]
  note L = Close_touches [OF l, of ?t] and M = Remove_touches [OF m]
  show ?thesis
  proof (cases e1)
    case (Some x)
    then have "e = Some x" "s' = s1" using assms(1) c by (simp_all add: atomicWrite_def Let_def)
    then show ?thesis using Some C np by (auto simp: touches_def)
  next
    case None
    then have t1: "node_at s1 ?t = Some (File [])" using C by simp
    note Y = Copy_touches [OF y t1 tmp_path_not_Nil]
    show ?thesis
    proof (cases "e2 = None \<and> e3 = None")
      case True
      then have t3: "node_at s3 ?t = Some (File r)" using Y L by simp
      note N = Rename_result [OF n t3 np assms(2) butlast_tmp_path tmp_path_not_Nil]
      have "e = e5" "s' = s5"
        using assms(1) None True c y l n by (simp_all add: atomicWrite_def Let_def)
      then show ?thesis using None True C Y L N np by (cases e5) (auto simp: touches_def)
    next
      case False
      then have "s' = s4" "e \<noteq> None"
        using assms(1) None c y l m by (auto simp: atomicWrite_def Let_def split: option.splits)
      moreover have "touches ?t s s4" using C Y L M by (meson touches_trans)
      moreover have "node_at s4 ?t = None \<or> (\<exists>d. node_at s4 ?t = Some (File d))"
        using M L Y by auto
      ultimately show ?thesis using np by (auto simp: touches_def)
    qed
  qed
qed

subsection \<open>The objects of the backend\<close>

text \<open>A name the engine writes: the canonical key of a well-formed segment.\<close>

definition is_key :: "string \<Rightarrow> bool" where
  "is_key k = (case parseSegmentKey k of Inl _ \<Rightarrow> False | Inr t \<Rightarrow> seg_ok t \<and> segmentKey t = k)"

lemma segmentKey_size [simp]: "segmentKey (t\<lparr>s_Size := n\<rparr>) = segmentKey t"
  by (simp add: segmentKey_def)

lemma seg_ok_size [simp]: "seg_ok (t\<lparr>s_Size := n\<rparr>) = seg_ok t"
  by (simp add: seg_ok_def)

lemma is_key_iff: "is_key k \<longleftrightarrow> (\<exists>t. seg_ok t \<and> k = segmentKey t)"
proof
  assume "is_key k"
  then show "\<exists>t. seg_ok t \<and> k = segmentKey t" by (auto simp: is_key_def split: sum.splits)
next
  assume "\<exists>t. seg_ok t \<and> k = segmentKey t"
  then show "is_key k" by (auto simp: is_key_def parse_segmentKey)
qed

lemma is_key_segmentKey [simp]: "seg_ok t \<Longrightarrow> is_key (segmentKey t)"
  unfolding is_key_iff by blast

lemma not_is_key_tmp: "seg_ok t \<Longrightarrow> \<not> is_key (segmentKey t @ ''.tmp'')"
  using parse_segmentKey_tmp [of t] by (auto simp: is_key_def)

fun file_of :: "node option \<Rightarrow> bytes option" where
  "file_of (Some (File d)) = Some d"
| "file_of _ = None"

definition snap_path :: "path \<Rightarrow> string \<Rightarrow> path" where
  "snap_path dir g = genDir dir g @ [snap_name]"

definition seg_path :: "path \<Rightarrow> string \<Rightarrow> string \<Rightarrow> path" where
  "seg_path dir g k = genDir dir g @ [''wal'', k]"

definition l_snap :: "path \<Rightarrow> fs \<Rightarrow> string \<Rightarrow> bytes option" where
  "l_snap dir s g = file_of (node_at s (snap_path dir g))"

definition l_seg :: "path \<Rightarrow> fs \<Rightarrow> string \<Rightarrow> string \<Rightarrow> bytes option" where
  "l_seg dir s g k = (if is_key k then file_of (node_at s (seg_path dir g k)) else None)"

text \<open>The backend's directory holds nothing in its segment directories but segments and
  segments being written.\<close>

definition l_inv :: "path \<Rightarrow> fs \<Rightarrow> bool" where
  "l_inv dir s \<longleftrightarrow> fs_wf s \<and>
     (\<forall>g k n. node_at s (seg_path dir g k) = Some n \<longrightarrow>
        (\<exists>d t. n = File d \<and> seg_ok t \<and> (k = segmentKey t \<or> k = segmentKey t @ ''.tmp'')))"

lemma path_simps [simp]:
  "snap_path dir g = snap_path dir g' \<longleftrightarrow> g = g'"
  "seg_path dir g k = seg_path dir g' k' \<longleftrightarrow> g = g' \<and> k = k'"
  "snap_path dir g \<noteq> seg_path dir g' k" "seg_path dir g' k \<noteq> snap_path dir g"
  "tmp_path (snap_path dir g) \<noteq> seg_path dir g' k" "seg_path dir g' k \<noteq> tmp_path (snap_path dir g)"
  "tmp_path (seg_path dir g k) = seg_path dir g (k @ ''.tmp'')"
  "tmp_path (snap_path dir g) \<noteq> snap_path dir g'" "snap_path dir g' \<noteq> tmp_path (snap_path dir g)"
  "snap_path dir g \<noteq> []" "seg_path dir g k \<noteq> []"
  by (auto simp: snap_path_def seg_path_def genDir_def tmp_path_def snap_name_def butlast_append)

lemma l_invD:
  "l_inv dir s \<Longrightarrow> node_at s (seg_path dir g k) = Some n \<Longrightarrow>
   \<exists>d t. n = File d \<and> seg_ok t \<and> (k = segmentKey t \<or> k = segmentKey t @ ''.tmp'')"
  by (simp add: l_inv_def)

lemma l_inv_wf: "l_inv dir s \<Longrightarrow> fs_wf s"
  by (simp add: l_inv_def)

text \<open>Two trees with the same nodes at the backend's object paths have the same objects.\<close>

lemma l_inv_same:
  assumes "l_inv dir s" "fs_wf s'"
    and "\<And>g k. node_at s' (seg_path dir g k) = node_at s (seg_path dir g k)"
  shows "l_inv dir s'"
  using assms by (simp add: l_inv_def)

lemma l_objects_same:
  assumes "\<And>g k. node_at s' (seg_path dir g k) = node_at s (seg_path dir g k)"
    and "\<And>g. node_at s' (snap_path dir g) = node_at s (snap_path dir g)"
  shows "l_snap dir s' = l_snap dir s" "l_seg dir s' = l_seg dir s"
  using assms by (simp_all add: l_snap_def l_seg_def fun_eq_iff)

lemma fault_objects:
  assumes "next_fault s = (f, s')" "l_inv dir s"
  shows "l_inv dir s' \<and> l_snap dir s' = l_snap dir s \<and> l_seg dir s' = l_seg dir s"
  using l_inv_same [OF assms(2), of s'] l_objects_same [of s' dir s] assms
  by (simp add: fs_wf_next_fault l_inv_wf)

lemma mkdirs_frame:
  "mkdirs p cs s = (e, s') \<Longrightarrow> length q > length p + length cs \<Longrightarrow> node_at s' q = node_at s q"
proof (induction p cs s rule: mkdirs.induct)
  case (2 p c cs s)
  then show ?case
    by (cases "node_at s (p @ [c])") (auto simp: Let_def node_at_put split: node.splits)
qed simp

lemma MkdirAll_objects:
  assumes "os_MkdirAll p s = (e, s')" "length p \<le> length dir + 2" "l_inv dir s"
  shows "l_inv dir s' \<and> l_snap dir s' = l_snap dir s \<and> l_seg dir s' = l_seg dir s"
proof -
  have seg: "node_at s' (seg_path dir g k) = node_at s (seg_path dir g k)" for g k
    using assms(1,2) mkdirs_frame [of "[]" p _ e s' "seg_path dir g k"]
    by (elim MkdirAll_cases) (auto simp: seg_path_def genDir_def)
  have "(node_at s' (snap_path dir g) = Some (File d)) = (node_at s (snap_path dir g) = Some (File d))" for g d
    by (rule MkdirAll_files [OF assms(1)])
  then have "l_snap dir s' g = l_snap dir s g" for g
    unfolding l_snap_def by (metis file_of.elims)
  moreover have "l_seg dir s' = l_seg dir s" using seg by (simp add: l_seg_def fun_eq_iff)
  ultimately show ?thesis
    using l_inv_same [OF assms(3) fs_wf_MkdirAll [OF assms(1) l_inv_wf [OF assms(3)]] seg] by auto
qed

lemma local_WriteSnapshot_objects:
  assumes "local_WriteSnapshot dir g d s = (r, s')" "l_inv dir s"
  shows "l_inv dir s' \<and> l_seg dir s' = l_seg dir s \<and>
    l_snap dir s' = (if r = None then (l_snap dir s)(g := Some d) else l_snap dir s)"
proof -
  obtain e1 s1 where m: "os_MkdirAll (genDir dir g) s = (e1, s1)" by fastforce
  have M: "l_inv dir s1" "l_snap dir s1 = l_snap dir s" "l_seg dir s1 = l_seg dir s"
    using MkdirAll_objects [OF m _ assms(2)] by (simp_all add: genDir_def)
  show ?thesis
  proof (cases e1)
    case (Some x)
    then show ?thesis using assms(1) m M by (auto simp: local_WriteSnapshot_def Let_def)
  next
    case None
    then have w: "atomicWrite (snap_path dir g) d s1 = (r, s')"
      using assms(1) m by (simp add: local_WriteSnapshot_def Let_def snap_path_def)
    note W = atomicWrite_result [OF w path_simps(10)]
    have "l_inv dir s'" using W M(1) by (intro l_inv_same [OF M(1)]) (simp_all add: l_inv_wf)
    moreover have "l_seg dir s' = l_seg dir s1" using W by (simp add: l_seg_def fun_eq_iff)
    moreover have "l_snap dir s' h = (if r = None then (l_snap dir s1)(g := Some d) else l_snap dir s1) h" for h
      using W by (cases "h = g") (simp_all add: l_snap_def)
    ultimately show ?thesis using M by (auto simp: fun_eq_iff)
  qed
qed

text \<open>Writing one segment file: the other files stay, the directory stays one of segments.\<close>

lemma segment_write_elsewhere:
  assumes "atomicWrite (seg_path dir g (segmentKey t)) d s = (r, s')"
    and "(h, k) \<noteq> (g, segmentKey t)" "(h, k) \<noteq> (g, segmentKey t @ ''.tmp'')"
  shows "node_at s' (seg_path dir h k) = node_at s (seg_path dir h k)"
proof -
  from assms(2,3) have "seg_path dir h k \<noteq> seg_path dir g (segmentKey t)"
    "seg_path dir h k \<noteq> seg_path dir g (segmentKey t @ ''.tmp'')" by simp_all
  then show ?thesis
    by (rule conjunct1 [OF atomicWrite_result [OF assms(1) path_simps(11), unfolded path_simps], rule_format])
qed

lemma segment_write_inv:
  assumes "atomicWrite (seg_path dir g (segmentKey t)) d s = (r, s')" and "l_inv dir s" and "seg_ok t"
  shows "l_inv dir s'"
  unfolding l_inv_def
proof (intro conjI allI impI)
  let ?k = "segmentKey t"
  note W = atomicWrite_result [OF assms(1) path_simps(11), unfolded path_simps]
  show "fs_wf s'" using W assms(2) by (simp add: l_inv_wf)
  fix h k n assume n: "node_at s' (seg_path dir h k) = Some n"
  consider "(h, k) = (g, ?k)" | "(h, k) = (g, ?k @ ''.tmp'')"
    | "node_at s' (seg_path dir h k) = node_at s (seg_path dir h k)"
    using segment_write_elsewhere [OF assms(1), of h k]
    by (cases "(h, k) = (g, ?k)"; cases "(h, k) = (g, ?k @ ''.tmp'')") simp_all
  then show "\<exists>d t. n = File d \<and> seg_ok t \<and> (k = segmentKey t \<or> k = segmentKey t @ ''.tmp'')"
  proof cases
    case 1
    then show ?thesis using W n l_invD [OF assms(2), of h k n] assms(3) by (cases r) auto
  next
    case 2
    then show ?thesis using W n l_invD [OF assms(2), of h k n] assms(3) by auto
  next
    case 3
    then show ?thesis using n l_invD [OF assms(2), of h k n] by simp
  qed
qed

lemma segment_write_objects:
  assumes "atomicWrite (seg_path dir g (segmentKey t)) d s = (r, s')" and "l_inv dir s" and "seg_ok t"
  shows "l_snap dir s' = l_snap dir s"
    and "l_seg dir s' = (if r = None then (l_seg dir s)(g := (l_seg dir s g)(segmentKey t := Some d)) else l_seg dir s)"
      (is "_ = ?written")
proof -
  let ?k = "segmentKey t"
  note W = atomicWrite_result [OF assms(1) path_simps(11), unfolded path_simps]
  show "l_snap dir s' = l_snap dir s" using W by (simp add: l_snap_def fun_eq_iff)
  have "l_seg dir s' h k = ?written h k" for h k
  proof -
    consider (key) "h = g" "k = ?k" | (tmp) "h = g" "k = ?k @ ''.tmp''" "k \<noteq> ?k"
      | (other) "node_at s' (seg_path dir h k) = node_at s (seg_path dir h k)" "(h, k) \<noteq> (g, ?k)"
      using segment_write_elsewhere [OF assms(1), of h k]
      by (cases "h = g"; cases "k = ?k"; cases "k = ?k @ ''.tmp''") simp_all
    then show ?thesis
    proof cases
      case key
      then show ?thesis using W assms(3) by (cases r) (simp_all add: l_seg_def)
    next
      case tmp
      then show ?thesis using not_is_key_tmp [OF assms(3)] by (simp add: l_seg_def)
    next
      case other
      then show ?thesis by (simp add: l_seg_def)
    qed
  qed
  then show "l_seg dir s' = ?written" by (simp only: fun_eq_iff) simp
qed

lemma local_WriteWALSegment_objects:
  assumes "local_WriteWALSegment dir g t d s = (r, s')" "l_inv dir s" "seg_ok t"
  shows "l_inv dir s' \<and> l_snap dir s' = l_snap dir s \<and>
    l_seg dir s' = (if r = None then (l_seg dir s)(g := (l_seg dir s g)(segmentKey t := Some d))
                    else l_seg dir s)"
proof -
  obtain e1 s1 where m: "os_MkdirAll (genDir dir g @ [''wal'']) s = (e1, s1)" by fastforce
  have M: "l_inv dir s1" "l_snap dir s1 = l_snap dir s" "l_seg dir s1 = l_seg dir s"
    using MkdirAll_objects [OF m _ assms(2)] by (simp_all add: genDir_def)
  show ?thesis
  proof (cases e1)
    case (Some x)
    then show ?thesis using assms(1) m M by (auto simp: local_WriteWALSegment_def Let_def)
  next
    case None
    then have w: "atomicWrite (seg_path dir g (segmentKey t)) d s1 = (r, s')"
      using assms(1) m by (simp add: local_WriteWALSegment_def Let_def seg_path_def)
    show ?thesis
      using segment_write_inv [OF w M(1) assms(3)] segment_write_objects [OF w M(1) assms(3)]
      unfolding M by simp
  qed
qed

lemma ReadFile_objects:
  assumes "os_ReadFile p s = (r, s')" "l_inv dir s"
  shows "l_inv dir s' \<and> l_snap dir s' = l_snap dir s \<and> l_seg dir s' = l_seg dir s \<and>
    (\<forall>d. r = Inr d \<longrightarrow> node_at s p = Some (File d))"
proof -
  obtain f t where t: "next_fault s = (f, t)" by fastforce
  then have "s' = t" using assms(1) by (auto simp: os_ReadFile_def split: option.splits node.splits)
  with fault_objects [OF t assms(2)] t assms(1) show ?thesis
    by (auto simp: os_ReadFile_def split: option.splits node.splits)
qed

lemma ReadDir_objects:
  assumes "os_ReadDir p s = (r, s')" "l_inv dir s"
  shows "l_inv dir s' \<and> l_snap dir s' = l_snap dir s \<and> l_seg dir s' = l_seg dir s \<and>
    (\<forall>l. r = Inr l \<longrightarrow> l = dir_entries p s' \<and> node_at s' p = Some Dir) \<and>
    (r = Inl ErrNotExist \<longrightarrow> node_at s' p = None)"
proof -
  obtain f t where t: "next_fault s = (f, t)" by fastforce
  then have "s' = t" using assms(1) by (auto simp: os_ReadDir_def split: option.splits node.splits)
  with fault_objects [OF t assms(2)] t assms(1) show ?thesis
    by (auto simp: os_ReadDir_def io_error_def split: option.splits node.splits)
qed

subsection \<open>Listings\<close>

lemma gen_entries_iff:
  "x \<in> set (gen_entries es) \<longleftrightarrow>
   (\<exists>ts. (g_ID x, Dir) \<in> set es \<and> ParseGenerationID (g_ID x) = Inr ts \<and> x = \<lparr>g_ID = g_ID x, g_CreatedAt = ts\<rparr>)"
proof (induction es rule: gen_entries.induct)
  case (2 name n es)
  then show ?case
    by (cases "n = Dir"; cases "ParseGenerationID name") (auto simp: conj_disj_distribR ex_disj_distrib)
qed simp

lemma local_Generations_objects:
  assumes "local_Generations dir s = (r, s')" "l_inv dir s"
  shows "l_inv dir s' \<and> l_snap dir s' = l_snap dir s \<and> l_seg dir s' = l_seg dir s \<and>
    (\<forall>l. r = Inr l \<longrightarrow> sorted (map (\<lambda>g. - g_CreatedAt g) l) \<and>
      (\<forall>x \<in> set l. ParseGenerationID (g_ID x) = Inr (g_CreatedAt x)) \<and>
      (\<forall>g t. l_snap dir s g \<noteq> None \<longrightarrow> ParseGenerationID g = Inr t \<longrightarrow> \<lparr>g_ID = g, g_CreatedAt = t\<rparr> \<in> set l))"
proof -
  obtain x t where x: "os_ReadDir dir s = (x, t)" by fastforce
  note R = ReadDir_objects [OF x assms(2)]
  have st: "s' = t" using assms(1) x by (auto simp: local_Generations_def split: sum.splits)
  show ?thesis
  proof (cases x)
    case (Inl e)
    then show ?thesis using R st assms(1) x by (auto simp: local_Generations_def)
  next
    case (Inr es)
    then have r: "r = Inr (go_sort gen_lt (gen_entries es))"
      using assms(1) x by (auto simp: local_Generations_def)
    have es: "es = dir_entries dir t" using R Inr by simp
    have wf: "fs_wf t" using R l_inv_wf by blast
    have "\<lparr>g_ID = g, g_CreatedAt = ts\<rparr> \<in> set (gen_entries es)"
      if "l_snap dir s g \<noteq> None" "ParseGenerationID g = Inr ts" for g ts
    proof -
      have "l_snap dir t g \<noteq> None" using that(1) R by simp
      then obtain d where "node_at t (snap_path dir g) = Some (File d)"
        unfolding l_snap_def by (cases "node_at t (snap_path dir g)" rule: file_of.cases) auto
      then have "node_at t (butlast (snap_path dir g)) = Some Dir"
        by (rule fs_wf_parent [OF wf _ path_simps(10)])
      then have "(g, Dir) \<in> set es"
        by (simp add: es dir_entries_iff [OF wf] snap_path_def genDir_def butlast_append)
      with that(2) show ?thesis by (simp add: gen_entries_iff)
    qed
    moreover have "ParseGenerationID (g_ID y) = Inr (g_CreatedAt y)" if "y \<in> set (gen_entries es)" for y
      using that unfolding gen_entries_iff by (metis Generation.select_convs(2))
    ultimately show ?thesis using R st r gen_order.sorted_go_sort by auto
  qed
qed

lemma seg_entries_tree: "seg_entries es s = (out, s') \<Longrightarrow> tree s' = tree s"
proof (induction es s arbitrary: out s' rule: seg_entries.induct)
  case (2 name n es s)
  then show ?case
    by (fastforce simp: Let_def next_fault_tree split: sum.splits prod.splits)
qed simp

lemma seg_entries_keys:
  assumes "seg_entries es s = (out, s')"
    and "\<forall>(name, n) \<in> set es. \<exists>t. seg_ok t \<and> (name = segmentKey t \<or> name = segmentKey t @ ''.tmp'')"
  shows "map segmentKey out = filter is_key (map fst es) \<and> (\<forall>x \<in> set out. seg_ok x)"
  using assms
proof (induction es s arbitrary: out s' rule: seg_entries.induct)
  case (2 name n es s)
  obtain t where t: "seg_ok t" "name = segmentKey t \<or> name = segmentKey t @ ''.tmp''"
    using "2.prems"(2) by auto
  from t(2) show ?case
  proof
    assume k: "name = segmentKey t"
    then have p: "parseSegmentKey name = Inr (t\<lparr>s_Size := 0\<rparr>)" using t(1) by (simp add: parse_segmentKey)
    obtain f u where u: "next_fault s = (f, u)" by fastforce
    obtain out' s2 where o: "seg_entries es u = (out', s2)" by fastforce
    have "map segmentKey out' = filter is_key (map fst es) \<and> (\<forall>x \<in> set out'. seg_ok x)"
      using "2.IH"(2) [OF p refl u [symmetric] refl refl o] "2.prems"(2) by simp
    moreover have "\<exists>z. out = t\<lparr>s_Size := z\<rparr> # out'"
      using "2.prems"(1) p u o by (auto simp: Let_def split: if_splits)
    ultimately show ?thesis using t(1) k by auto
  next
    assume k: "name = segmentKey t @ ''.tmp''"
    then obtain e where "parseSegmentKey name = Inl e" using parse_segmentKey_tmp [OF t(1)] by blast
    then show ?thesis using "2.IH"(1) "2.prems" k not_is_key_tmp [OF t(1)] by simp
  qed
qed simp

lemma tree_objects:
  assumes "tree s = tree t"
  shows "l_inv dir s = l_inv dir t" "l_snap dir s = l_snap dir t" "l_seg dir s = l_seg dir t"
proof -
  have "node_at s = node_at t" using assms by (simp add: node_at_def fun_eq_iff)
  then show "l_inv dir s = l_inv dir t" "l_snap dir s = l_snap dir t" "l_seg dir s = l_seg dir t"
    using assms by (simp_all add: l_inv_def fs_wf_def l_snap_def l_seg_def fun_eq_iff)
qed

lemma l_seg_present:
  assumes "l_inv dir t"
  shows "l_seg dir t g k \<noteq> None \<longleftrightarrow> is_key k \<and> node_at t (seg_path dir g k) \<noteq> None"
proof (cases "node_at t (seg_path dir g k)")
  case (Some n)
  with l_invD [OF assms Some] show ?thesis by (auto simp: l_seg_def)
qed (simp add: l_seg_def)

lemma local_WALSegments_objects:
  assumes "local_WALSegments dir g s = (r, s')" "l_inv dir s"
  shows "l_inv dir s' \<and> l_snap dir s' = l_snap dir s \<and> l_seg dir s' = l_seg dir s \<and>
    (\<forall>l. r = Inr l \<longrightarrow> sorted (map seg_key l) \<and> distinct (map segmentKey l) \<and> (\<forall>x \<in> set l. seg_ok x) \<and>
      (\<forall>t. seg_ok t \<longrightarrow> (segmentKey t \<in> segmentKey ` set l) = (l_seg dir s g (segmentKey t) \<noteq> None)))"
proof -
  let ?p = "genDir dir g @ [''wal'']"
  have sp: "seg_path dir g k = ?p @ [k]" for k by (simp add: seg_path_def)
  obtain x t where x: "os_ReadDir ?p s = (x, t)" by fastforce
  note R = ReadDir_objects [OF x assms(2)]
  have wf: "fs_wf t" using R l_inv_wf by blast
  have fl: "l_seg dir s g k \<noteq> None \<longleftrightarrow> is_key k \<and> node_at t (?p @ [k]) \<noteq> None" for k
    using l_seg_present [of dir t g k] R unfolding sp by metis
  show ?thesis
  proof (cases x)
    case (Inl e)
    have "node_at t (?p @ [k]) = None" if "e = ErrNotExist" for k
    proof (rule ccontr)
      assume "node_at t (?p @ [k]) \<noteq> None"
      then have "node_at t (butlast (?p @ [k])) = Some Dir" using fs_wf_parent [OF wf] by auto
      then show False using that R Inl by (simp add: butlast_append)
    qed
    then show ?thesis using R assms(1) x Inl fl
      by (auto simp: local_WALSegments_def is_not_exist_def split: if_splits)
  next
    case (Inr es)
    then have es: "es = dir_entries ?p t" using R by simp
    obtain out s2 where o: "seg_entries es t = (out, s2)" by fastforce
    then have r: "r = Inr (go_sort seg_lt out)" "s' = s2"
      using assms(1) x Inr by (simp_all add: local_WALSegments_def)
    have "\<exists>u. seg_ok u \<and> (k = segmentKey u \<or> k = segmentKey u @ ''.tmp'')" if "(k, n) \<in> set es" for k n
      using that R l_invD [of dir t g k n] by (simp add: es dir_entries_iff [OF wf] sp)
    then have K: "map segmentKey out = filter is_key (map fst es)" "\<forall>x \<in> set out. seg_ok x"
      using seg_entries_keys [OF o] by auto
    have "distinct (map segmentKey out)"
      unfolding K(1) es using distinct_dir_entries [OF wf] by (rule distinct_filter)
    then have "distinct (map segmentKey (go_sort seg_lt out))"
      by (subst mset_eq_imp_distinct_iff [where ys = "map segmentKey out"]) simp_all
    moreover have "k \<in> segmentKey ` set out \<longleftrightarrow> l_seg dir s g k \<noteq> None" for k
    proof -
      have "k \<in> segmentKey ` set out \<longleftrightarrow> is_key k \<and> k \<in> fst ` set es"
        using arg_cong [OF K(1), of set] by auto
      also have "k \<in> fst ` set es \<longleftrightarrow> node_at t (?p @ [k]) \<noteq> None"
        unfolding es by (auto simp: image_iff Bex_def dir_entries_iff [OF wf])
      finally show ?thesis using fl [of k] by metis
    qed
    moreover have tr: "tree s2 = tree t" using o by (rule seg_entries_tree)
    then have "l_inv dir s2 \<and> l_snap dir s2 = l_snap dir t \<and> l_seg dir s2 = l_seg dir t"
      using R tree_objects by blast
    ultimately show ?thesis using R r K(2) seg_order.sorted_go_sort by simp
  qed
qed

subsection \<open>Deleting a generation\<close>

lemma map_of_filter_keys: "map_of (filter (\<lambda>(q, n). P q) xs) p = (if P p then map_of xs p else None)"
  by (induction xs) auto

lemma below_genDir:
  "below (genDir dir g) (snap_path dir g') \<longleftrightarrow> g' = g"
  "below (genDir dir g) (seg_path dir g' k) \<longleftrightarrow> g' = g"
  by (auto simp: below_def genDir_def snap_path_def seg_path_def)

lemma below_butlast: "q \<noteq> [] \<Longrightarrow> below p (butlast q) \<Longrightarrow> below p q"
proof -
  assume "q \<noteq> []" "below p (butlast q)"
  then obtain r where "butlast q = p @ r" unfolding below_def by (metis append_take_drop_id)
  then have "q = p @ (r @ [last q])" using \<open>q \<noteq> []\<close> by (metis append.assoc append_butlast_last_id)
  then show ?thesis unfolding below_def by (metis append_eq_conv_conj)
qed

lemma map_of_drop_files:
  assumes "distinct (map fst xs)"
  shows "map_of (filter (\<lambda>(q, nd). \<not> (P q \<and> nd \<noteq> Dir)) (take n xs) @ drop n xs) p = map_of xs p \<or>
    P p \<and> (\<exists>d. map_of xs p = Some (File d)) \<and>
      map_of (filter (\<lambda>(q, nd). \<not> (P q \<and> nd \<noteq> Dir)) (take n xs) @ drop n xs) p = None"
  using assms
proof (induction xs arbitrary: n)
  case (Cons x xs)
  obtain q nd where x: "x = (q, nd)" by (cases x)
  show ?case
  proof (cases n)
    case (Suc m)
    have nin: "p = q \<Longrightarrow> map_of xs p = None" using Cons.prems x by (simp add: map_of_eq_None_iff)
    show ?thesis using Cons.IH [of m] Cons.prems nin by (cases nd) (auto simp: Suc x)
  qed simp
qed simp

lemma RemoveAll_node:
  assumes "os_RemoveAll p s = (e, s')" "fs_wf s"
  shows "if e = None then node_at s' q = (if below p q then None else node_at s q)
    else node_at s' q = node_at s q \<or> below p q \<and> (\<exists>d. node_at s q = Some (File d)) \<and> node_at s' q = None"
proof -
  obtain f t where t: "next_fault s = (f, t)" by fastforce
  have ts: "tree t = tree s" using t by (rule next_fault_tree)
  show ?thesis
  proof (cases f)
    case None
    then have "e = None" "s' = t\<lparr>tree := filter (\<lambda>(q, _). \<not> below p q) (tree s)\<rparr>"
      using assms(1) t ts by (simp_all add: os_RemoveAll_def)
    then show ?thesis by (simp add: node_at_def map_of_filter_keys)
  next
    case (Some n)
    then have "e = Some io_error"
      "s' = t\<lparr>tree := filter (\<lambda>(q, nd). \<not> (below p q \<and> nd \<noteq> Dir)) (take n (tree s)) @ drop n (tree s)\<rparr>"
      using assms(1) t ts by (simp_all add: os_RemoveAll_def)
    then show ?thesis
      using map_of_drop_files [OF fs_wf_distinct [OF assms(2)], of "below p" n q] by (simp add: node_at_def)
  qed
qed

lemma RemoveAll_distinct:
  assumes "os_RemoveAll p s = (e, s')" "distinct (map fst (tree s))"
  shows "distinct (map fst (tree s'))"
proof -
  obtain f t where t: "next_fault s = (f, t)" by fastforce
  have ts: "tree t = tree s" using t by (rule next_fault_tree)
  have d: "distinct (map fst (take n (tree s)) @ map fst (drop n (tree s)))" for n
    using assms(2) by (simp flip: map_append)
  have "distinct (map fst (filter Q (take n (tree s)) @ drop n (tree s)))" for Q n
    using d [of n] by (auto simp: distinct_map_filter)
  then show ?thesis
    using assms t ts by (auto simp: os_RemoveAll_def distinct_map_filter split: option.splits)
qed

lemma local_DeleteGeneration_objects:
  assumes "local_DeleteGeneration dir g s = (r, s')" "l_inv dir s"
  shows "l_inv dir s' \<and>
    (r = None \<longrightarrow> l_snap dir s' = (l_snap dir s)(g := None) \<and> l_seg dir s' = (l_seg dir s)(g := (\<lambda>_. None))) \<and>
    (l_snap dir s g = None \<longrightarrow> l_snap dir s' g = None) \<and>
    (\<forall>g'. g' \<noteq> g \<longrightarrow> l_snap dir s' g' = l_snap dir s g' \<and> l_seg dir s' g' = l_seg dir s g')"
proof -
  let ?p = "genDir dir g"
  have d: "os_RemoveAll ?p s = (r, s')" using assms(1) by (simp add: local_DeleteGeneration_def)
  have wf: "fs_wf s" using assms(2) by (rule l_inv_wf)
  note N = RemoveAll_node [OF d wf]
  have less: "node_at s' q = Some n \<Longrightarrow> node_at s q = Some n" for q n
    using N [of q] by (auto split: if_splits)
  have dirs: "node_at s' q = Some Dir" if "node_at s q = Some Dir" "r = None \<longrightarrow> \<not> below ?p q" for q
    using N [of q] that by (cases "r = None") auto
  have "fs_wf s'"
  proof (rule fs_wfI)
    show "distinct (map fst (tree s'))" using RemoveAll_distinct [OF d fs_wf_distinct [OF wf]] .
    show "node_at s' [] = Some Dir"
      using fs_wf_root [OF wf] by (rule dirs) (simp add: below_def genDir_def)
    fix q n assume q: "node_at s' q = Some n" "q \<noteq> []"
    have "r = None \<longrightarrow> \<not> below ?p q" using N [of q] q(1) by auto
    then have "r = None \<longrightarrow> \<not> below ?p (butlast q)" using below_butlast [OF q(2)] by blast
    with fs_wf_parent [OF wf less [OF q(1)] q(2)] show "node_at s' (butlast q) = Some Dir" by (rule dirs)
  qed
  then have "l_inv dir s'" using l_invD [OF assms(2)] less unfolding l_inv_def by blast
  moreover have "l_snap dir s' h = l_snap dir s h \<and> l_seg dir s' h = l_seg dir s h" if "h \<noteq> g" for h
  proof -
    have "node_at s' q = node_at s q" if "\<not> below ?p q" for q
      using N [of q] that by (auto split: if_splits)
    with that show ?thesis by (simp add: l_snap_def l_seg_def fun_eq_iff below_genDir)
  qed
  moreover have "l_snap dir s' g = None" if "l_snap dir s g = None"
  proof (cases "node_at s' (snap_path dir g)")
    case (Some n)
    then show ?thesis using that less [OF Some] by (simp add: l_snap_def)
  qed (simp add: l_snap_def)
  moreover have "l_snap dir s' g = None \<and> l_seg dir s' g = (\<lambda>_. None)" if "r = None"
    using N that by (simp add: l_snap_def l_seg_def fun_eq_iff below_genDir)
  ultimately show ?thesis by (auto simp: fun_eq_iff)
qed

subsection \<open>The contract holds\<close>

text \<open>On every file system state and under every plan of faults.\<close>

interpretation local: atomic_backend "local_ops dir" "l_snap dir" "l_seg dir" "l_inv dir" "\<lambda>_. True"
  for dir :: path
proof (unfold_locales, goal_cases)
  case (1 t rnd)
  show ?case by simp
next
  case (2 b g)
  show ?case by simp
next
  case (3 b g d b')
  then show ?case using local_WriteSnapshot_objects [of dir g d b None b'] by (simp add: local_ops_def)
next
  case (4 b g d e b')
  then show ?case using local_WriteSnapshot_objects [of dir g d b "Some e" b'] by (simp add: local_ops_def)
next
  case (5 b s g d b')
  then show ?case using local_WriteWALSegment_objects [of dir g s d b None b'] by (simp add: local_ops_def)
next
  case (6 b s g d e b')
  then show ?case using local_WriteWALSegment_objects [of dir g s d b "Some e" b'] by (simp add: local_ops_def)
next
  case (7 b g r b')
  then show ?case using ReadFile_objects [of "snap_path dir g" b r b' dir]
    by (auto simp: local_ops_def local_ReadSnapshot_def snap_path_def [symmetric] l_snap_def)
next
  case (8 b g s r b')
  then show ?case using ReadFile_objects [of "seg_path dir g (segmentKey s)" b r b' dir]
      is_key_segmentKey [of s]
    by (auto simp: local_ops_def local_ReadWALSegment_def seg_path_def [symmetric] l_seg_def)
next
  case (9 b rl b')
  then show ?case using local_Generations_objects [of dir b rl b'] by (simp add: local_ops_def)
next
  case (10 b g rw b')
  then show ?case using local_WALSegments_objects [of dir g b rw b'] by (simp add: local_ops_def)
next
  case (11 b g b')
  then show ?case using local_DeleteGeneration_objects [of dir g b None b'] by (simp add: local_ops_def)
next
  case (12 b g e b')
  then show ?case using local_DeleteGeneration_objects [of dir g b "Some e" b'] by (simp add: local_ops_def)
next
  case (13 b s g d e b')
  then show ?case using local_WriteWALSegment_objects [of dir g s d b "Some e" b'] by (simp add: local_ops_def)
qed

subsection \<open>Properties\<close>

text \<open>C36. \<open>atomicWrite\<close> never leaves a partial object, whatever fails on the way: afterwards the
  target is the whole new contents (exactly when it reports success) or what it was before,
  and nothing but the target and the temporary file has changed.\<close>

theorem atomicWrite_atomic:
  assumes "p \<noteq> []" and "atomicWrite p r s = (e, s')"
  shows "(e = None \<longrightarrow> node_at s' p = Some (File r)) \<and> (e \<noteq> None \<longrightarrow> node_at s' p = node_at s p) \<and>
         (\<forall>q. q \<noteq> p \<longrightarrow> q \<noteq> tmp_path p \<longrightarrow> node_at s' q = node_at s q)"
  using atomicWrite_result [OF assms(2,1)] by simp

definition fs_ex :: fs where
  "fs_ex = \<lparr> tree = [([], Dir), ([''b''], Dir), ([''b'', ''o''], File [7])], faults = [None, Some 1, None, None] \<rparr>"

theorem atomicWrite_atomic_witness:
  "\<exists>e s'. atomicWrite [''b'', ''o''] [1, 2, 3] fs_ex = (Some e, s') \<and>
      node_at s' [''b'', ''o''] = node_at fs_ex [''b'', ''o'']"
proof -
  obtain e s' where w: "atomicWrite [''b'', ''o''] [1, 2, 3] fs_ex = (e, s')" by fastforce
  moreover have "fst (atomicWrite [''b'', ''o''] [1, 2, 3] fs_ex) \<noteq> None"
    by (simp add: atomicWrite_def fs_ex_def os_Create_def next_fault_def node_at_def tmp_path_def
        io_Copy_def Let_def put_node_def)
  ultimately show ?thesis using atomicWrite_atomic [OF _ w] by (cases e) auto
qed

text \<open>Under every plan of faults the local backend keeps the storage contract of segments:
  a write that reports success leaves exactly that object new, one that reports an error
  leaves every object as it was, and a listing names exactly the segments stored, in
  (index, offset) order, never one that is still being written.\<close>

theorem local_segments_contract:
  assumes "l_inv dir s" and "seg_ok t"
    and "WriteWALSegment (local_ops dir) g t d s = (e, s1)"
    and "WALSegments (local_ops dir) g s1 = (Inr l, s2)"
  shows "l_inv dir s2 \<and> l_snap dir s2 = l_snap dir s \<and>
    l_seg dir s2 = (if e = None then (l_seg dir s)(g := (l_seg dir s g)(segmentKey t := Some d))
                    else l_seg dir s) \<and>
    sorted (map seg_key l) \<and>
    (\<forall>u. seg_ok u \<longrightarrow> (segmentKey u \<in> segmentKey ` set l) = (l_seg dir s2 g (segmentKey u) \<noteq> None))"
proof -
  have w: "local_WriteWALSegment dir g t d s = (e, s1)" using assms(3) by (simp add: local_ops_def)
  note W = local_WriteWALSegment_objects [OF w assms(1,2)]
  have "l_inv dir s1" using W by blast
  from local.list_segments [OF this assms(4)] W show ?thesis by simp
qed

definition l_ex :: fs where
  "l_ex = \<lparr> tree = [([], Dir)], faults = [] \<rparr>"

lemma l_inv_ex: "l_inv dir l_ex"
proof -
  have n: "node_at l_ex p = (if p = [] then Some Dir else None)" for p
    by (simp add: l_ex_def node_at_def)
  have "fs_wf l_ex" by (rule fs_wfI) (simp_all add: n, simp add: l_ex_def)
  then show ?thesis by (simp add: l_inv_def n)
qed

lemma pair_Inr: "is_ok (fst x) \<Longrightarrow> \<exists>y z. x = (Inr y, z)"
  by (cases x; cases "fst x") auto

theorem local_segments_contract_witness:
  "\<exists>l s2. (\<exists>s1. WriteWALSegment (local_ops [''b'']) ''g'' seg_ex [1, 2] l_ex = (None, s1) \<and>
        WALSegments (local_ops [''b'']) ''g'' s1 = (Inr l, s2)) \<and>
      segmentKey seg_ex \<in> segmentKey ` set l \<and> l_seg [''b''] s2 ''g'' (segmentKey seg_ex) = Some [1, 2]"
proof -
  let ?w = "WriteWALSegment (local_ops [''b'']) ''g'' seg_ex [1, 2] l_ex"
  have t: "segmentKey seg_ex @ ''.tmp'' \<noteq> segmentKey seg_ex" by simp
  have "?w = (None, \<lparr> tree = [([], Dir), ([''b''], Dir), ([''b'', ''g''], Dir), ([''b'', ''g'', ''wal''], Dir),
      ([''b'', ''g'', ''wal'', segmentKey seg_ex], File [1, 2])], faults = [] \<rparr>)" (is "_ = (None, ?s1)")
    by (simp add: local_ops_def local_WriteWALSegment_def Let_def genDir_def os_MkdirAll_def
        next_fault_def l_ex_def node_at_def put_node_def atomicWrite_def os_Create_def io_Copy_def
        tmp_path_def os_Close_def os_Rename_def del_node_def)
  moreover have "is_ok (fst (WALSegments (local_ops [''b'']) ''g'' ?s1))"
    by (simp add: local_ops_def local_WALSegments_def genDir_def os_ReadDir_def next_fault_def
        node_at_def split: prod.splits)
  then obtain l s2 where "WALSegments (local_ops [''b'']) ''g'' ?s1 = (Inr l, s2)"
    using pair_Inr by blast
  ultimately show ?thesis
    using local_segments_contract [OF l_inv_ex seg_ok_ex, of "[''b'']" "''g''" "[1, 2]" None ?s1 l s2]
      seg_ok_ex by (intro exI [of _ l] exI [of _ s2]) auto
qed

end
