(* ===== verification/Backup_Engine.thy ===== *)
theory Backup_Engine
  imports Wal Backend Go_Fmt
begin

text \<open>
  The continuous backup engine (\<open>backupManager\<close> in \<open>backup.go\<close>): shipping committed WAL bytes
  as segments, checkpointing a fully shipped WAL, opening generations with a snapshot, pruning
  old ones, recording errors and paging, and the loop that drives them.

  What is outside the program enters through an \<open>env\<close>, one per call of the engine: the clock
  and the random source, the outcome of each system call, SQLite's TRUNCATE checkpoint, and
  what other connections do to the database files at the points where they can run
  (\<open>e_other\<close>), so that every interleaving of a writer with the engine is a value of \<open>env\<close>.
  The engine holds its mutex during each operation, so operations of the engine itself do not
  interleave.
\<close>

subsection \<open>The database on disk and the environment\<close>

text \<open>
  The files SQLite keeps: the main file and the WAL (\<open>None\<close> when the file does not exist). The
  last two fields are SQLite's own bookkeeping, which the engine never reads: how many bytes of
  the WAL a checkpoint has copied to the main file, and the salts of the WAL cycles so far.
\<close>

record db_files =
  f_main :: bytes
  f_wal :: "bytes option"
  f_backfill :: nat
  f_salts :: "(u32 \<times> u32) list"

record env =
  e_now :: "nat \<Rightarrow> instant"
  e_rand :: bytes
  e_scan :: "error option"
  e_scan_cut :: "nat option"
  e_open :: "error option"
  e_seek :: "error option"
  e_read :: "error option"
  e_readmain :: "error option"
  e_stat :: "error option"
  e_pragma :: "error option"
  e_other :: "nat \<Rightarrow> db_files \<Rightarrow> db_files"
  e_ckpt :: "db_files \<Rightarrow> error option \<times> db_files"

record 'b world =
  w_files :: db_files
  w_backend :: 'b

text \<open>Opening a file that may be missing, when the system call itself may fail.\<close>

definition open_file :: "error option \<Rightarrow> bytes option \<Rightarrow> bytes result" where
  "open_file err f =
     (case err of
        Some e \<Rightarrow> Inl e
      | None \<Rightarrow> (case f of None \<Rightarrow> Inl ErrNotExist | Some d \<Rightarrow> Inr d))"

text \<open>What the scan of the WAL sees: the file as far as it can be read. A read that fails part-way
  ends the scan like the end of the file, whatever the error.\<close>

definition scan_file :: "env \<Rightarrow> bytes option \<Rightarrow> bytes result" where
  "scan_file E f =
     (case open_file (e_scan E) f of
        Inl e \<Rightarrow> Inl e
      | Inr d \<Rightarrow> Inr (case e_scan_cut E of None \<Rightarrow> d | Some k \<Rightarrow> take k d))"

subsection \<open>Configuration and state\<close>

record BackupConfig =
  SyncInterval :: duration
  SnapshotInterval :: duration
  Retention :: duration
  CheckpointThreshold :: int
  AlertAfter :: int

definition backup_applyDefaults :: "BackupConfig \<Rightarrow> BackupConfig" where
  "backup_applyDefaults c =
     (let c = (if SyncInterval c = 0 then c\<lparr>SyncInterval := 1000000000\<rparr> else c);
          c = (if SnapshotInterval c = 0 then c\<lparr>SnapshotInterval := 24 * 3600 * 1000000000\<rparr> else c);
          c = (if Retention c = 0 then c\<lparr>Retention := 30 * 24 * 3600 * 1000000000\<rparr> else c);
          c = (if CheckpointThreshold c = 0 then c\<lparr>CheckpointThreshold := 4 * 2 ^ 20\<rparr> else c);
          c = (if AlertAfter c = 0 then c\<lparr>AlertAfter := 5\<rparr> else c)
      in c)"

record BackupStatus =
  st_DB :: string
  st_Generation :: string
  st_LastSyncAt :: instant
  st_LastSnapshotAt :: instant
  st_WALIndex :: int
  st_WALOffset :: int
  st_LastError :: "error option"
  st_LastErrorAt :: instant

record backupManager =
  b_db :: string
  b_cfg :: BackupConfig
  b_generation :: string
  b_walIndex :: int
  b_walOffset :: nat
  b_salt1 :: u32
  b_salt2 :: u32
  b_status :: BackupStatus
  b_consecErrs :: int

text \<open>\<open>newBackupManager\<close>: \<open>nb\<close> is what \<open>cfg.NewBackend(db)\<close> returned.\<close>

definition newBackupManager ::
  "string \<Rightarrow> BackupConfig \<Rightarrow> 'k result \<Rightarrow> (backupManager \<times> 'k) result" where
  "newBackupManager db cfg nb =
     (case nb of
        Inl e \<Rightarrow> Inl (Wrapped (''colmena: backup backend for '' @ go_quote db) e)
      | Inr backend \<Rightarrow>
          Inr (\<lparr> b_db = db, b_cfg = backup_applyDefaults cfg, b_generation = '''', b_walIndex = 0,
                 b_walOffset = 0, b_salt1 = 0, b_salt2 = 0,
                 b_status = \<lparr> st_DB = db, st_Generation = '''', st_LastSyncAt = zero_time,
                   st_LastSnapshotAt = zero_time, st_WALIndex = 0, st_WALOffset = 0,
                   st_LastError = None, st_LastErrorAt = zero_time \<rparr>,
                 b_consecErrs = 0 \<rparr>, backend))"

subsection \<open>Errors and status\<close>

text \<open>\<open>report\<close> at time \<open>now\<close>: whether \<open>OnError\<close> is called, and the new state.\<close>

definition report :: "instant \<Rightarrow> error option \<Rightarrow> backupManager \<Rightarrow> bool \<times> backupManager" where
  "report now err b =
     (case err of
        None \<Rightarrow> (False, b\<lparr>b_consecErrs := 0\<rparr>)
      | Some e \<Rightarrow>
          let b = b\<lparr>b_status := (b_status b)\<lparr>st_LastError := Some e, st_LastErrorAt := now\<rparr>,
                    b_consecErrs := b_consecErrs b + 1\<rparr>
          in (AlertAfter (b_cfg b) \<le> b_consecErrs b, b))"

definition Status :: "backupManager \<Rightarrow> BackupStatus" where
  "Status b = (b_status b)\<lparr>st_Generation := b_generation b, st_WALIndex := b_walIndex b,
     st_WALOffset := int (b_walOffset b)\<rparr>"

subsection \<open>Checkpoint, sync, snapshot\<close>

text \<open>Other connections run, at the \<open>k\<close>-th point of a call.\<close>

definition others :: "env \<Rightarrow> nat \<Rightarrow> 'b world \<Rightarrow> 'b world" where
  "others E k w = w\<lparr>w_files := e_other E k (w_files w)\<rparr>"

definition wal_nonempty :: "db_files \<Rightarrow> bool" where
  "wal_nonempty f = (case f_wal f of None \<Rightarrow> False | Some d \<Rightarrow> d \<noteq> [])"

definition maybeCheckpoint ::
  "env \<Rightarrow> nat \<Rightarrow> backupManager \<Rightarrow> 'b world \<Rightarrow> error option \<times> backupManager \<times> 'b world" where
  "maybeCheckpoint E committed b w =
     (if int committed < CheckpointThreshold (b_cfg b) \<or> b_walOffset b \<noteq> committed then (None, b, w)
      else
        let w = others E 1 w;
            (err, f) = e_ckpt E (w_files w);
            w = w\<lparr>w_files := f\<rparr> in
        case err of
          Some e \<Rightarrow> (Some (Wrapped ''checkpoint'' e), b, w)
        | None \<Rightarrow>
            let w = others E 2 w in
            if e_stat E = None \<and> wal_nonempty (w_files w) then (None, b, w)
            else (None, b\<lparr>b_walIndex := b_walIndex b + 1, b_walOffset := 0\<rparr>, w))"

text \<open>The two tests at the start of \<open>sync\<close>: a salt change starts a new index, and an index
  that has shipped nothing takes the salts it sees.\<close>

definition track_salts :: "walHeader \<Rightarrow> backupManager \<Rightarrow> backupManager" where
  "track_salts hdr b =
     (let b = (if 0 < b_walOffset b \<and> (h_salt1 hdr \<noteq> b_salt1 b \<or> h_salt2 hdr \<noteq> b_salt2 b)
               then b\<lparr>b_walIndex := b_walIndex b + 1, b_walOffset := 0\<rparr> else b)
      in if b_walOffset b = 0 then b\<lparr>b_salt1 := h_salt1 hdr, b_salt2 := h_salt2 hdr\<rparr> else b)"

text \<open>Reading the byte range \<open>[start, committed)\<close>: open, seek, \<open>io.ReadFull\<close>.\<close>

definition read_range :: "env \<Rightarrow> bytes option \<Rightarrow> nat \<Rightarrow> nat \<Rightarrow> bytes result" where
  "read_range E wal start committed =
     (case open_file (e_open E) wal of
        Inl e \<Rightarrow> Inl (Wrapped ''open wal'' e)
      | Inr d \<Rightarrow>
          (case e_seek E of Some e \<Rightarrow> Inl (Wrapped ''seek wal'' e)
           | None \<Rightarrow>
               (case e_read E of Some e \<Rightarrow> Inl (Wrapped ''read wal'' e)
                | None \<Rightarrow>
                    if length d < committed then Inl (Wrapped ''read wal'' (ErrText ''unexpected EOF''))
                    else Inr (drop start (take committed d)))))"

text \<open>The second half of \<open>sync\<close>: read \<open>[walOffset, committed)\<close>, compress, write the segment.\<close>

definition ship ::
  "codec \<Rightarrow> 'b backend_ops \<Rightarrow> env \<Rightarrow> nat \<Rightarrow> backupManager \<Rightarrow> 'b world \<Rightarrow>
   error option \<times> backupManager \<times> 'b world" where
  "ship cd bk E committed b w =
     (let start = b_walOffset b in
      case read_range E (f_wal (w_files w)) start committed of
        Inl e \<Rightarrow> (Some e, b, w)
      | Inr dat \<Rightarrow>
          let seg = \<lparr> s_Index = b_walIndex b, s_Offset = int start, s_Size = 0,
                      s_CreatedAt = e_now E 0 \<rparr> in
          (case gzipBytes cd dat of
             Inl e \<Rightarrow> (Some e, b, w)
           | Inr (gz, sz) \<Rightarrow>
               let seg = seg\<lparr>s_Size := sz\<rparr> in
               case WriteWALSegment bk (b_generation b) seg gz (w_backend w) of
                 (Some e, st) \<Rightarrow> (Some (Wrapped ''write segment'' e), b, w\<lparr>w_backend := st\<rparr>)
               | (None, st) \<Rightarrow>
                   let w = w\<lparr>w_backend := st\<rparr>;
                       b = b\<lparr>b_walOffset := committed,
                             b_status := (b_status b)\<lparr>st_LastSyncAt := e_now E 1\<rparr>\<rparr>
                   in maybeCheckpoint E committed b w))"

definition sync ::
  "codec \<Rightarrow> 'b backend_ops \<Rightarrow> env \<Rightarrow> backupManager \<Rightarrow> 'b world \<Rightarrow>
   error option \<times> backupManager \<times> 'b world" where
  "sync cd bk E b w =
     (if b_generation b = '''' then (None, b, w)
      else
        case walCommittedSize (scan_file E (f_wal (w_files w))) of
          Inl err \<Rightarrow>
            if is_not_exist err then (None, b, w) else (Some (Wrapped ''scan wal'' err), b, w)
        | Inr (hdr, committed) \<Rightarrow>
            let b = track_salts hdr b in
            if committed \<le> b_walOffset b then maybeCheckpoint E committed b w
            else ship cd bk E committed b (others E 0 w))"

text \<open>The generations \<open>pruneLocked\<close> deletes, and the calls it makes; its errors are logged.\<close>

definition prunable :: "backupManager \<Rightarrow> instant \<Rightarrow> Generation \<Rightarrow> bool" where
  "prunable b cutoff g \<longleftrightarrow> \<not> (g_ID g = b_generation b \<or> \<not> g_CreatedAt g < cutoff)"

fun prune_each :: "'b backend_ops \<Rightarrow> backupManager \<Rightarrow> instant \<Rightarrow> Generation list \<Rightarrow> 'b \<Rightarrow> 'b" where
  "prune_each bk b cutoff [] st = st"
| "prune_each bk b cutoff (g # gs) st =
     prune_each bk b cutoff gs
       (if prunable b cutoff g then snd (DeleteGeneration bk (g_ID g) st) else st)"

definition pruneLocked :: "'b backend_ops \<Rightarrow> instant \<Rightarrow> backupManager \<Rightarrow> 'b \<Rightarrow> 'b" where
  "pruneLocked bk now b st =
     (if Retention (b_cfg b) \<le> 0 then st
      else case Generations bk st of
             (Inl _, st) \<Rightarrow> st
           | (Inr gens, st) \<Rightarrow> prune_each bk b (now - Retention (b_cfg b)) gens st)"

definition takeSnapshot ::
  "codec \<Rightarrow> 'b backend_ops \<Rightarrow> env \<Rightarrow> backupManager \<Rightarrow> 'b world \<Rightarrow>
   error option \<times> backupManager \<times> 'b world" where
  "takeSnapshot cd bk E b w =
     (let w = others E 0 w;
          w = w\<lparr>w_files := snd (e_ckpt E (w_files w))\<rparr>;
          w = others E 1 w in
      case open_file (e_readmain E) (Some (f_main (w_files w))) of
        Inl e \<Rightarrow> (Some (Wrapped ''read snapshot'' e), b, w)
      | Inr raw \<Rightarrow>
          (case gzipBytes cd raw of
             Inl e \<Rightarrow> (Some e, b, w)
           | Inr (gz, sz) \<Rightarrow>
               let gen = NewGenerationID (e_now E 0) (e_rand E) in
               case WriteSnapshot bk gen gz (w_backend w) of
                 (Some e, st) \<Rightarrow> (Some (Wrapped ''write snapshot'' e), b, w\<lparr>w_backend := st\<rparr>)
               | (None, st) \<Rightarrow>
                   let b = b\<lparr>b_generation := gen, b_walIndex := 0, b_walOffset := 0,
                             b_salt1 := 0, b_salt2 := 0,
                             b_status := (b_status b)\<lparr>st_LastSnapshotAt := e_now E 1\<rparr>\<rparr>
                   in (None, b, w\<lparr>w_backend := pruneLocked bk (e_now E 2) b st\<rparr>)))"

subsection \<open>The loop\<close>

text \<open>What \<open>run\<close> selects on; the second component says whether the loop goes on, the first
  whether \<open>OnError\<close> was called.\<close>

datatype run_event = SyncTick | SnapTick | StopReq

definition run_op ::
  "codec \<Rightarrow> 'b backend_ops \<Rightarrow> env \<Rightarrow> run_event \<Rightarrow> backupManager \<Rightarrow> 'b world \<Rightarrow>
   error option \<times> backupManager \<times> 'b world" where
  "run_op cd bk E ev b w =
     (case ev of
        SyncTick \<Rightarrow> if b_generation b = '''' then takeSnapshot cd bk E b w else sync cd bk E b w
      | SnapTick \<Rightarrow> takeSnapshot cd bk E b w
      | StopReq \<Rightarrow> sync cd bk E b w)"

definition run_step ::
  "codec \<Rightarrow> 'b backend_ops \<Rightarrow> env \<Rightarrow> run_event \<Rightarrow> backupManager \<Rightarrow> 'b world \<Rightarrow>
   bool \<times> bool \<times> backupManager \<times> 'b world" where
  "run_step cd bk E ev b w =
     (case run_op cd bk E ev b w of
        (err, b, w) \<Rightarrow> (case report (e_now E 3) err b of (page, b) \<Rightarrow> (page, ev \<noteq> StopReq, b, w)))"

text \<open>\<open>start\<close>: a failing pragma fails the start, a failing snapshot is only reported.\<close>

definition backup_start ::
  "codec \<Rightarrow> 'b backend_ops \<Rightarrow> env \<Rightarrow> backupManager \<Rightarrow> 'b world \<Rightarrow>
   (bool \<times> backupManager \<times> 'b world) result" where
  "backup_start cd bk E b w =
     (case e_pragma E of
        Some e \<Rightarrow> Inl (Wrapped ''colmena: disable auto-checkpoint'' e)
      | None \<Rightarrow>
          (case takeSnapshot cd bk E b w of
             (Some e, b, w) \<Rightarrow>
               (case report (e_now E 3) (Some (Wrapped ''initial snapshot (will retry)'' e)) b of
                  (page, b) \<Rightarrow> Inr (page, b, w))
           | (None, b, w) \<Rightarrow> Inr (False, b, w)))"

text \<open>The loop over a sequence of selected events, until a stop.\<close>

fun run_loop ::
  "codec \<Rightarrow> 'b backend_ops \<Rightarrow> (env \<times> run_event) list \<Rightarrow> backupManager \<Rightarrow> 'b world \<Rightarrow>
   bool list \<times> backupManager \<times> 'b world" where
  "run_loop cd bk [] b w = ([], b, w)"
| "run_loop cd bk ((E, ev) # evs) b w =
     (case run_step cd bk E ev b w of
        (page, goes_on, b, w) \<Rightarrow>
          if goes_on then
            (case run_loop cd bk evs b w of (pages, b, w) \<Rightarrow> (page # pages, b, w))
          else ([page], b, w))"

subsection \<open>A sequence of reports\<close>

text \<open>Whether each one pages, and how many of the last ones are errors.\<close>

fun reports :: "(instant \<times> error option) list \<Rightarrow> backupManager \<Rightarrow> bool list \<times> backupManager" where
  "reports [] b = ([], b)"
| "reports ((t, e) # es) b =
     (case report t e b of (page, b) \<Rightarrow> case reports es b of (pages, b) \<Rightarrow> (page # pages, b))"

definition failing :: "(instant \<times> error option) list \<Rightarrow> nat" where
  "failing es = length (takeWhile (\<lambda>x. snd x \<noteq> None) (rev es))"

lemma reports_snoc:
  "reports (es @ [(t, e)]) b =
     (fst (reports es b) @ [fst (report t e (snd (reports es b)))], snd (report t e (snd (reports es b))))"
  by (induction es arbitrary: b) (auto simp: split_def)

lemma reports_state:
  "b_consecErrs b = 0 \<Longrightarrow> b_consecErrs (snd (reports es b)) = int (failing es) \<and>
     b_cfg (snd (reports es b)) = b_cfg b \<and>
     st_LastError (b_status (snd (reports es b))) =
       (case filter (\<lambda>x. snd x \<noteq> None) (rev es) of [] \<Rightarrow> st_LastError (b_status b) | x # _ \<Rightarrow> snd x)"
proof (induction es rule: rev_induct)
  case (snoc x es)
  obtain t e where x: "x = (t, e)" by fastforce
  show ?case
    using snoc by (cases e) (simp_all add: x reports_snoc report_def failing_def Let_def)
qed (simp add: failing_def)

lemma reports_length: "length (fst (reports es b)) = length es"
  by (induction es arbitrary: b) (auto simp: split_def)

end
