(* ===== verification/Restore.thy ===== *)
theory Restore
  imports Local_Backend
begin

text \<open>
  Restore (\<open>Restore\<close>, \<open>applyWALIndex\<close>, \<open>writeGunzipped\<close>, \<open>verifySQLite\<close> in \<open>backup.go\<close>): pick a
  generation, lay its snapshot down, replay the segments recorded up to the requested moment
  one WAL cycle at a time, verify. The target files live in the file system of \<open>File_System\<close>
  (any call may fail there), the backend is any \<open>backend_ops\<close>, SQLite a record of its calls.

  The specification is \<open>replay\<close>: what the main file must be after replaying a list of segments
  over a snapshot. A restore that reports success is proved to leave exactly that.
\<close>

subsection \<open>SQLite as restore uses it\<close>

record sqlite_ops =
  sq_open :: "path \<Rightarrow> fs \<Rightarrow> error option \<times> fs"
  sq_user_version :: "path \<Rightarrow> fs \<Rightarrow> error option \<times> fs"
  sq_checkpoint :: "path \<Rightarrow> fs \<Rightarrow> error option \<times> fs"
  sq_close :: "path \<Rightarrow> fs \<Rightarrow> error option \<times> fs"
  sq_open_ro :: "path \<Rightarrow> fs \<Rightarrow> error option \<times> fs"
  sq_integrity :: "path \<Rightarrow> fs \<Rightarrow> string result \<times> fs"

definition with_suffix :: "path \<Rightarrow> string \<Rightarrow> path" where
  "with_suffix p x = butlast p @ [last p @ x]"

text \<open>The database part of \<open>applyWALIndex\<close>: open, a query that forces WAL recovery, a TRUNCATE
  checkpoint, close.\<close>

definition open_and_checkpoint :: "sqlite_ops \<Rightarrow> path \<Rightarrow> fs \<Rightarrow> error option \<times> fs" where
  "open_and_checkpoint q dbPath s =
     (case sq_open q dbPath s of
        (Some e, s) \<Rightarrow> (Some e, s)
      | (None, s) \<Rightarrow>
          (case sq_user_version q dbPath s of
             (Some e, s) \<Rightarrow> (Some e, snd (sq_close q dbPath s))
           | (None, s) \<Rightarrow>
               (case sq_checkpoint q dbPath s of
                  (Some e, s) \<Rightarrow> (Some e, snd (sq_close q dbPath s))
                | (None, s) \<Rightarrow> sq_close q dbPath s)))"

definition verifySQLite :: "sqlite_ops \<Rightarrow> path \<Rightarrow> fs \<Rightarrow> error option \<times> fs" where
  "verifySQLite q dbPath s =
     (case sq_open_ro q dbPath s of
        (Some e, s) \<Rightarrow> (Some e, s)
      | (None, s) \<Rightarrow>
          (case sq_integrity q dbPath s of
             (Inl e, s) \<Rightarrow> (Some e, snd (sq_close q dbPath s))
           | (Inr res, s) \<Rightarrow>
               (let s = snd (sq_close q dbPath s) in
                if res \<noteq> ''ok'' then (Some (ErrText (''integrity_check: '' @ res)), s) else (None, s))))"

text \<open>
  What restore relies on. \<open>fw m w\<close> is the main file a checkpoint makes of main file \<open>m\<close> and WAL
  \<open>w\<close>: recovery finds the committed frames of the WAL beside the database, the checkpoint copies
  them, and the close ends it. Verification is read-only.
\<close>

definition sqlite_ok :: "(bytes \<Rightarrow> bytes \<Rightarrow> bytes) \<Rightarrow> sqlite_ops \<Rightarrow> bool" where
  "sqlite_ok fw q \<longleftrightarrow>
     (\<forall>p s s' m w. fs_wf s \<longrightarrow> p \<noteq> [] \<longrightarrow> node_at s p = Some (File m) \<longrightarrow>
        node_at s (with_suffix p ''-wal'') = Some (File w) \<longrightarrow>
        open_and_checkpoint q p s = (None, s') \<longrightarrow>
        fs_wf s' \<and> node_at s' p = Some (File (fw m w))) \<and>
     (\<forall>p s. node_at (snd (verifySQLite q p s)) p = node_at s p)"

subsection \<open>The code\<close>

definition writeGunzipped :: "codec \<Rightarrow> path \<Rightarrow> bytes \<Rightarrow> fs \<Rightarrow> error option \<times> fs" where
  "writeGunzipped cd path r s =
     (case gzip_header cd r of
        Some e \<Rightarrow> (Some e, s)
      | None \<Rightarrow>
          (case os_Create path s of
             (Some e, s) \<Rightarrow> (Some e, s)
           | (None, s) \<Rightarrow>
               (let (d, rerr) = gzip_stream cd r;
                    (werr, s) = io_Copy path d s in
                case (werr, rerr) of
                  (Some e, _) \<Rightarrow> (Some e, snd (os_Close s))
                | (None, Some e) \<Rightarrow> (Some e, snd (os_Close s))
                | (None, None) \<Rightarrow> os_Close s)))"

text \<open>The loop of \<open>applyWALIndex\<close>: bytes written, or the error it stops with.\<close>

fun copy_segments ::
  "codec \<Rightarrow> 'b backend_ops \<Rightarrow> string \<Rightarrow> path \<Rightarrow> WALSegmentInfo list \<Rightarrow> nat \<Rightarrow> fs \<Rightarrow> 'b \<Rightarrow>
   nat result \<times> fs \<times> 'b" where
  "copy_segments cd bk gen walPath [] written s b = (Inr written, s, b)"
| "copy_segments cd bk gen walPath (sg # segs) written s b =
     (if s_Offset sg \<noteq> int written then (Inr written, s, b)
      else
        case ReadWALSegment bk gen sg b of
          (Inl e, b) \<Rightarrow> (Inl e, s, b)
        | (Inr rc, b) \<Rightarrow>
            (case gzip_header cd rc of
               Some e \<Rightarrow> (Inl e, s, b)
             | None \<Rightarrow>
                 (let (d, rerr) = gzip_stream cd rc;
                      (werr, s) = io_Copy walPath d s in
                  case (werr, rerr) of
                    (Some e, _) \<Rightarrow> (Inl e, s, b)
                  | (None, Some e) \<Rightarrow> (Inl e, s, b)
                  | (None, None) \<Rightarrow>
                      copy_segments cd bk gen walPath segs (written + length d) s b)))"

definition applyWALIndex ::
  "codec \<Rightarrow> 'b backend_ops \<Rightarrow> sqlite_ops \<Rightarrow> string \<Rightarrow> path \<Rightarrow> WALSegmentInfo list \<Rightarrow> fs \<Rightarrow> 'b \<Rightarrow>
   error option \<times> fs \<times> 'b" where
  "applyWALIndex cd bk q gen dbPath segs s b =
     (case segs of
        [] \<Rightarrow> (None, s, b)
      | s0 # _ \<Rightarrow>
          if s_Offset s0 \<noteq> 0 then (None, s, b)
          else
            let walPath = with_suffix dbPath ''-wal'' in
            case os_Create walPath s of
              (Some e, s) \<Rightarrow> (Some e, s, b)
            | (None, s) \<Rightarrow>
                (case copy_segments cd bk gen walPath segs 0 s b of
                   (Inl e, s, b) \<Rightarrow> (Some e, snd (os_Close s), b)
                 | (Inr written, s, b) \<Rightarrow>
                     (case os_Close s of
                        (Some e, s) \<Rightarrow> (Some e, s, b)
                      | (None, s) \<Rightarrow>
                          if written = 0 then (None, snd (os_Remove walPath s), b)
                          else
                            case open_and_checkpoint q dbPath s of
                              (Some e, s) \<Rightarrow> (Some e, s, b)
                            | (None, s) \<Rightarrow>
                                (let s = snd (os_Remove walPath s);
                                     s = snd (os_Remove (with_suffix dbPath ''-shm'') s)
                                 in (None, s, b)))))"

record RestoreOptions =
  ro_DB :: string
  ro_Timestamp :: instant

text \<open>The generation chosen from the sorted list, and the segments kept.\<close>

definition gen_at :: "instant \<Rightarrow> Generation \<Rightarrow> bool" where
  "gen_at ts g \<longleftrightarrow> ts = zero_time \<or> \<not> ts < g_CreatedAt g"

definition seg_at :: "instant \<Rightarrow> WALSegmentInfo \<Rightarrow> bool" where
  "seg_at ts sg \<longleftrightarrow> \<not> (ts \<noteq> zero_time \<and> ts < s_CreatedAt sg)"

text \<open>The grouping loop: the map \<open>byIndex\<close> and the slice \<open>indexes\<close>.\<close>

fun group_segs ::
  "instant \<Rightarrow> WALSegmentInfo list \<Rightarrow> (int \<Rightarrow> WALSegmentInfo list option) \<times> int list \<Rightarrow>
   (int \<Rightarrow> WALSegmentInfo list option) \<times> int list" where
  "group_segs ts [] acc = acc"
| "group_segs ts (sg # segs) (byIndex, indexes) =
     (if \<not> seg_at ts sg then group_segs ts segs (byIndex, indexes)
      else
        let i = s_Index sg;
            indexes' = (if byIndex i = None then indexes @ [i] else indexes);
            old = (case byIndex i of None \<Rightarrow> [] | Some l \<Rightarrow> l)
        in group_segs ts segs (byIndex(i := Some (old @ [sg])), indexes'))"

fun apply_indexes ::
  "codec \<Rightarrow> 'b backend_ops \<Rightarrow> sqlite_ops \<Rightarrow> string \<Rightarrow> path \<Rightarrow> (int \<Rightarrow> WALSegmentInfo list option) \<Rightarrow>
   int list \<Rightarrow> fs \<Rightarrow> 'b \<Rightarrow> error option \<times> fs \<times> 'b" where
  "apply_indexes cd bk q gen dbPath byIndex [] s b = (None, s, b)"
| "apply_indexes cd bk q gen dbPath byIndex (i # is) s b =
     (case applyWALIndex cd bk q gen dbPath (case byIndex i of None \<Rightarrow> [] | Some l \<Rightarrow> l) s b of
        (Some e, s, b) \<Rightarrow> (Some (Wrapped ''colmena: apply wal index'' e), s, b)
      | (None, s, b) \<Rightarrow> apply_indexes cd bk q gen dbPath byIndex is s b)"

text \<open>The part after the choice of the generation: remove, lay down, roll forward, verify.\<close>

definition restore_generation ::
  "codec \<Rightarrow> 'b backend_ops \<Rightarrow> sqlite_ops \<Rightarrow> instant \<Rightarrow> string \<Rightarrow> path \<Rightarrow> fs \<Rightarrow> 'b \<Rightarrow>
   error option \<times> fs \<times> 'b" where
  "restore_generation cd bk q ts gen dbPath s b =
     (let s = snd (os_Remove dbPath s);
          s = snd (os_Remove (with_suffix dbPath ''-wal'') s);
          s = snd (os_Remove (with_suffix dbPath ''-shm'') s) in
      case ReadSnapshot bk gen b of
        (Inl e, b) \<Rightarrow> (Some (Wrapped ''colmena: read snapshot'' e), s, b)
      | (Inr snap, b) \<Rightarrow>
          (case writeGunzipped cd dbPath snap s of
             (Some e, s) \<Rightarrow> (Some (Wrapped ''colmena: write snapshot'' e), s, b)
           | (None, s) \<Rightarrow>
               (case WALSegments bk gen b of
                  (Inl e, b) \<Rightarrow> (Some (Wrapped ''colmena: list segments'' e), s, b)
                | (Inr segs, b) \<Rightarrow>
                    (case group_segs ts (go_sort seg_lt segs) (\<lambda>_. None, []) of
                       (byIndex, indexes) \<Rightarrow>
                         (case apply_indexes cd bk q gen dbPath byIndex (go_sort (<) indexes) s b of
                            (Some e, s, b) \<Rightarrow> (Some e, s, b)
                          | (None, s, b) \<Rightarrow>
                              (case verifySQLite q dbPath s of
                                 (Some e, s) \<Rightarrow>
                                   (Some (Wrapped ''colmena: restored db failed verification'' e), s, b)
                               | (None, s) \<Rightarrow> (None, s, b)))))))"

definition Restore ::
  "codec \<Rightarrow> 'b backend_ops \<Rightarrow> sqlite_ops \<Rightarrow> path \<Rightarrow> RestoreOptions list \<Rightarrow> fs \<Rightarrow> 'b \<Rightarrow>
   error option \<times> fs \<times> 'b" where
  "Restore cd bk q dataDir opts s b =
     (let opt = (case opts of [] \<Rightarrow> \<lparr> ro_DB = '''', ro_Timestamp = zero_time \<rparr> | opt # _ \<Rightarrow> opt);
          opt = (if ro_DB opt = '''' then opt\<lparr>ro_DB := ''default''\<rparr> else opt);
          ts = ro_Timestamp opt in
      case os_MkdirAll dataDir s of
        (Some e, s) \<Rightarrow> (Some (Wrapped ''colmena: create data dir'' e), s, b)
      | (None, s) \<Rightarrow>
          (let dbPath = dataDir @ [ro_DB opt @ ''.db''] in
           case Generations bk b of
             (Inl e, b) \<Rightarrow> (Some (Wrapped ''colmena: list generations'' e), s, b)
           | (Inr gens, b) \<Rightarrow>
               if gens = [] then (Some (ErrText ''colmena: no backups found''), s, b)
               else
                 case find (gen_at ts) (go_sort gen_lt gens) of
                   None \<Rightarrow> (Some (ErrText ''colmena: no generation at or before''), s, b)
                 | Some g \<Rightarrow> restore_generation cd bk q ts (g_ID g) dbPath s b))"

subsection \<open>The specification\<close>

text \<open>The data of the contiguous prefix of segments from offset \<open>n\<close> on.\<close>

fun contig :: "nat \<Rightarrow> (WALSegmentInfo \<times> bytes) list \<Rightarrow> bytes" where
  "contig n [] = []"
| "contig n ((sg, d) # r) = (if s_Offset sg = int n then d @ contig (n + length d) r else [])"

definition replay_index ::
  "(bytes \<Rightarrow> bytes \<Rightarrow> bytes) \<Rightarrow> (WALSegmentInfo \<times> bytes) list \<Rightarrow> bytes \<Rightarrow> bytes" where
  "replay_index fw l m = (let w = contig 0 l in if w = [] then m else fw m w)"

definition of_index :: "int \<Rightarrow> (WALSegmentInfo \<times> bytes) list \<Rightarrow> (WALSegmentInfo \<times> bytes) list" where
  "of_index i l = filter (\<lambda>x. s_Index (fst x) = i) l"

definition replay ::
  "(bytes \<Rightarrow> bytes \<Rightarrow> bytes) \<Rightarrow> (WALSegmentInfo \<times> bytes) list \<Rightarrow> bytes \<Rightarrow> bytes" where
  "replay fw l m =
     foldl (\<lambda>m i. replay_index fw (of_index i l) m) m (sort (remdups (map (s_Index \<circ> fst) l)))"

text \<open>The data stored under a segment's name, and what a listing of such objects is.\<close>

definition seg_data :: "codec \<Rightarrow> (string \<Rightarrow> bytes option) \<Rightarrow> WALSegmentInfo \<Rightarrow> bytes" where
  "seg_data cd objs sg =
     (case objs (segmentKey sg) of
        None \<Rightarrow> []
      | Some z \<Rightarrow> (case gzip_read cd z of Inl _ \<Rightarrow> [] | Inr d \<Rightarrow> d))"

definition with_data ::
  "codec \<Rightarrow> (string \<Rightarrow> bytes option) \<Rightarrow> WALSegmentInfo list \<Rightarrow> (WALSegmentInfo \<times> bytes) list" where
  "with_data cd objs l = map (\<lambda>sg. (sg, seg_data cd objs sg)) l"

definition lists_segs :: "(string \<Rightarrow> bytes option) \<Rightarrow> WALSegmentInfo list \<Rightarrow> bool" where
  "lists_segs objs l \<longleftrightarrow> sorted (map seg_key l) \<and> distinct (map segmentKey l) \<and>
     (\<forall>x \<in> set l. seg_ok x) \<and>
     (\<forall>s. seg_ok s \<longrightarrow> (segmentKey s \<in> segmentKey ` set l) = (objs (segmentKey s) \<noteq> None))"

subsection \<open>Grouping\<close>

interpretation int_order: keyed_lt "(<) :: int \<Rightarrow> int \<Rightarrow> bool" "\<lambda>i. i"
  by unfold_locales simp

definition seg_list :: "(int \<Rightarrow> WALSegmentInfo list option) \<Rightarrow> int \<Rightarrow> WALSegmentInfo list" where
  "seg_list f i = (case f i of None \<Rightarrow> [] | Some l \<Rightarrow> l)"

lemma group_segs_spec:
  assumes "group_segs ts segs (f, is) = (f', is')" and "dom f = set is" and "distinct is"
  shows "seg_list f' i = seg_list f i @ filter (\<lambda>x. s_Index x = i) (filter (seg_at ts) segs) \<and>
    distinct is' \<and> set is' = set is \<union> s_Index ` set (filter (seg_at ts) segs)"
  using assms
proof (induction segs arbitrary: f "is")
  case (Cons sg segs)
  show ?case
  proof (cases "seg_at ts sg")
    case True
    define f1 where "f1 = f(s_Index sg \<mapsto> seg_list f (s_Index sg) @ [sg])"
    define is1 where "is1 = (if f (s_Index sg) = None then is @ [s_Index sg] else is)"
    have g: "group_segs ts segs (f1, is1) = (f', is')"
      using Cons.prems(1) True by (simp add: f1_def is1_def seg_list_def Let_def)
    have iff: "f (s_Index sg) = None \<longleftrightarrow> s_Index sg \<notin> set is" using Cons.prems(2) by auto
    have s1: "set is1 = insert (s_Index sg) (set is)" using iff by (auto simp: is1_def)
    have "dom f1 = set is1" using s1 Cons.prems(2) by (simp add: f1_def)
    moreover have "distinct is1" using Cons.prems(3) iff by (simp add: is1_def)
    moreover have "seg_list f1 i = seg_list f i @ (if s_Index sg = i then [sg] else [])"
      by (simp add: f1_def seg_list_def)
    ultimately show ?thesis
      using Cons.IH [OF g] True s1 by simp
  next
    case False
    then have "group_segs ts segs (f, is) = (f', is')" using Cons.prems(1) by simp
    then show ?thesis using Cons.IH [OF _ Cons.prems(2,3)] False by simp
  qed
qed simp

lemma group_segs_result:
  assumes "group_segs ts segs (\<lambda>_. None, []) = (f, is)"
  shows "seg_list f i = filter (\<lambda>x. s_Index x = i) (filter (seg_at ts) segs)"
    and "go_sort (<) is = sort (remdups (map s_Index (filter (seg_at ts) segs)))"
proof -
  note g = group_segs_spec [OF assms]
  show "seg_list f i = filter (\<lambda>x. s_Index x = i) (filter (seg_at ts) segs)"
    using g by (simp add: seg_list_def dom_def)
  have d: "distinct is" and s: "set is = set (remdups (map s_Index (filter (seg_at ts) segs)))"
    using g [of 0] by auto
  have "mset is = mset (remdups (map s_Index (filter (seg_at ts) segs)))"
    using set_eq_iff_mset_eq_distinct [OF d distinct_remdups] s by (rule iffD1)
  then show "go_sort (<) is = sort (remdups (map s_Index (filter (seg_at ts) segs)))"
    by (intro int_order.go_sort_unique) simp_all
qed

subsection \<open>The code meets it\<close>

lemma with_suffix_neq [simp]: "p \<noteq> [] \<Longrightarrow> x \<noteq> [] \<Longrightarrow> with_suffix p x \<noteq> p"
proof
  assume "p \<noteq> []" "x \<noteq> []" "with_suffix p x = p"
  then have "last (with_suffix p x) = last p" by simp
  with \<open>x \<noteq> []\<close> show False by (simp add: with_suffix_def)
qed

lemma with_suffix_neq' [simp]: "p \<noteq> [] \<Longrightarrow> x \<noteq> [] \<Longrightarrow> p \<noteq> with_suffix p x"
  by (rule not_sym) simp

lemma with_suffix_not_Nil [simp]: "with_suffix p x \<noteq> []"
  by (simp add: with_suffix_def)

lemma seg_data_read:
  assumes "objs (segmentKey sg) = Some rc" and "gzip_header cd rc = None"
    and "gzip_stream cd rc = (d, None)"
  shows "seg_data cd objs sg = d"
  using assms by (simp add: seg_data_def gzip_read_def)

text \<open>One segment copied, in one equation.\<close>

lemma copy_segments_Cons_ok:
  assumes "copy_segments cd bk gen p (sg # segs) n s b = (Inr k, s', b')" and "s_Offset sg = int n"
  obtains rc b1 d s1 where "ReadWALSegment bk gen sg b = (Inr rc, b1)" "gzip_header cd rc = None"
    "gzip_stream cd rc = (d, None)" "io_Copy p d s = (None, s1)"
    "copy_segments cd bk gen p segs (n + length d) s1 b1 = (Inr k, s', b')"
proof -
  obtain r b1 where r: "ReadWALSegment bk gen sg b = (r, b1)" by fastforce
  then obtain rc where rc: "r = Inr rc" using assms by (cases r) simp_all
  have h: "gzip_header cd rc = None" using assms r rc by (cases "gzip_header cd rc") simp_all
  obtain d re where d: "gzip_stream cd rc = (d, re)" by fastforce
  obtain we s1 where w: "io_Copy p d s = (we, s1)" by fastforce
  have "we = None" "re = None"
    using assms r rc h d w by (cases we; cases re; simp)+
  then show thesis using that assms r rc h d w by simp
qed

lemma writeGunzipped_ok:
  assumes "writeGunzipped cd p z s = (None, s')" and "p \<noteq> []"
  shows "\<exists>d. gzip_read cd z = Inr d \<and> node_at s' p = Some (File d) \<and> touches p s s'"
proof -
  have h: "gzip_header cd z = None" using assms by (cases "gzip_header cd z") (simp_all add: writeGunzipped_def)
  obtain e1 s1 where c: "os_Create p s = (e1, s1)" by fastforce
  obtain d re where d: "gzip_stream cd z = (d, re)" by fastforce
  obtain we s2 where w: "io_Copy p d s1 = (we, s2)" by fastforce
  obtain e3 s3 where l: "os_Close s2 = (e3, s3)" by fastforce
  have e1: "e1 = None" using assms(1) h c by (cases e1) (simp_all add: writeGunzipped_def)
  then have "we = None \<and> re = None \<and> e3 = None \<and> s' = s3"
    using assms(1) h c d w l by (cases we; cases re) (simp_all add: writeGunzipped_def)
  moreover have C: "touches p s s1" "node_at s1 p = Some (File [])"
    using Create_touches [OF c assms(2)] e1 by simp_all
  moreover note Copy_touches [OF w C(2) assms(2)] Close_touches [OF l, of p]
  ultimately show ?thesis
    using h d by (auto simp: gzip_read_def intro: touches_trans)
qed

text \<open>The requested moment and the database name, with their defaults.\<close>

definition opt_ts :: "RestoreOptions list \<Rightarrow> instant" where
  "opt_ts opts = (case opts of [] \<Rightarrow> zero_time | opt # _ \<Rightarrow> ro_Timestamp opt)"

definition opt_db :: "RestoreOptions list \<Rightarrow> string" where
  "opt_db opts = (case opts of [] \<Rightarrow> ''default''
     | opt # _ \<Rightarrow> if ro_DB opt = '''' then ''default'' else ro_DB opt)"

lemma restore_opts:
  "ro_Timestamp
     (if ro_DB (case opts of [] \<Rightarrow> \<lparr>ro_DB = '''', ro_Timestamp = zero_time\<rparr> | opt # _ \<Rightarrow> opt) = ''''
      then (case opts of [] \<Rightarrow> \<lparr>ro_DB = '''', ro_Timestamp = zero_time\<rparr> | opt # _ \<Rightarrow> opt)
             \<lparr>ro_DB := ''default''\<rparr>
      else (case opts of [] \<Rightarrow> \<lparr>ro_DB = '''', ro_Timestamp = zero_time\<rparr> | opt # _ \<Rightarrow> opt)) = opt_ts opts"
  "ro_DB
     (if ro_DB (case opts of [] \<Rightarrow> \<lparr>ro_DB = '''', ro_Timestamp = zero_time\<rparr> | opt # _ \<Rightarrow> opt) = ''''
      then (case opts of [] \<Rightarrow> \<lparr>ro_DB = '''', ro_Timestamp = zero_time\<rparr> | opt # _ \<Rightarrow> opt)
             \<lparr>ro_DB := ''default''\<rparr>
      else (case opts of [] \<Rightarrow> \<lparr>ro_DB = '''', ro_Timestamp = zero_time\<rparr> | opt # _ \<Rightarrow> opt)) = opt_db opts"
  by (cases opts; simp add: opt_ts_def opt_db_def)+

context backup_backend
begin

lemma copy_segments_ok:
  assumes "copy_segments cd bk gen p segs n s b = (Inr k, s', b')"
    and "invar b" and "\<forall>sg \<in> set segs. seg_ok sg"
    and "node_at s p = Some (File c)" and "length c = n" and "p \<noteq> []"
  shows "invar b' \<and> snap b' = snap b \<and> seg b' = seg b \<and> touches p s s' \<and>
    node_at s' p = Some (File (c @ contig n (with_data cd (seg b gen) segs))) \<and>
    k = length c + length (contig n (with_data cd (seg b gen) segs))"
  using assms
proof (induction segs arbitrary: n s b c)
  case Nil
  then show ?case by (auto simp: with_data_def)
next
  case (Cons sg segs)
  show ?case
  proof (cases "s_Offset sg = int n")
    case False
    then show ?thesis using Cons.prems by (auto simp: with_data_def)
  next
    case True
    from copy_segments_Cons_ok [OF Cons.prems(1) True] obtain rc b1 d s1 where
      r: "ReadWALSegment bk gen sg b = (Inr rc, b1)" and z: "gzip_header cd rc = None"
      "gzip_stream cd rc = (d, None)" and w: "io_Copy p d s = (None, s1)"
      and t: "copy_segments cd bk gen p segs (n + length d) s1 b1 = (Inr k, s', b')" by blast
    have R: "invar b1" "snap b1 = snap b" "seg b1 = seg b" "seg b gen (segmentKey sg) = Some rc"
      using read_segment [OF Cons.prems(2) r] Cons.prems(3) by simp_all
    have d: "seg_data cd (seg b gen) sg = d" using R(4) z by (rule seg_data_read)
    have W: "touches p s s1" "node_at s1 p = Some (File (c @ d))"
      using Copy_touches [OF w Cons.prems(4,6)] by simp_all
    have l: "length (c @ d) = n + length d" "\<forall>sg \<in> set segs. seg_ok sg"
      using Cons.prems(3,5) by simp_all
    note IH = Cons.IH [OF t R(1) l(2) W(2) l(1) Cons.prems(6)]
    have e: "contig n (with_data cd (seg b gen) (sg # segs)) =
        d @ contig (n + length d) (with_data cd (seg b gen) segs)"
      using True d by (simp add: with_data_def)
    show ?thesis using IH R(2,3) touches_trans [OF W(1)] unfolding e by auto
  qed
qed

lemma applyWALIndex_ok:
  assumes "applyWALIndex cd bk q gen p segs s b = (None, s', b')"
    and "invar b" and "\<forall>sg \<in> set segs. seg_ok sg" and "sqlite_ok fw q" and "fs_wf s"
    and "node_at s p = Some (File m)" and "p \<noteq> []"
  shows "invar b' \<and> snap b' = snap b \<and> seg b' = seg b \<and> fs_wf s' \<and>
    node_at s' p = Some (File (replay_index fw (with_data cd (seg b gen) segs) m))"
proof (cases segs)
  case Nil
  then show ?thesis using assms by (simp add: applyWALIndex_def replay_index_def with_data_def)
next
  case (Cons s0 rest)
  let ?w = "with_suffix p ''-wal''" and ?h = "with_suffix p ''-shm''"
  let ?c = "contig 0 (with_data cd (seg b gen) segs)"
  show ?thesis
  proof (cases "s_Offset s0 = 0")
    case False
    then show ?thesis using assms Cons by (simp add: applyWALIndex_def replay_index_def with_data_def)
  next
    case True
    obtain e1 s1 where c: "os_Create ?w s = (e1, s1)" by fastforce
    obtain r s2 b2 where y: "copy_segments cd bk gen ?w segs 0 s1 b = (r, s2, b2)"
      by (metis prod_cases3)
    obtain e3 s3 where l: "os_Close s2 = (e3, s3)" by fastforce
    have e1: "e1 = None" using assms(1) Cons True c by (cases e1) (simp_all add: applyWALIndex_def Let_def)
    then obtain k where k: "r = Inr k"
      using assms(1) Cons True c y by (cases r) (simp_all add: applyWALIndex_def Let_def)
    have e3: "e3 = None"
      using assms(1) Cons True c y l e1 k by (cases e3) (simp_all add: applyWALIndex_def Let_def)
    have C: "touches ?w s s1" "node_at s1 ?w = Some (File [])"
      using Create_touches [OF c] e1 by simp_all
    have K: "invar b2" "snap b2 = snap b" "seg b2 = seg b" "touches ?w s1 s2"
      "node_at s2 ?w = Some (File ?c)" "k = length ?c"
      using copy_segments_ok [OF y [unfolded k] assms(2,3) C(2)] by simp_all
    have L: "touches ?w s s3" "node_at s3 ?w = Some (File ?c)"
      using Close_touches [OF l, of ?w] K(4,5) C(1) by (auto intro: touches_trans)
    have wf3: "fs_wf s3" and m3: "node_at s3 p = Some (File m)"
      using L(1) assms(5-7) by (simp_all add: touches_def)
    have rm: "touches x t (snd (os_Remove x t))" for x t
      using Remove_touches [of x t] by (cases "os_Remove x t") simp
    show ?thesis
    proof (cases "?c = []")
      case True
      then have "s' = snd (os_Remove ?w s3)" "b' = b2"
        using assms(1) Cons \<open>s_Offset s0 = 0\<close> c y l e1 k e3 K(6) by (simp_all add: applyWALIndex_def Let_def)
      then show ?thesis
        using True rm [of ?w s3] K(1-3) wf3 m3 assms(7) by (simp add: replay_index_def touches_def)
    next
      case False
      obtain e4 s4 where o: "open_and_checkpoint q p s3 = (e4, s4)" by fastforce
      have e4: "e4 = None" and s': "s' = snd (os_Remove ?h (snd (os_Remove ?w s4)))" "b' = b2"
        using assms(1) Cons True c y l e1 k e3 o K(6) False
        by (cases e4; simp add: applyWALIndex_def Let_def)+
      have S: "fs_wf s4" "node_at s4 p = Some (File (fw m ?c))"
        using assms(4) wf3 assms(7) m3 L(2) o e4 unfolding sqlite_ok_def by blast+
      have "fs_wf s'" "node_at s' p = node_at s4 p"
        using rm [of ?w s4] rm [of ?h "snd (os_Remove ?w s4)"] S(1) assms(7)
        unfolding s' touches_def by simp_all
      then show ?thesis using S(2) K(1-3) s'(2) False by (simp add: replay_index_def Let_def)
    qed
  qed
qed

lemma apply_indexes_ok:
  assumes "apply_indexes cd bk q gen p f is s b = (None, s', b')"
    and "invar b" and "\<forall>i. \<forall>sg \<in> set (seg_list f i). seg_ok sg" and "sqlite_ok fw q" and "fs_wf s"
    and "node_at s p = Some (File m)" and "p \<noteq> []"
  shows "invar b' \<and> snap b' = snap b \<and> seg b' = seg b \<and> fs_wf s' \<and>
    node_at s' p = Some (File (foldl (\<lambda>m i. replay_index fw (with_data cd (seg b gen) (seg_list f i)) m) m is))"
  using assms
proof (induction "is" arbitrary: s b m)
  case (Cons i "is")
  obtain e s1 b1 where a: "applyWALIndex cd bk q gen p (seg_list f i) s b = (e, s1, b1)"
    by (metis prod_cases3)
  have e: "e = None" and t: "apply_indexes cd bk q gen p f is s1 b1 = (None, s', b')"
    using Cons.prems(1) a by (cases e; simp add: seg_list_def)+
  have sg: "\<forall>sg \<in> set (seg_list f i). seg_ok sg" using Cons.prems(3) by blast
  have A: "invar b1" "snap b1 = snap b" "seg b1 = seg b" "fs_wf s1"
    "node_at s1 p = Some (File (replay_index fw (with_data cd (seg b gen) (seg_list f i)) m))"
    using applyWALIndex_ok [OF a [unfolded e] Cons.prems(2) sg Cons.prems(4-7)] by simp_all
  from Cons.IH [OF t A(1) Cons.prems(3,4) A(4,5) Cons.prems(7)] A(2,3) show ?case by simp
qed simp

lemma restore_generation_cases:
  assumes "restore_generation cd bk q ts gen p s b = (None, s', b')" and "fs_wf s"
  obtains s0 z b1 s1 segs b2 f "is" s2 b3 where "fs_wf s0" "ReadSnapshot bk gen b = (Inr z, b1)"
    "writeGunzipped cd p z s0 = (None, s1)" "WALSegments bk gen b1 = (Inr segs, b2)"
    "group_segs ts (go_sort seg_lt segs) (\<lambda>_. None, []) = (f, is)"
    "apply_indexes cd bk q gen p f (go_sort (<) is) s1 b2 = (None, s2, b3)"
    "verifySQLite q p s2 = (None, s')" "b' = b3"
proof -
  let ?rm = "\<lambda>x s. snd (os_Remove x s)"
  define s0 where "s0 = ?rm (with_suffix p ''-shm'') (?rm (with_suffix p ''-wal'') (?rm p s))"
  have "fs_wf (?rm x t)" if "fs_wf t" for x t
    using that Remove_touches [of x t] by (cases "os_Remove x t") (simp add: touches_def)
  then have wf0: "fs_wf s0" using assms(2) by (simp add: s0_def)
  note D = assms(1)[unfolded restore_generation_def Let_def, folded s0_def]
  obtain r b1 where r: "ReadSnapshot bk gen b = (r, b1)" by fastforce
  obtain z where z: "r = Inr z" using D r by (cases r) simp_all
  obtain e1 s1 where w: "writeGunzipped cd p z s0 = (e1, s1)" by fastforce
  have e1: "e1 = None" using D r z w by (cases e1) simp_all
  obtain rl b2 where sg: "WALSegments bk gen b1 = (rl, b2)" by fastforce
  obtain segs where segs: "rl = Inr segs" using D r z w e1 sg by (cases rl) simp_all
  obtain f "is" where g: "group_segs ts (go_sort seg_lt segs) (\<lambda>_. None, []) = (f, is)" by fastforce
  obtain e2 s2 b3 where a: "apply_indexes cd bk q gen p f (go_sort (<) is) s1 b2 = (e2, s2, b3)"
    by (metis prod_cases3)
  have e2: "e2 = None" using D r z w e1 sg segs g a by (cases e2) simp_all
  obtain e3 s3 where v: "verifySQLite q p s2 = (e3, s3)" by fastforce
  have "s' = s3" "b' = b3" "e3 = None" using D r z w e1 sg segs g a e2 v by (cases e3; simp)+
  then show thesis using wf0 r z w e1 sg segs g a e2 v that by simp
qed

lemma restore_generation_ok:
  assumes "restore_generation cd bk q ts gen p s b = (None, s', b')"
    and "invar b" and "sqlite_ok fw q" and "fs_wf s" and "p \<noteq> []"
  shows "\<exists>z base l. snap b gen = Some z \<and> gzip_read cd z = Inr base \<and> lists_segs (seg b gen) l \<and>
    node_at s' p = Some (File (replay fw (with_data cd (seg b gen) (filter (seg_at ts) l)) base)) \<and>
    snap b' = snap b \<and> seg b' = seg b \<and> invar b'"
proof -
  from assms(1,4) obtain s0 z b1 s1 segs b2 f "is" s2 b3 where
    wf0: "fs_wf s0" and r: "ReadSnapshot bk gen b = (Inr z, b1)" and w: "writeGunzipped cd p z s0 = (None, s1)"
    and sg: "WALSegments bk gen b1 = (Inr segs, b2)"
    and g: "group_segs ts (go_sort seg_lt segs) (\<lambda>_. None, []) = (f, is)"
    and a: "apply_indexes cd bk q gen p f (go_sort (<) is) s1 b2 = (None, s2, b3)"
    and v: "verifySQLite q p s2 = (None, s')" and fin: "b' = b3"
    by (rule restore_generation_cases)
  have R: "invar b1" "snap b1 = snap b" "seg b1 = seg b" "snap b gen = Some z"
    using read_snapshot [OF assms(2) r] by simp_all
  from writeGunzipped_ok [OF w assms(5)] obtain base where
    W: "gzip_read cd z = Inr base" "node_at s1 p = Some (File base)" "touches p s0 s1" by blast
  have wf1: "fs_wf s1" using W(3) wf0 by (simp add: touches_def)
  have S: "invar b2" "snap b2 = snap b1" "seg b2 = seg b1" "distinct (map segmentKey segs)"
    "\<forall>x \<in> set segs. seg_ok x"
    "\<forall>s. seg_ok s \<longrightarrow> (segmentKey s \<in> segmentKey ` set segs) = (seg b1 gen (segmentKey s) \<noteq> None)"
    using list_segments [OF R(1) sg] snap_name [OF assms(2)] R(4) by simp_all
  let ?l = "go_sort seg_lt segs"
  have "mset (map segmentKey ?l) = mset (map segmentKey segs)" by simp
  then have "distinct (map segmentKey ?l)"
    using S(4) by (metis mset_eq_imp_distinct_iff)
  then have L: "lists_segs (seg b gen) ?l"
    using S(5,6) R(3) seg_order.sorted_go_sort by (simp add: lists_segs_def)
  let ?d = "with_data cd (seg b gen)"
  note G = group_segs_result [OF g]
  have "\<forall>i. \<forall>x \<in> set (seg_list f i). seg_ok x" using S(5) by (simp add: G(1))
  from apply_indexes_ok [OF a S(1) this assms(3) wf1 W(2) assms(5)]
  have A: "invar b3" "snap b3 = snap b" "seg b3 = seg b"
    "node_at s2 p = Some (File (foldl (\<lambda>m i. replay_index fw (?d (seg_list f i)) m) base (go_sort (<) is)))"
    using R S by simp_all
  have o: "?d (seg_list f i) = of_index i (?d (filter (seg_at ts) ?l))" for i
    unfolding G(1) of_index_def with_data_def by (simp add: filter_map comp_def)
  have k: "map (s_Index \<circ> fst) (?d (filter (seg_at ts) ?l)) = map s_Index (filter (seg_at ts) ?l)"
    by (simp add: with_data_def)
  have "node_at s2 p = Some (File (replay fw (?d (filter (seg_at ts) ?l)) base))"
    using A(4) unfolding o G(2) replay_def k .
  moreover have "node_at s' p = node_at s2 p"
    using assms(3) v unfolding sqlite_ok_def by (metis snd_conv)
  ultimately show ?thesis using R(4) W(1) L A(1-3) fin by auto
qed

lemma find_newest:
  assumes "sorted (map (\<lambda>g. - g_CreatedAt g) l)" and "find P l = Some g" and "x \<in> set l" and "P x"
  shows "g_CreatedAt x \<le> g_CreatedAt g"
  using assms by (induction l) (auto split: if_splits)

text \<open>
  A restore that reports success has laid down exactly the replay of the listed segments kept,
  over the snapshot of a generation that is the newest acceptable one.
\<close>

lemma Restore_ok:
  assumes "Restore cd bk q dir opts s b = (None, s', b')"
    and "invar b" and "sqlite_ok fw q" and "fs_wf s"
  shows "\<exists>g z base l. gen_at (opt_ts opts) g \<and> ParseGenerationID (g_ID g) = Inr (g_CreatedAt g) \<and>
    (\<forall>g' t. snap b g' \<noteq> None \<longrightarrow> ParseGenerationID g' = Inr t \<longrightarrow>
       gen_at (opt_ts opts) \<lparr>g_ID = g', g_CreatedAt = t\<rparr> \<longrightarrow> t \<le> g_CreatedAt g) \<and>
    snap b (g_ID g) = Some z \<and> gzip_read cd z = Inr base \<and> lists_segs (seg b (g_ID g)) l \<and>
    node_at s' (dir @ [opt_db opts @ ''.db'']) =
      Some (File (replay fw (with_data cd (seg b (g_ID g)) (filter (seg_at (opt_ts opts)) l)) base)) \<and>
    snap b' = snap b \<and> seg b' = seg b \<and> invar b'"
proof -
  define ts where "ts = opt_ts opts"
  define p where "p = dir @ [opt_db opts @ ''.db'']"
  note D = assms(1)[unfolded Restore_def Let_def restore_opts, folded ts_def p_def]
  obtain e1 s1 where m: "os_MkdirAll dir s = (e1, s1)" by fastforce
  have e1: "e1 = None" using D m by (cases e1) simp_all
  obtain r b1 where g: "Generations bk b = (r, b1)" by fastforce
  obtain gens where gens: "r = Inr gens" using D m e1 g by (cases r) simp_all
  have ne: "gens \<noteq> []" using D m e1 g gens by (auto split: if_splits)
  obtain gn where f: "find (gen_at ts) (go_sort gen_lt gens) = Some gn"
    using D m e1 g gens ne by (cases "find (gen_at ts) (go_sort gen_lt gens)") simp_all
  have rg: "restore_generation cd bk q ts (g_ID gn) p s1 b1 = (None, s', b')"
    using D m e1 g gens ne f by simp
  have G: "invar b1" "snap b1 = snap b" "seg b1 = seg b"
    "\<forall>x \<in> set gens. ParseGenerationID (g_ID x) = Inr (g_CreatedAt x)"
    "\<forall>g t. snap b g \<noteq> None \<longrightarrow> ParseGenerationID g = Inr t \<longrightarrow>
       \<lparr>g_ID = g, g_CreatedAt = t\<rparr> \<in> set gens"
    using list_generations [OF assms(2) g] gens by simp_all
  have wf1: "fs_wf s1" by (rule fs_wf_MkdirAll [OF m assms(4)])
  have fg: "gn \<in> set gens" "gen_at ts gn"
    using f set_go_sort [of gen_lt gens] unfolding find_Some_iff by (metis nth_mem)+
  have nw: "t \<le> g_CreatedAt gn" if "snap b g' \<noteq> None" "ParseGenerationID g' = Inr t"
      "gen_at ts \<lparr>g_ID = g', g_CreatedAt = t\<rparr>" for g' t
    using find_newest [OF gen_order.sorted_go_sort f, of "\<lparr>g_ID = g', g_CreatedAt = t\<rparr>"] G(5) that
    by simp
  have "p \<noteq> []" by (simp add: p_def)
  from restore_generation_ok [OF rg G(1) assms(3) wf1 this] G(2,3)
  obtain z base l where "snap b (g_ID gn) = Some z" "gzip_read cd z = Inr base"
    "lists_segs (seg b (g_ID gn)) l"
    "node_at s' p =
      Some (File (replay fw (with_data cd (seg b (g_ID gn)) (filter (seg_at ts) l)) base))"
    "snap b' = snap b" "seg b' = seg b" "invar b'" by auto
  then show ?thesis unfolding ts_def [symmetric] p_def [symmetric] using fg nw G(4) by blast
qed

end

end
