(* ===== verification/Backup_Chain.thy ===== *)
theory Backup_Chain
  imports Backup_Engine Restore
begin

text \<open>
  What backup and restore promise together. The chain of a generation is its snapshot and the
  segments shipped since, in order. The invariant \<open>chain_inv\<close> ties the chain to the engine's
  state, to the objects in the backend and to the database files; the engine's operations and
  the other connections keep it, and after a successful sync replaying the chain gives the
  committed contents of the database at the time of the scan. With the specification of
  restore this yields that a restore rebuilds exactly that state.

  SQLite enters as \<open>fw\<close> (what a checkpoint of a WAL makes of a main file), with the documented
  facts collected in \<open>wal_apply_ok\<close>, \<open>other_step\<close> and \<open>ckpt_ok\<close>.
\<close>

subsection \<open>Replay, by index\<close>

fun whole :: "nat \<Rightarrow> (WALSegmentInfo \<times> bytes) list \<Rightarrow> bool" where
  "whole n [] \<longleftrightarrow> True"
| "whole n ((sg, d) # r) \<longleftrightarrow> s_Offset sg = int n \<and> d \<noteq> [] \<and> whole (n + length d) r"

definition shipped :: "(WALSegmentInfo \<times> bytes) list \<Rightarrow> int \<Rightarrow> bytes" where
  "shipped ch i = contig 0 (of_index i ch)"

definition before :: "int \<Rightarrow> (WALSegmentInfo \<times> bytes) list \<Rightarrow> (WALSegmentInfo \<times> bytes) list" where
  "before i ch = filter (\<lambda>x. s_Index (fst x) < i) ch"

lemma contig_append:
  "whole n l \<Longrightarrow> contig n (l @ r) = contig n l @ contig (n + length (contig n l)) r"
  by (induction n l rule: whole.induct) (auto simp: add.assoc)

lemma whole_append: "whole n (l @ r) \<longleftrightarrow> whole n l \<and> whole (n + length (contig n l)) r"
  by (induction n l rule: whole.induct) (auto simp: add.assoc)

lemma whole_offset: "whole n l \<Longrightarrow> x \<in> set l \<Longrightarrow> s_Offset (fst x) < int (n + length (contig n l))"
proof (induction n l rule: whole.induct)
  case (2 n sg d r)
  show ?case
  proof (cases "x = (sg, d)")
    case True
    with 2 show ?thesis by (cases d) auto
  next
    case False
    with 2 show ?thesis by (auto simp: add.assoc)
  qed
qed simp

lemma of_index_append [simp]: "of_index i (l @ r) = of_index i l @ of_index i r"
  by (simp add: of_index_def)

lemma of_index_Nil [simp]: "of_index i [] = []"
  by (simp add: of_index_def)

lemma of_index_single: "of_index i [x] = (if s_Index (fst x) = i then [x] else [])"
  by (simp add: of_index_def)

lemma before_append [simp]: "before i (l @ r) = before i l @ before i r"
  by (simp add: before_def)

lemma before_snoc: "\<not> s_Index (fst x) < i \<Longrightarrow> before i (l @ [x]) = before i l"
  by (simp add: before_def)

lemma of_index_before: "j < i \<Longrightarrow> of_index j (before i l) = of_index j l"
  unfolding of_index_def before_def filter_filter by (rule filter_cong) auto

lemma before_all: "\<forall>x \<in> set l. s_Index (fst x) < i \<Longrightarrow> before i l = l"
  by (simp add: before_def)

lemma indexes_before_Suc:
  "sort (remdups (map (s_Index \<circ> fst) (before (i + 1) l))) =
   sort (remdups (map (s_Index \<circ> fst) (before i l))) @ (if of_index i l = [] then [] else [i])"
  (is "sort (remdups (?m (i + 1))) = ?r")
proof (rule sorted_distinct_set_unique)
  let ?I = "(s_Index \<circ> fst) ` set l"
  have k: "set (?m k) = {j \<in> ?I. j < k}" for k
    by (auto simp: before_def)
  have e: "(of_index i l = []) = (i \<notin> ?I)"
    by (auto simp: of_index_def filter_empty_conv)
  have u: "{j \<in> ?I. j < i + 1} = {j \<in> ?I. j < i} \<union> (if i \<notin> ?I then {} else {i})"
    by (cases "i \<in> ?I") (auto simp: order.order_iff_strict)
  show "set (sort (remdups (?m (i + 1)))) = set ?r"
    unfolding set_append set_sort set_remdups k u e by simp
  show "sorted ?r" using k [of i] by (auto simp: sorted_append)
  show "distinct ?r" using k [of i] by auto
qed simp_all

lemma replay_before_Suc:
  "replay fw (before (i + 1) l) m = replay_index fw (of_index i l) (replay fw (before i l) m)"
proof -
  let ?is = "sort (remdups (map (s_Index \<circ> fst) (before i l)))"
  have j: "replay_index fw (of_index j (before (i + 1) l)) x = replay_index fw (of_index j (before i l)) x"
    if "j \<in> set ?is" for j x
    using that of_index_before [of j i l] of_index_before [of j "i + 1" l] by (auto simp: before_def)
  have f: "foldl (\<lambda>m j. replay_index fw (of_index j (before (i + 1) l)) m) m ?is =
      foldl (\<lambda>m j. replay_index fw (of_index j (before i l)) m) m ?is"
    using j by (intro foldl_cong) auto
  have e: "replay_index fw [] x = x" for x by (simp add: replay_index_def)
  show ?thesis
    unfolding replay_def indexes_before_Suc foldl_append f
    using of_index_before [of i "i + 1" l] by (simp add: e)
qed

lemma replay_shipped:
  assumes "\<forall>x \<in> set ch. s_Index (fst x) \<le> i"
  shows "replay fw ch m =
    (if shipped ch i = [] then replay fw (before i ch) m
     else fw (replay fw (before i ch) m) (shipped ch i))"
proof -
  have "before (i + 1) ch = ch"
    using assms by (intro before_all) auto
  then have "replay fw ch m = replay_index fw (of_index i ch) (replay fw (before i ch) m)"
    using replay_before_Suc [of fw i ch m] by simp
  then show ?thesis by (simp add: replay_index_def shipped_def Let_def)
qed

subsection \<open>SQLite and the other connections\<close>

text \<open>The WAL as \<open>walCommittedSize\<close> sees it, and the committed contents of the database: what a
  checkpoint would make of the main file.\<close>

definition wal_state :: "db_files \<Rightarrow> (walHeader \<times> nat) result" where
  "wal_state f = walCommittedSize (open_file None (f_wal f))"

definition db_image :: "(bytes \<Rightarrow> bytes \<Rightarrow> bytes) \<Rightarrow> db_files \<Rightarrow> bytes" where
  "db_image fw f = (case f_wal f of None \<Rightarrow> f_main f | Some w \<Rightarrow> fw (f_main f) w)"

definition salts_of :: "walHeader \<Rightarrow> u32 \<times> u32" where
  "salts_of h = (h_salt1 h, h_salt2 h)"

text \<open>Recovery uses the committed frames only, and nothing without a valid header.\<close>

definition wal_apply_ok :: "(bytes \<Rightarrow> bytes \<Rightarrow> bytes) \<Rightarrow> bool" where
  "wal_apply_ok fw \<longleftrightarrow>
     (\<forall>m w e. walCommittedSize (Inr w) = Inl e \<longrightarrow> fw m w = m) \<and>
     (\<forall>m w h c. walCommittedSize (Inr w) = Inr (h, c) \<longrightarrow> fw m w = fw m (take c w))"

text \<open>
  What another connection may do to the files when automatic checkpoints are off: write on in
  the WAL past the committed frames (committing or not), or start a new cycle, which SQLite
  does only when there is no WAL or all of it has been copied to the main file, always with
  fresh salts. The main file is written by checkpoints alone.
\<close>

definition wal_grows :: "db_files \<Rightarrow> db_files \<Rightarrow> bool" where
  "wal_grows f f' \<longleftrightarrow> f' = f \<or>
     (\<exists>w h c w' c'. f_wal f = Some w \<and> walCommittedSize (Inr w) = Inr (h, c) \<and>
        walCommittedSize (Inr w') = Inr (h, c') \<and> c \<le> c' \<and> take c w' = take c w \<and>
        f' = f\<lparr>f_wal := Some w'\<rparr>)"

definition restartable :: "(bytes \<Rightarrow> bytes \<Rightarrow> bytes) \<Rightarrow> db_files \<Rightarrow> bool" where
  "restartable fw f \<longleftrightarrow>
     (case wal_state f of
        Inl _ \<Rightarrow> True
      | Inr (h, c) \<Rightarrow> f_backfill f = c \<and> f_main f = db_image fw f)"

definition new_cycle :: "bytes option \<Rightarrow> db_files \<Rightarrow> db_files" where
  "new_cycle wal f =
     (case walCommittedSize (open_file None wal) of
        Inl _ \<Rightarrow> f\<lparr>f_wal := wal, f_backfill := 0\<rparr>
      | Inr (h, c) \<Rightarrow> f\<lparr>f_wal := wal, f_backfill := 0, f_salts := salts_of h # f_salts f\<rparr>)"

inductive other_step :: "(bytes \<Rightarrow> bytes \<Rightarrow> bytes) \<Rightarrow> db_files \<Rightarrow> db_files \<Rightarrow> bool" for fw where
  grow: "wal_grows f f' \<Longrightarrow> other_step fw f f'"
| restart: "restartable fw f \<Longrightarrow>
    (\<forall>h c. walCommittedSize (open_file None wal) = Inr (h, c) \<longrightarrow> salts_of h \<notin> set (f_salts f)) \<Longrightarrow>
    other_step fw f (new_cycle wal f)"

inductive_cases other_stepE: "other_step fw f f'"

text \<open>SQLite's own invariant: the salts of the WAL are among those used, and a checkpoint copies
  committed bytes only.\<close>

definition db_ok :: "db_files \<Rightarrow> bool" where
  "db_ok f \<longleftrightarrow> (\<forall>h c. wal_state f = Inr (h, c) \<longrightarrow> salts_of h \<in> set (f_salts f) \<and> f_backfill f \<le> c)"

text \<open>
  A TRUNCATE checkpoint: either the whole WAL is copied and the file emptied, or (an error, a
  reader in the way) some committed prefix has been copied, which no WAL that starts with that
  prefix can tell.
\<close>

definition ckpt_result ::
  "(bytes \<Rightarrow> bytes \<Rightarrow> bytes) \<Rightarrow> db_files \<Rightarrow> error option \<Rightarrow> db_files \<Rightarrow> bool" where
  "ckpt_result fw f err f' \<longleftrightarrow> f_salts f' = f_salts f \<and>
     (f' = f \<or>
      (\<exists>w h c. f_wal f = Some w \<and> f_wal f' = Some w \<and> walCommittedSize (Inr w) = Inr (h, c) \<and>
         f_backfill f' \<le> c \<and>
         (\<forall>w'. take (f_backfill f') w' = take (f_backfill f') w \<longrightarrow> fw (f_main f') w' = fw (f_main f) w')) \<or>
      (err = None \<and> \<not> wal_nonempty f' \<and> f_main f' = db_image fw f))"

definition ckpt_ok :: "(bytes \<Rightarrow> bytes \<Rightarrow> bytes) \<Rightarrow> env \<Rightarrow> bool" where
  "ckpt_ok fw E \<longleftrightarrow> (\<forall>f. db_ok f \<longrightarrow> ckpt_result fw f (fst (e_ckpt E f)) (snd (e_ckpt E f)))"

definition env_ok :: "(bytes \<Rightarrow> bytes \<Rightarrow> bytes) \<Rightarrow> env \<Rightarrow> bool" where
  "env_ok fw E \<longleftrightarrow> ckpt_ok fw E \<and> (\<forall>k f. (other_step fw)\<^sup>*\<^sup>* f (e_other E k f))"

text \<open>
  A sync that ends in a checkpoint sees no commit between its scan of the WAL and the
  checkpoint; in any sync the WAL is not restarted between its scan and its reading, a scan that
  opened the file reads it to its end (opening it may fail, but not with the claim that it is
  missing), and the only failure of the last \<open>stat\<close> is a missing file. (\<open>f\<close> are the files when the
  sync begins.)
\<close>

definition calm :: "env \<Rightarrow> backupManager \<Rightarrow> db_files \<Rightarrow> bool" where
  "calm E b f \<longleftrightarrow> e_stat E = None \<and> e_scan_cut E = None \<and> e_scan E \<noteq> Some ErrNotExist \<and>
     wal_grows f (e_other E 0 f) \<and>
     (\<forall>h c. wal_state f = Inr (h, c) \<longrightarrow> CheckpointThreshold (b_cfg b) \<le> int c \<longrightarrow>
        wal_state (e_other E 0 f) = Inr (h, c) \<and> (\<forall>f'. e_other E 1 f' = f'))"

lemma wal_state_None [simp]: "f_wal f = None \<Longrightarrow> wal_state f = Inl ErrNotExist"
  by (simp add: wal_state_def open_file_def walCommittedSize_def)

lemma wal_state_Some: "f_wal f = Some w \<Longrightarrow> wal_state f = walCommittedSize (Inr w)"
  by (simp add: wal_state_def open_file_def)

lemma wal_state_Inr:
  assumes "wal_state f = Inr (h, c)"
  obtains w where "f_wal f = Some w" "walCommittedSize (Inr w) = Inr (h, c)"
  using assms by (cases "f_wal f") (simp_all add: wal_state_Some)

lemma wal_state_empty: "\<not> wal_nonempty f \<Longrightarrow> wal_state f = Inl ErrNotExist"
  by (cases "f_wal f")
    (simp_all add: wal_nonempty_def wal_state_Some walCommittedSize_def walHeaderSize_def)

lemma new_cycle_simps [simp]:
  "f_main (new_cycle wal f) = f_main f" "f_wal (new_cycle wal f) = wal"
  "set (f_salts f) \<subseteq> set (f_salts (new_cycle wal f))"
  by (auto simp: new_cycle_def split: sum.splits)

lemma new_cycle_state: "wal_state (new_cycle wal f) = walCommittedSize (open_file None wal)"
  by (simp add: wal_state_def)

lemma db_ok_new_cycle: "db_ok (new_cycle wal f)"
  unfolding db_ok_def new_cycle_state
  by (auto simp: new_cycle_def walCommittedSize_def split: sum.splits)

lemma wal_grows_cases:
  assumes "wal_grows f f'"
  obtains "f' = f"
  | w h c w' c' where "f_wal f = Some w" "walCommittedSize (Inr w) = Inr (h, c)"
    "walCommittedSize (Inr w') = Inr (h, c')" "c \<le> c'" "take c w' = take c w"
    "f' = f\<lparr>f_wal := Some w'\<rparr>"
  using assms unfolding wal_grows_def by blast

lemma db_ok_grows: "wal_grows f f' \<Longrightarrow> db_ok f \<Longrightarrow> db_ok f'"
  by (erule wal_grows_cases) (auto simp: db_ok_def wal_state_Some)

lemma db_ok_other: "other_step fw f f' \<Longrightarrow> db_ok f \<Longrightarrow> db_ok f'"
  by (erule other_stepE) (auto intro: db_ok_grows db_ok_new_cycle)

lemma db_ok_ckpt: "ckpt_result fw f e f' \<Longrightarrow> db_ok f \<Longrightarrow> db_ok f'"
  unfolding ckpt_result_def
proof (elim conjE disjE exE)
  assume "\<not> wal_nonempty f'"
  then show "db_ok f'" by (simp add: db_ok_def wal_state_empty)
qed (auto simp: db_ok_def wal_state_Some)

subsection \<open>The invariant\<close>

definition chain_objs ::
  "codec \<Rightarrow> (string \<Rightarrow> bytes option) \<Rightarrow> (WALSegmentInfo \<times> bytes) list \<Rightarrow> bool" where
  "chain_objs cd objs ch \<longleftrightarrow>
     (\<forall>s. seg_ok s \<longrightarrow> (objs (segmentKey s) \<noteq> None) = (segmentKey s \<in> segmentKey ` fst ` set ch)) \<and>
     (\<forall>x \<in> set ch. \<exists>z. objs (segmentKey (fst x)) = Some z \<and> gzip_read cd z = Inr (snd x))"

definition chain_wf :: "(WALSegmentInfo \<times> bytes) list \<Rightarrow> int \<Rightarrow> nat \<Rightarrow> bool" where
  "chain_wf ch i n \<longleftrightarrow>
     (\<forall>x \<in> set ch. seg_ok (fst x) \<and> s_Index (fst x) \<le> i) \<and>
     sorted_wrt (<) (map (seg_key \<circ> fst) ch) \<and> sorted (map (s_CreatedAt \<circ> fst) ch) \<and>
     whole 0 (of_index i ch) \<and> length (shipped ch i) = n"

text \<open>The WAL still is the cycle being shipped, or that cycle is over and in the main file.\<close>

definition live ::
  "(bytes \<Rightarrow> bytes \<Rightarrow> bytes) \<Rightarrow> backupManager \<Rightarrow> db_files \<Rightarrow> bytes \<Rightarrow> bytes \<Rightarrow> bool" where
  "live fw b f base sh \<longleftrightarrow>
     (\<exists>w h c. f_wal f = Some w \<and> walCommittedSize (Inr w) = Inr (h, c) \<and> b_walOffset b \<le> c \<and>
        take (b_walOffset b) w = sh \<and> salts_of h = (b_salt1 b, b_salt2 b) \<and>
        f_backfill f \<le> b_walOffset b \<and>
        (\<forall>w'. take (b_walOffset b) w' = sh \<longrightarrow> fw (f_main f) w' = fw base w'))"

definition over ::
  "(bytes \<Rightarrow> bytes \<Rightarrow> bytes) \<Rightarrow> backupManager \<Rightarrow> db_files \<Rightarrow> bytes \<Rightarrow> bytes \<Rightarrow> bool" where
  "over fw b f base sh \<longleftrightarrow>
     f_main f = fw base sh \<and>
     (\<forall>h c. wal_state f = Inr (h, c) \<longrightarrow> salts_of h \<noteq> (b_salt1 b, b_salt2 b))"

definition files_rel ::
  "(bytes \<Rightarrow> bytes \<Rightarrow> bytes) \<Rightarrow> backupManager \<Rightarrow> db_files \<Rightarrow> bytes \<Rightarrow> bytes \<Rightarrow> bool" where
  "files_rel fw b f base sh \<longleftrightarrow>
     (if b_walOffset b = 0 then f_main f = base
      else (b_salt1 b, b_salt2 b) \<in> set (f_salts f) \<and> (live fw b f base sh \<or> over fw b f base sh))"

definition newest :: "(string \<Rightarrow> bytes option) \<Rightarrow> string \<Rightarrow> bool" where
  "newest snp g \<longleftrightarrow>
     (\<exists>t. ParseGenerationID g = Inr t \<and>
        (\<forall>g' t'. snp g' \<noteq> None \<longrightarrow> ParseGenerationID g' = Inr t' \<longrightarrow> t \<le> t' \<longrightarrow> g' = g))"

definition chain_inv ::
  "(bytes \<Rightarrow> bytes \<Rightarrow> bytes) \<Rightarrow> codec \<Rightarrow> (string \<Rightarrow> bytes option) \<Rightarrow> (string \<Rightarrow> string \<Rightarrow> bytes option) \<Rightarrow>
   backupManager \<Rightarrow> db_files \<Rightarrow> bytes \<Rightarrow> (WALSegmentInfo \<times> bytes) list \<Rightarrow> bool" where
  "chain_inv fw cd snp sgs b f base ch \<longleftrightarrow>
     b_generation b \<noteq> '''' \<and> 0 \<le> b_walIndex b \<and>
     (\<exists>z. snp (b_generation b) = Some z \<and> gzip_read cd z = Inr base) \<and>
     newest snp (b_generation b) \<and>
     chain_objs cd (sgs (b_generation b)) ch \<and>
     chain_wf ch (b_walIndex b) (b_walOffset b) \<and> db_ok f \<and>
     files_rel fw b f (replay fw (before (b_walIndex b) ch) base) (shipped ch (b_walIndex b))"

subsection \<open>The other connections keep it\<close>

lemma files_rel_grows:
  assumes "wal_grows f f'" and "files_rel fw b f base sh"
  shows "files_rel fw b f' base sh"
  using assms(1)
proof (cases rule: wal_grows_cases)
  case (2 w h c w' c')
  show ?thesis
  proof (cases "b_walOffset b = 0")
    case True
    then show ?thesis using assms(2) 2 by (simp add: files_rel_def)
  next
    case False
    have s: "f_main f' = f_main f" "f_salts f' = f_salts f" "f_backfill f' = f_backfill f"
      "f_wal f' = Some w'" using 2(6) by simp_all
    from False assms(2) consider (l) "live fw b f base sh" | (o) "over fw b f base sh"
      by (auto simp: files_rel_def)
    then have "live fw b f' base sh \<or> over fw b f' base sh"
    proof cases
      case l
      have "take (b_walOffset b) w' = take (b_walOffset b) w" if "b_walOffset b \<le> c"
        using that 2(5) by (metis min.absorb1 take_take)
      with l 2(1-4) have "live fw b f' base sh" unfolding live_def s by fastforce
      then show ?thesis ..
    next
      case o
      then have "over fw b f' base sh"
        using 2 unfolding over_def s by (simp add: wal_state_Some)
      then show ?thesis ..
    qed
    then show ?thesis using False assms(2) s by (simp add: files_rel_def)
  qed
qed (use assms(2) in simp)

lemma files_rel_restart:
  assumes "files_rel fw b f base sh" and "restartable fw f" and "wal_apply_ok fw"
    and "\<forall>h c. walCommittedSize (open_file None wal) = Inr (h, c) \<longrightarrow> salts_of h \<notin> set (f_salts f)"
  shows "files_rel fw b (new_cycle wal f) base sh"
proof (cases "b_walOffset b = 0")
  case True
  then show ?thesis using assms(1) by (simp add: files_rel_def)
next
  case False
  have k: "(b_salt1 b, b_salt2 b) \<in> set (f_salts f)"
    using False assms(1) by (simp add: files_rel_def)
  from False assms(1) consider (l) "live fw b f base sh" | (o) "over fw b f base sh"
    by (auto simp: files_rel_def)
  then have "f_main f = fw base sh"
  proof cases
    case l
    then obtain w h c where w: "f_wal f = Some w" "walCommittedSize (Inr w) = Inr (h, c)"
      "b_walOffset b \<le> c" "take (b_walOffset b) w = sh" "f_backfill f \<le> b_walOffset b"
      "fw (f_main f) w = fw base w" by (auto simp: live_def)
    then have "b_walOffset b = c" "f_main f = fw (f_main f) w"
      using assms(2) by (simp_all add: restartable_def wal_state_Some db_image_def)
    moreover have "fw base w = fw base (take c w)"
      using assms(3) w(2) unfolding wal_apply_ok_def by blast
    ultimately show ?thesis using w(4,6) by simp
  qed (simp add: over_def)
  moreover have "salts_of h \<noteq> (b_salt1 b, b_salt2 b)"
    if "walCommittedSize (open_file None wal) = Inr (h, c)" for h c
    using assms(4) that k by metis
  ultimately have "over fw b (new_cycle wal f) base sh"
    unfolding over_def new_cycle_state by simp
  moreover have "(b_salt1 b, b_salt2 b) \<in> set (f_salts (new_cycle wal f))"
    using new_cycle_simps(3) k by (rule subsetD)
  ultimately show ?thesis using False unfolding files_rel_def by simp
qed

lemma files_rel_other:
  "other_step fw f f' \<Longrightarrow> wal_apply_ok fw \<Longrightarrow> files_rel fw b f base sh \<Longrightarrow> files_rel fw b f' base sh"
  by (erule other_stepE) (auto intro: files_rel_grows files_rel_restart)

lemma chain_inv_other:
  "(other_step fw)\<^sup>*\<^sup>* f f' \<Longrightarrow> wal_apply_ok fw \<Longrightarrow> chain_inv fw cd snp sgs b f base ch \<Longrightarrow>
   chain_inv fw cd snp sgs b f' base ch"
  by (induction rule: rtranclp_induct) (auto simp: chain_inv_def intro: files_rel_other db_ok_other)

subsection \<open>The engine's steps keep it\<close>

text \<open>Closing an index: the cycle is over and in the main file.\<close>

definition next_index :: "backupManager \<Rightarrow> backupManager" where
  "next_index b = b\<lparr>b_walIndex := b_walIndex b + 1, b_walOffset := 0\<rparr>"

lemma chain_wf_next: "chain_wf ch i n \<Longrightarrow> chain_wf ch (i + 1) 0"
proof -
  assume a: "chain_wf ch i n"
  then have "of_index (i + 1) ch = []"
    by (auto simp: chain_wf_def of_index_def filter_empty_conv)
  with a show ?thesis by (auto simp: chain_wf_def shipped_def)
qed

lemma chain_next:
  assumes "chain_inv fw cd snp sgs b f base ch" and "b_walOffset b \<noteq> 0"
    and "f_main f' = fw (replay fw (before (b_walIndex b) ch) base) (shipped ch (b_walIndex b))"
    and "db_ok f'"
  shows "chain_inv fw cd snp sgs (next_index b) f' base ch"
proof -
  have wf: "chain_wf ch (b_walIndex b) (b_walOffset b)" using assms(1) by (simp add: chain_inv_def)
  have "shipped ch (b_walIndex b) \<noteq> []" using wf assms(2) by (auto simp: chain_wf_def)
  then have "replay fw (before (b_walIndex b + 1) ch) base = f_main f'"
    using assms(3) by (simp add: replay_before_Suc replay_index_def shipped_def Let_def)
  then show ?thesis
    using assms(1,4) chain_wf_next [OF wf]
    by (simp add: chain_inv_def next_index_def files_rel_def)
qed

text \<open>The live cycle with everything shipped, or over: the chain gives the committed contents.\<close>

lemma live_image:
  assumes "live fw b f base sh" and "wal_apply_ok fw" and "wal_state f = Inr (h, b_walOffset b)"
  shows "db_image fw f = fw base sh"
proof -
  obtain w where w: "f_wal f = Some w" "walCommittedSize (Inr w) = Inr (h, b_walOffset b)"
    using wal_state_Inr [OF assms(3)] by blast
  have "take (b_walOffset b) w = sh" "fw (f_main f) w = fw base w"
    using assms(1) w by (auto simp: live_def)
  moreover have "fw base w = fw base (take (b_walOffset b) w)"
    using assms(2) w(2) unfolding wal_apply_ok_def by blast
  ultimately show ?thesis by (simp add: db_image_def w(1))
qed

lemma track_salts_cases:
  assumes "b' = track_salts h b"
  obtains (same) "0 < b_walOffset b" "salts_of h = (b_salt1 b, b_salt2 b)" "b' = b"
  | (changed) "0 < b_walOffset b" "salts_of h \<noteq> (b_salt1 b, b_salt2 b)"
      "b' = (next_index b)\<lparr>b_salt1 := h_salt1 h, b_salt2 := h_salt2 h\<rparr>"
  | (first) "b_walOffset b = 0" "b' = b\<lparr>b_salt1 := h_salt1 h, b_salt2 := h_salt2 h\<rparr>"
proof (cases "b_walOffset b = 0")
  case True
  then show thesis using assms by (intro first) (simp_all add: track_salts_def)
next
  case False
  show thesis
  proof (cases "salts_of h = (b_salt1 b, b_salt2 b)")
    case True
    then show thesis using assms False by (intro same) (simp_all add: track_salts_def salts_of_def)
  next
    case ne: False
    then have "h_salt1 h \<noteq> b_salt1 b \<or> h_salt2 h \<noteq> b_salt2 b" by (simp add: salts_of_def)
    then have "b' = (next_index b)\<lparr>b_salt1 := h_salt1 h, b_salt2 := h_salt2 h\<rparr>"
      unfolding assms track_salts_def next_index_def using False by (simp only: Let_def simp_thms if_True) simp
    then show thesis using False ne by (intro changed) simp_all
  qed
qed

lemma chain_track:
  assumes "chain_inv fw cd snp sgs b f base ch" and "wal_state f = Inr (h, c)"
    and "b' = track_salts h b"
  shows "chain_inv fw cd snp sgs b' f base ch \<and> b_generation b' = b_generation b \<and>
    b_cfg b' = b_cfg b \<and> salts_of h = (b_salt1 b', b_salt2 b') \<and>
    (b_walIndex b' = b_walIndex b \<or> b_walIndex b' = b_walIndex b + 1)"
  using assms(3)
proof (cases rule: track_salts_cases)
  case same
  then show ?thesis using assms(1) by simp
next
  case changed
  let ?n = "next_index b"
  have "over fw b f (replay fw (before (b_walIndex b) ch) base) (shipped ch (b_walIndex b))"
    using assms(1,2) changed(1,2)
    by (auto simp: chain_inv_def files_rel_def live_def wal_state_Some)
  then have "f_main f = fw (replay fw (before (b_walIndex b) ch) base) (shipped ch (b_walIndex b))"
    by (simp add: over_def)
  moreover have "db_ok f" using assms(1) by (simp add: chain_inv_def)
  ultimately have "chain_inv fw cd snp sgs ?n f base ch"
    using chain_next [OF assms(1)] changed(1) by blast
  then show ?thesis
    using changed by (simp add: chain_inv_def next_index_def files_rel_def salts_of_def)
next
  case first
  then show ?thesis using assms(1) by (simp add: chain_inv_def files_rel_def salts_of_def)
qed

text \<open>The checkpoint, with all of the WAL shipped.\<close>

lemma files_rel_ckpt:
  assumes "ckpt_result fw f e f'" and "wal_apply_ok fw" and "files_rel fw b f base sh"
    and "b_walOffset b \<noteq> 0" and "wal_state f = Inr (h, b_walOffset b)"
    and "salts_of h = (b_salt1 b, b_salt2 b)"
  shows "files_rel fw b f' base sh \<and> (\<not> wal_nonempty f' \<longrightarrow> f_main f' = fw base sh)"
proof -
  have lv: "live fw b f base sh"
    using assms(3-6) by (auto simp: files_rel_def over_def)
  have k: "f_salts f' = f_salts f" using assms(1) by (simp add: ckpt_result_def)
  have st: "(b_salt1 b, b_salt2 b) \<in> set (f_salts f)" using assms(3,4) by (simp add: files_rel_def)
  obtain w where w: "f_wal f = Some w" "walCommittedSize (Inr w) = Inr (h, b_walOffset b)"
    using wal_state_Inr [OF assms(5)] by blast
  have ne: "wal_nonempty f"
    using w by (auto simp: wal_nonempty_def walCommittedSize_def walHeaderSize_def)
  from assms(1) consider (noop) "f' = f"
    | (part) "f_wal f' = Some w" "f_backfill f' \<le> b_walOffset b"
        "\<forall>w'. take (f_backfill f') w' = take (f_backfill f') w \<longrightarrow> fw (f_main f') w' = fw (f_main f) w'"
    | (trunc) "\<not> wal_nonempty f'" "f_main f' = db_image fw f"
    using w by (auto simp: ckpt_result_def)
  then show ?thesis
  proof cases
    case noop
    then show ?thesis using assms(3) ne by simp
  next
    case part
    have sh: "take (b_walOffset b) w = sh"
      "\<forall>w'. take (b_walOffset b) w' = sh \<longrightarrow> fw (f_main f) w' = fw base w'"
      using lv w by (auto simp: live_def)
    have "fw (f_main f') w' = fw base w'" if "take (b_walOffset b) w' = sh" for w'
    proof -
      have "take (f_backfill f') w' = take (f_backfill f') w"
        using that sh(1) part(2) by (metis min.absorb1 take_take)
      then show ?thesis using part(3) sh(2) that by simp
    qed
    then have "live fw b f' base sh"
      using w part(1,2) sh(1) assms(6) unfolding live_def by simp
    moreover have "wal_nonempty f'" using ne w(1) part(1) by (simp add: wal_nonempty_def)
    ultimately show ?thesis using assms(4) k st by (simp add: files_rel_def)
  next
    case trunc
    then have m: "f_main f' = fw base sh" using live_image [OF lv assms(2,5)] by simp
    then have "over fw b f' base sh" using trunc(1) by (simp add: over_def wal_state_empty)
    then show ?thesis using m assms(4) k st by (simp add: files_rel_def)
  qed
qed

text \<open>One more segment of the current cycle.\<close>

lemma committed_pos: "walCommittedSize (Inr w) = Inr (h, c) \<Longrightarrow> 0 < c"
  by (auto simp: walCommittedSize_durable frame_end_def walHeaderSize_def)

lemma chain_wf_snoc:
  assumes "chain_wf ch i n" and "seg_ok s" and "s_Index s = i" and "s_Offset s = int n" and "d \<noteq> []"
    and "\<forall>x \<in> set ch. s_CreatedAt (fst x) \<le> s_CreatedAt s"
  shows "chain_wf (ch @ [(s, d)]) i (n + length d)" and "shipped (ch @ [(s, d)]) i = shipped ch i @ d"
proof -
  have wh: "whole 0 (of_index i ch)" "length (contig 0 (of_index i ch)) = n"
    using assms(1) by (simp_all add: chain_wf_def shipped_def)
  have sh: "shipped (ch @ [(s, d)]) i = shipped ch i @ d"
    using contig_append [OF wh(1), of "[(s, d)]"] wh(2) assms(3,4)
    by (simp add: shipped_def of_index_single)
  have lt: "seg_key (fst x) < seg_key s" if "x \<in> set ch" for x
  proof (cases "s_Index (fst x) = i")
    case True
    then have "x \<in> set (of_index i ch)" using that by (simp add: of_index_def)
    then show ?thesis
      using whole_offset [OF wh(1)] wh(2) True assms(3,4) by (auto simp: seg_key_def less_prod_def')
  next
    case False
    then have "s_Index (fst x) < i" using assms(1) that by (auto simp: chain_wf_def order.order_iff_strict)
    then show ?thesis using assms(3) by (simp add: seg_key_def less_prod_def')
  qed
  show "shipped (ch @ [(s, d)]) i = shipped ch i @ d" by (rule sh)
  have "whole 0 (of_index i (ch @ [(s, d)]))"
    using wh assms(3-5) by (simp add: whole_append of_index_single)
  moreover have "sorted_wrt (<) (map (seg_key \<circ> fst) (ch @ [(s, d)]))"
    using assms(1) lt by (auto simp: chain_wf_def sorted_wrt_append)
  moreover have "sorted (map (s_CreatedAt \<circ> fst) (ch @ [(s, d)]))"
    using assms(1,6) by (auto simp: chain_wf_def sorted_append)
  ultimately show "chain_wf (ch @ [(s, d)]) i (n + length d)"
    using assms(1-3) sh by (auto simp: chain_wf_def)
qed

lemma chain_objs_snoc:
  assumes "chain_objs cd objs ch" and "seg_ok s" and "gzip_read cd z = Inr d"
    and "\<forall>x \<in> set ch. seg_ok (fst x) \<and> seg_key (fst x) < seg_key s"
  shows "chain_objs cd (objs(segmentKey s := Some z)) (ch @ [(s, d)])"
proof -
  have ne: "segmentKey (fst x) \<noteq> segmentKey s" if "x \<in> set ch" for x
  proof
    assume "segmentKey (fst x) = segmentKey s"
    then have "(fst x)\<lparr>s_Size := 0\<rparr> = s\<lparr>s_Size := 0\<rparr>"
      using assms(2,4) that segmentKey_inj by blast
    then have "s_Index (fst x) = s_Index s \<and> s_Offset (fst x) = s_Offset s"
      by (cases "fst x"; cases s) simp
    then show False using assms(4) that by (auto simp: seg_key_def)
  qed
  then show ?thesis using assms(1,3) unfolding chain_objs_def by auto
qed

text \<open>After \<open>track_salts\<close> the WAL is the live cycle, or nothing of the index is shipped yet.\<close>

lemma chain_tracked:
  assumes "chain_inv fw cd snp sgs b f base ch" and "f_wal f = Some w"
    and "walCommittedSize (Inr w) = Inr (h, c)" and "salts_of h = (b_salt1 b, b_salt2 b)"
  shows "b_walOffset b \<le> c \<and> f_backfill f \<le> c \<and> salts_of h \<in> set (f_salts f) \<and>
    take (b_walOffset b) w = shipped ch (b_walIndex b) \<and>
    (\<forall>w'. take (b_walOffset b) w' = shipped ch (b_walIndex b) \<longrightarrow>
       fw (f_main f) w' = fw (replay fw (before (b_walIndex b) ch) base) w') \<and>
    (b_walOffset b = c \<longrightarrow> wal_apply_ok fw \<longrightarrow> replay fw ch base = db_image fw f)"
proof -
  let ?base = "replay fw (before (b_walIndex b) ch) base" and ?sh = "shipped ch (b_walIndex b)"
  have st: "wal_state f = Inr (h, c)" using assms(2,3) by (simp add: wal_state_Some)
  have ok: "f_backfill f \<le> c \<and> salts_of h \<in> set (f_salts f)"
    using assms(1) st by (auto simp: chain_inv_def db_ok_def)
  have wf: "chain_wf ch (b_walIndex b) (b_walOffset b)"
    and rel: "files_rel fw b f ?base ?sh"
    using assms(1) by (simp_all add: chain_inv_def)
  show ?thesis
  proof (cases "b_walOffset b = 0")
    case True
    then have "?sh = []" using wf by (simp add: chain_wf_def)
    then show ?thesis using True ok rel committed_pos [OF assms(3)] by (simp add: files_rel_def)
  next
    case False
    then have lv: "live fw b f ?base ?sh"
      using rel st assms(4) by (auto simp: files_rel_def over_def)
    then have l: "b_walOffset b \<le> c" "take (b_walOffset b) w = ?sh"
      "\<forall>w'. take (b_walOffset b) w' = ?sh \<longrightarrow> fw (f_main f) w' = fw ?base w'"
      using assms(2,3) by (auto simp: live_def)
    have "replay fw ch base = db_image fw f" if "b_walOffset b = c" "wal_apply_ok fw"
    proof -
      have "?sh \<noteq> []" using wf False by (auto simp: chain_wf_def)
      moreover have "\<forall>x \<in> set ch. s_Index (fst x) \<le> b_walIndex b" using wf by (simp add: chain_wf_def)
      ultimately show ?thesis
        using live_image [OF lv that(2)] st that(1) replay_shipped [of ch "b_walIndex b" fw base] by simp
    qed
    then show ?thesis using l ok by blast
  qed
qed

text \<open>Without a WAL everything shipped is everything there is.\<close>

lemma chain_no_wal:
  assumes "chain_inv fw cd snp sgs b f base ch" and "wal_state f = Inl e" and "wal_apply_ok fw"
  shows "replay fw ch base = db_image fw f"
proof -
  have i: "db_image fw f = f_main f"
    using assms(2,3) unfolding wal_apply_ok_def
    by (cases "f_wal f") (auto simp: db_image_def wal_state_Some)
  have wf: "chain_wf ch (b_walIndex b) (b_walOffset b)"
    and rel: "files_rel fw b f (replay fw (before (b_walIndex b) ch) base) (shipped ch (b_walIndex b))"
    using assms(1) by (simp_all add: chain_inv_def)
  have nl: "\<not> live fw b f x y" for x y using assms(2) by (auto simp: live_def wal_state_Some)
  have "shipped ch (b_walIndex b) = [] \<longleftrightarrow> b_walOffset b = 0"
    using wf by (auto simp: chain_wf_def)
  then have "f_main f = replay fw ch base"
    using rel nl wf replay_shipped [of ch "b_walIndex b" fw base]
    by (auto simp: files_rel_def over_def chain_wf_def split: if_splits)
  with i show ?thesis by simp
qed

lemma chain_ship:
  assumes "chain_inv fw cd snp sgs b f base ch" and "f_wal f = Some w"
    and "walCommittedSize (Inr w) = Inr (h, c')" and "salts_of h = (b_salt1 b, b_salt2 b)"
    and "c \<le> c'" and "f_backfill f \<le> c" and "b_walOffset b < c" and "c \<le> length w"
    and "d = drop (b_walOffset b) (take c w)"
    and "s_Index s = b_walIndex b" and "s_Offset s = int (b_walOffset b)" and "seg_ok s"
    and "\<forall>x \<in> set ch. s_CreatedAt (fst x) \<le> s_CreatedAt s" and "gzip_read cd z = Inr d"
    and "g = b_generation b"
    and "b' = b\<lparr>b_walOffset := c, b_status := st\<rparr>"
  shows "chain_inv fw cd snp (sgs(g := (sgs g)(segmentKey s := Some z))) b' f base (ch @ [(s, d)])"
    and "replay fw (ch @ [(s, d)]) base = fw (f_main f) (take c w)"
proof -
  let ?base = "replay fw (before (b_walIndex b) ch) base" and ?sh = "shipped ch (b_walIndex b)"
  note T = chain_tracked [OF assms(1-4)]
  have wf: "chain_wf ch (b_walIndex b) (b_walOffset b)" using assms(1) by (simp add: chain_inv_def)
  have len: "length d = c - b_walOffset b" using assms(8,9) by simp
  have dn: "d \<noteq> []" using len assms(7) by auto
  note W = chain_wf_snoc [OF wf assms(12,10,11) dn assms(13)]
  have sh: "?sh @ d = take c w"
    using T assms(7,9) by (metis drop_take_concat less_imp_le_nat)
  have "sorted_wrt (<) (map (seg_key \<circ> fst) (ch @ [(s, d)]))" "\<forall>x \<in> set ch. seg_ok (fst x)"
    using W(1) by (simp_all add: chain_wf_def)
  then have O: "chain_objs cd ((sgs g)(segmentKey s := Some z)) (ch @ [(s, d)])"
    using assms(1,12,14,15) by (intro chain_objs_snoc) (auto simp: chain_inv_def sorted_wrt_append)
  have bf: "before (b_walIndex b) (ch @ [(s, d)]) = before (b_walIndex b) ch"
    using assms(10) by (simp add: before_def)
  have "take (b_walOffset b) w' = ?sh" if "take c w' = ?sh @ d" for w'
    using that sh T assms(7) by (metis min.absorb1 take_take less_imp_le_nat)
  then have "live fw b' f ?base (?sh @ d)"
    using T assms(2-6) sh unfolding live_def assms(16) by (simp add: assms(4))
  then have "files_rel fw b' f ?base (?sh @ d)"
    using T assms(4,7,16) by (simp add: files_rel_def)
  then show "chain_inv fw cd snp (sgs(g := (sgs g)(segmentKey s := Some z))) b' f base (ch @ [(s, d)])"
    using assms(1,7,15,16) W len bf O by (simp add: chain_inv_def)
  have "take c w \<noteq> []" using assms(7,8) by auto
  then have "replay fw (ch @ [(s, d)]) base = fw ?base (take c w)"
    using replay_shipped [of "ch @ [(s, d)]" "b_walIndex b" fw base] W sh bf
    by (simp add: chain_wf_def)
  also have "\<dots> = fw (f_main f) (take c w)"
  proof -
    have "take (b_walOffset b) (take c w) = ?sh" using T assms(7) by (simp add: min.absorb1)
    then show ?thesis using T by simp
  qed
  finally show "replay fw (ch @ [(s, d)]) base = fw (f_main f) (take c w)" .
qed

lemma env_okD:
  assumes "env_ok fw E"
  shows "db_ok f \<Longrightarrow> ckpt_result fw f (fst (e_ckpt E f)) (snd (e_ckpt E f))"
    and "(other_step fw)\<^sup>*\<^sup>* f (e_other E k f)"
  using assms by (simp_all add: env_ok_def ckpt_ok_def)

lemma maybeCheckpoint_inv:
  assumes "maybeCheckpoint E c b w = (e, b', w')" and "chain_inv fw cd snp sgs b (w_files w) base ch"
    and "wal_apply_ok fw" and "env_ok fw E" and "e_stat E = None" and "0 < c"
    and "CheckpointThreshold (b_cfg b) \<le> int c \<Longrightarrow> b_walOffset b = c \<Longrightarrow>
      wal_state (w_files w) = Inr (h, c) \<and> salts_of h = (b_salt1 b, b_salt2 b) \<and>
      (\<forall>f. e_other E 1 f = f)"
  shows "chain_inv fw cd snp sgs b' (w_files w') base ch \<and> w_backend w' = w_backend w \<and>
    b_generation b' = b_generation b"
proof (cases "int c < CheckpointThreshold (b_cfg b) \<or> b_walOffset b \<noteq> c")
  case True
  then show ?thesis using assms(1,2) by (auto simp: maybeCheckpoint_def)
next
  case False
  let ?f = "w_files w" and ?base = "replay fw (before (b_walIndex b) ch) base"
  let ?sh = "shipped ch (b_walIndex b)"
  have due: "wal_state ?f = Inr (h, b_walOffset b)" "salts_of h = (b_salt1 b, b_salt2 b)"
    "\<forall>f. e_other E 1 f = f" "b_walOffset b = c" "b_walOffset b \<noteq> 0"
    using False assms(6,7) by auto
  have dbok: "db_ok ?f" using assms(2) by (simp add: chain_inv_def)
  obtain e1 f1 where k: "e_ckpt E ?f = (e1, f1)" by fastforce
  have R: "ckpt_result fw ?f e1 f1" using env_okD(1) [OF assms(4) dbok] k by simp
  have F: "files_rel fw b f1 ?base ?sh"
    using files_rel_ckpt [OF R assms(3) _ due(5,1,2)] assms(2) by (auto simp: chain_inv_def)
  have I1: "chain_inv fw cd snp sgs b f1 base ch"
    using assms(2) F db_ok_ckpt [OF R dbok] by (simp add: chain_inv_def)
  have o1: "e_other E (Suc 0) f = f" for f using due(3) by simp
  define f2 where "f2 = e_other E 2 f1"
  have eq: "maybeCheckpoint E c b w =
      (case e1 of Some x \<Rightarrow> (Some (Wrapped ''checkpoint'' x), b, w\<lparr>w_files := f1\<rparr>)
       | None \<Rightarrow> (None, if wal_nonempty f2 then b else next_index b, w\<lparr>w_files := f2\<rparr>))"
    using False assms(5) k
    by (simp add: maybeCheckpoint_def others_def o1 f2_def next_index_def split: option.split)
  have I2: "chain_inv fw cd snp sgs b f2 base ch"
    unfolding f2_def using env_okD(2) [OF assms(4)] assms(3) I1 by (rule chain_inv_other)
  show ?thesis
  proof (cases e1)
    case (Some x)
    then have "b' = b" "w_files w' = f1" "w_backend w' = w_backend w"
      using assms(1) eq by auto
    then show ?thesis using I1 by simp
  next
    case None
    show ?thesis
    proof (cases "wal_nonempty f2")
      case True
      then have "b' = b" "w_files w' = f2" "w_backend w' = w_backend w"
        using assms(1) eq None by auto
      then show ?thesis using I2 by simp
    next
      case empty: False
      then have "b' = next_index b" "w_files w' = f2" "w_backend w' = w_backend w"
        using assms(1) eq None by auto
      moreover have "f_main f2 = fw ?base ?sh"
      proof -
        have "\<not> live fw b f2 ?base ?sh"
          using wal_state_empty [OF empty] by (auto simp: live_def wal_state_Some)
        then show ?thesis using I2 due(5) by (simp add: chain_inv_def files_rel_def over_def)
      qed
      moreover have "db_ok f2" using I2 by (simp add: chain_inv_def)
      ultimately show ?thesis using chain_next [OF I2 due(5)] by (simp add: next_index_def)
    qed
  qed
qed

subsection \<open>A new generation\<close>

lemma NewGenerationID_not_Nil: "NewGenerationID t r \<noteq> ''''"
  by (simp add: NewGenerationID_def)

lemma Parse_NewGenerationID: "0 \<le> t \<Longrightarrow> in_i64 t \<Longrightarrow> ParseGenerationID (NewGenerationID t r) = Inr t"
  using cut_append [of "CHR ''-''" "fmt_016x t" "hex_encode r"]
  by (simp add: ParseGenerationID_def NewGenerationID_def fmt_no_dash parse_int_fmt_016x)

lemma chain_inv_new:
  assumes "snp g = Some z" and "gzip_read cd z = Inr (f_main f)" and "newest snp g"
    and "\<forall>k. sgs g k = None" and "db_ok f" and "g \<noteq> ''''"
    and "b_generation b = g" and "b_walIndex b = 0" and "b_walOffset b = 0"
  shows "chain_inv fw cd snp sgs b f (f_main f) []"
  using assms
  by (simp add: chain_inv_def chain_objs_def chain_wf_def files_rel_def before_def shipped_def replay_def)

context backup_backend
begin

lemma prune_each_frame:
  assumes "invar st" and "\<forall>x \<in> set gs. names (g_ID x)"
  shows "invar (prune_each bk b c gs st) \<and>
    snap (prune_each bk b c gs st) (b_generation b) = snap st (b_generation b) \<and>
    seg (prune_each bk b c gs st) (b_generation b) = seg st (b_generation b) \<and>
    (\<forall>g. snap st g = None \<longrightarrow> snap (prune_each bk b c gs st) g = None)"
  using assms
proof (induction gs arbitrary: st)
  case (Cons g gs)
  show ?case
  proof (cases "prunable b c g")
    case True
    obtain r st1 where d: "DeleteGeneration bk (g_ID g) st = (r, st1)" by fastforce
    have D: "invar st1" "snap st1 (b_generation b) = snap st (b_generation b)"
      "seg st1 (b_generation b) = seg st (b_generation b)"
      using delete_frame [OF Cons.prems(1) d] Cons.prems(2) True by (auto simp: prunable_def)
    moreover have "snap st1 h = None" if "snap st h = None" for h
      using delete_frame [OF Cons.prems(1) d] Cons.prems(2) that by (cases "h = g_ID g") simp_all
    ultimately show ?thesis using Cons.IH [OF D(1)] Cons.prems(2) True d by simp
  next
    case False
    then show ?thesis using Cons.IH [OF Cons.prems(1)] Cons.prems(2) by simp
  qed
qed simp

lemma pruneLocked_frame:
  assumes "invar st"
  shows "invar (pruneLocked bk now b st) \<and>
    snap (pruneLocked bk now b st) (b_generation b) = snap st (b_generation b) \<and>
    seg (pruneLocked bk now b st) (b_generation b) = seg st (b_generation b) \<and>
    (\<forall>g. snap st g = None \<longrightarrow> snap (pruneLocked bk now b st) g = None)"
proof (cases "Retention (b_cfg b) \<le> 0")
  case True
  then show ?thesis using assms by (simp add: pruneLocked_def)
next
  case False
  obtain r st1 where g: "Generations bk st = (r, st1)" by fastforce
  have L: "invar st1" "snap st1 = snap st" "seg st1 = seg st"
    using list_generations [OF assms g] by simp_all
  show ?thesis
  proof (cases r)
    case (Inl e)
    then show ?thesis using False g L by (simp add: pruneLocked_def)
  next
    case (Inr gens)
    then show ?thesis
      using prune_each_frame [OF L(1), of gens b "now - Retention (b_cfg b)"] False g L
        list_generations [OF assms g] by (simp add: pruneLocked_def)
  qed
qed

text \<open>What is not prunable is kept, whatever the deletions of the others do.\<close>

lemma prune_each_keeps:
  assumes "invar st" and "\<forall>x \<in> set gs. names (g_ID x) \<and> (prunable b c x \<longrightarrow> g_ID x \<noteq> g)"
  shows "snap (prune_each bk b c gs st) g = snap st g \<and> seg (prune_each bk b c gs st) g = seg st g"
  using assms
proof (induction gs arbitrary: st)
  case (Cons x gs)
  show ?case
  proof (cases "prunable b c x")
    case True
    obtain r st1 where d: "DeleteGeneration bk (g_ID x) st = (r, st1)" by fastforce
    have "g \<noteq> g_ID x" using True Cons.prems(2) by auto
    then have "invar st1" "snap st1 g = snap st g" "seg st1 g = seg st g"
      using delete_frame [OF Cons.prems(1) d] Cons.prems(2) by auto
    then show ?thesis using Cons.IH [of st1] Cons.prems(2) True d by simp
  next
    case False
    then show ?thesis using Cons.IH [OF Cons.prems(1)] Cons.prems(2) by simp
  qed
qed simp

lemma pruneLocked_keeps:
  assumes "invar st" and "ParseGenerationID g = Inr t"
    and "g = b_generation b \<or> now - Retention (b_cfg b) \<le> t"
  shows "snap (pruneLocked bk now b st) g = snap st g \<and> seg (pruneLocked bk now b st) g = seg st g"
proof (cases "Retention (b_cfg b) \<le> 0")
  case True
  then show ?thesis by (simp add: pruneLocked_def)
next
  case False
  obtain r st1 where g: "Generations bk st = (r, st1)" by fastforce
  have L: "invar st1" "snap st1 = snap st" "seg st1 = seg st"
    using list_generations [OF assms(1) g] by simp_all
  show ?thesis
  proof (cases r)
    case (Inl e)
    then show ?thesis using False g L by (simp add: pruneLocked_def)
  next
    case (Inr gens)
    have "\<forall>x \<in> set gens. ParseGenerationID (g_ID x) = Inr (g_CreatedAt x) \<and> names (g_ID x)"
      using list_generations [OF assms(1) g] Inr by simp
    then have "\<forall>x \<in> set gens. names (g_ID x) \<and>
        (prunable b (now - Retention (b_cfg b)) x \<longrightarrow> g_ID x \<noteq> g)"
      using assms(2,3) by (auto simp: prunable_def)
    from prune_each_keeps [OF L(1) this] show ?thesis using False g Inr L by (simp add: pruneLocked_def)
  qed
qed

text \<open>When every deletion succeeds, what is prunable and listed is gone.\<close>

lemma prune_each_deletes:
  assumes "invar st" and "P st" and "\<And>g st. P st \<Longrightarrow> fst (DeleteGeneration bk g st) = None \<and>
      P (snd (DeleteGeneration bk g st))"
    and "snap st g = None \<and> seg st g = (\<lambda>_. None) \<or> (\<exists>x \<in> set gs. prunable b c x \<and> g_ID x = g)"
    and "\<forall>x \<in> set gs. names (g_ID x)"
  shows "snap (prune_each bk b c gs st) g = None \<and> seg (prune_each bk b c gs st) g = (\<lambda>_. None)"
  using assms(1,2,4,5)
proof (induction gs arbitrary: st)
  case (Cons x gs)
  show ?case
  proof (cases "prunable b c x")
    case True
    obtain st1 where d: "DeleteGeneration bk (g_ID x) st = (None, st1)" and p: "P st1"
      using assms(3) [OF Cons.prems(2), of "g_ID x"] by (cases "DeleteGeneration bk (g_ID x) st") auto
    have D: "invar st1" "snap st1 = (snap st)(g_ID x := None)" "seg st1 = (seg st)(g_ID x := (\<lambda>_. None))"
      using delete_ok [OF Cons.prems(1) d] Cons.prems(4) by simp_all
    have "snap st1 g = None \<and> seg st1 g = (\<lambda>_. None) \<or> (\<exists>x \<in> set gs. prunable b c x \<and> g_ID x = g)"
      using Cons.prems(3) D(2,3) by (cases "g = g_ID x") auto
    then show ?thesis using Cons.IH [OF D(1) p] Cons.prems(4) True d by simp
  next
    case False
    then show ?thesis using Cons.IH [OF Cons.prems(1,2)] Cons.prems(3,4) by auto
  qed
qed simp

lemma newest_pruned:
  "newest snp g \<Longrightarrow> (\<forall>h. snp h = None \<longrightarrow> snp' h = None) \<Longrightarrow> newest snp' g"
  unfolding newest_def by metis

lemma takeSnapshot_inv:
  assumes "takeSnapshot cd bk E b w = (None, b', w')"
    and "invar (w_backend w)" and "wal_apply_ok fw" and "codec_ok cd" and "env_ok fw E" and "db_ok (w_files w)"
    and "0 \<le> e_now E 0" and "in_i64 (e_now E 0)"
    and "\<forall>g t. snap (w_backend w) g \<noteq> None \<longrightarrow> ParseGenerationID g = Inr t \<longrightarrow> t < e_now E 0"
    and "\<forall>k. seg (w_backend w) (NewGenerationID (e_now E 0) (e_rand E)) k = None"
  shows "chain_inv fw cd (snap (w_backend w')) (seg (w_backend w')) b' (w_files w') (f_main (w_files w')) [] \<and>
    invar (w_backend w')"
proof -
  define g where "g = NewGenerationID (e_now E 0) (e_rand E)"
  define f1 where "f1 = e_other E 0 (w_files w)"
  define f2 where "f2 = snd (e_ckpt E f1)"
  define f3 where "f3 = e_other E 1 f2"
  have other: "db_ok f'" if "(other_step fw)\<^sup>*\<^sup>* f f'" "db_ok f" for f f'
    using that by (induction rule: rtranclp_induct) (auto intro: db_ok_other)
  have ok1: "db_ok f1" unfolding f1_def using env_okD(2) [OF assms(5)] assms(6) by (rule other)
  then have "db_ok f2" unfolding f2_def by (rule db_ok_ckpt [OF env_okD(1) [OF assms(5) ok1]])
  then have ok: "db_ok f3" unfolding f3_def using env_okD(2) [OF assms(5)] by (rule other [rotated])
  have e: "e_readmain E = None"
    using assms(1) by (cases "e_readmain E") (simp_all add: takeSnapshot_def others_def open_file_def Let_def)
  obtain gz sz where z: "gzipBytes cd (f_main f3) = Inr (gz, sz)"
    using assms(1) e by (cases "gzipBytes cd (f_main f3)")
      (auto simp: takeSnapshot_def others_def open_file_def Let_def f1_def f2_def f3_def)
  obtain we st where s: "WriteSnapshot bk g gz (w_backend w) = (we, st)" by fastforce
  have we: "we = None"
    using assms(1) e z s by (cases we)
      (simp_all add: takeSnapshot_def others_def open_file_def Let_def f1_def f2_def f3_def g_def)
  have r: "b_generation b' = g" "b_walIndex b' = 0" "b_walOffset b' = 0" "w_files w' = f3"
    "w_backend w' = pruneLocked bk (e_now E 2) b' st"
    using assms(1) e z s we
    by (auto simp: takeSnapshot_def others_def open_file_def Let_def f1_def f2_def f3_def g_def)
  have W: "invar st" "snap st = (snap (w_backend w))(g := Some gz)" "seg st = seg (w_backend w)"
    using snapshot_ok [OF assms(2)] s we new_name by (simp_all add: g_def)
  have "newest (snap st) g"
    unfolding newest_def W g_def using Parse_NewGenerationID [OF assms(7,8)] assms(9)
    by (metis fun_upd_other linorder_not_less)
  then have n: "newest (snap (w_backend w')) g"
    unfolding r by (rule newest_pruned) (use pruneLocked_frame [OF W(1)] in blast)
  have gr: "gzip_read cd gz = Inr (f_main f3)"
    using z assms(4) by (auto simp: gzipBytes_def codec_ok_def split: sum.splits)
  note P = pruneLocked_frame [OF W(1), of "e_now E 2" b', folded r(5), unfolded r(1)]
  have "chain_inv fw cd (snap (w_backend w')) (seg (w_backend w')) b' f3 (f_main f3) []"
    using P W n assms(10) ok gr r(1-3) NewGenerationID_not_Nil
    by (intro chain_inv_new [where g = g and z = gz]) (simp_all add: g_def)
  then show ?thesis using P r(4) by simp
qed

end

subsection \<open>One sync\<close>

text \<open>The segment the engine is about to write, and the ways \<open>ship\<close> ends.\<close>

abbreviation next_seg :: "env \<Rightarrow> backupManager \<Rightarrow> int \<Rightarrow> WALSegmentInfo" where
  "next_seg E b sz \<equiv> \<lparr> s_Index = b_walIndex b, s_Offset = int (b_walOffset b), s_Size = sz,
     s_CreatedAt = e_now E 0 \<rparr>"

lemma ship_cases:
  assumes "ship cd bk E c b w = (e, b', w')"
  obtains (unread) x where "e = Some x" "b' = b" "w' = w"
  | (refused) gz sz x st where
      "WriteWALSegment bk (b_generation b) (next_seg E b sz) gz (w_backend w) = (Some x, st)"
      "e = Some (Wrapped ''write segment'' x)" "b' = b" "w' = w\<lparr>w_backend := st\<rparr>"
  | (shipped) wal gz sz st where "f_wal (w_files w) = Some wal"
      "gzipBytes cd (drop (b_walOffset b) (take c wal)) = Inr (gz, sz)"
      "WriteWALSegment bk (b_generation b) (next_seg E b sz) gz (w_backend w) = (None, st)"
      "maybeCheckpoint E c (b\<lparr>b_walOffset := c, b_status := (b_status b)\<lparr>st_LastSyncAt := e_now E 1\<rparr>\<rparr>)
         (w\<lparr>w_backend := st\<rparr>) = (e, b', w')"
proof (cases "read_range E (f_wal (w_files w)) (b_walOffset b) c")
  case (Inl x)
  then show thesis using assms by (intro unread [of x]) (simp_all add: ship_def)
next
  case (Inr dat)
  then obtain wal where wal: "f_wal (w_files w) = Some wal" "dat = drop (b_walOffset b) (take c wal)"
    by (cases "f_wal (w_files w)")
      (auto simp: read_range_def open_file_def split: option.splits if_splits)
  show thesis
  proof (cases "gzipBytes cd dat")
    case (Inl x)
    then show thesis using assms Inr by (intro unread [of x]) (simp_all add: ship_def)
  next
    fix zs assume "gzipBytes cd dat = Inr zs"
    then obtain gz sz where z: "gzipBytes cd dat = Inr (gz, sz)" by (cases zs) auto
    obtain we st where wr: "WriteWALSegment bk (b_generation b) (next_seg E b sz) gz (w_backend w) = (we, st)"
      by fastforce
    note S = assms [unfolded ship_def Let_def, simplified Inr z wr sum.case prod.case]
    show thesis
    proof (cases we)
      case None
      then show thesis using S Inr z wr wal by (intro shipped) simp_all
    next
      case (Some x)
      then show thesis using S Inr z wr by (intro refused [of sz gz x st]) auto
    qed
  qed
qed

text \<open>A sync reports that its segment could not be written, and yet the backend has it: the reply to
  the write was lost.\<close>

definition lost_write ::
  "codec \<Rightarrow> 'b backend_ops \<Rightarrow> ('b \<Rightarrow> string \<Rightarrow> string \<Rightarrow> bytes option) \<Rightarrow> env \<Rightarrow> backupManager \<Rightarrow> 'b world \<Rightarrow> bool" where
  "lost_write cd bk sgs E b w \<longleftrightarrow>
     (\<exists>x b' w'. sync cd bk E b w = (Some (Wrapped ''write segment'' x), b', w') \<and>
        sgs (w_backend w') \<noteq> sgs (w_backend w))"

context backup_backend
begin

text \<open>Shipping adds the next segment to the chain, or nothing when it fails; whatever is added, the
  chain then gives what the scan of the WAL found committed.\<close>

lemma ship_inv:
  assumes "ship cd bk E c b w = (e, b', w')"
    and inv: "chain_inv fw cd (snap (w_backend w)) (seg (w_backend w)) b (w_files w) base ch"
    and "invar (w_backend w)" and "wal_apply_ok fw" and "codec_ok cd" and "env_ok fw E"
    and wal: "f_wal (w_files w) = Some wal" "walCommittedSize (Inr wal) = Inr (h, c')"
      "salts_of h = (b_salt1 b, b_salt2 b)" "c \<le> c'" "f_backfill (w_files w) \<le> c" "b_walOffset b < c"
    and now: "0 \<le> e_now E 0" "in_i64 (e_now E 0)" "\<forall>x \<in> set ch. s_CreatedAt (fst x) \<le> e_now E 0"
    and i64: "in_i64 (b_walIndex b)" "in_i64 (int (b_walOffset b))"
    and "e_stat E = None"
    and due: "CheckpointThreshold (b_cfg b) \<le> int c \<Longrightarrow>
      wal_state (w_files w) = Inr (h, c) \<and> (\<forall>f. e_other E 1 f = f)"
    and kept: "\<And>x. e = Some (Wrapped ''write segment'' x) \<Longrightarrow> seg (w_backend w') = seg (w_backend w)"
  shows "\<exists>more. chain_inv fw cd (snap (w_backend w')) (seg (w_backend w')) b' (w_files w') base (ch @ more) \<and>
    invar (w_backend w') \<and> b_generation b' = b_generation b \<and>
    (\<forall>x \<in> set more. s_CreatedAt (fst x) = e_now E 0) \<and>
    (more = [] \<and> e \<noteq> None \<or>
     length more \<le> 1 \<and> replay fw (ch @ more) base = fw (f_main (w_files w)) (take c wal))"
proof -
  have nm: "names (b_generation b)"
    using snap_name [OF assms(3), of "b_generation b"] inv by (auto simp: chain_inv_def)
  have ok: "seg_ok (next_seg E b sz)" for sz using inv now i64 by (simp add: seg_ok_def chain_inv_def)
  from assms(1) show ?thesis
  proof (cases rule: ship_cases)
    case (unread x)
    then show ?thesis using inv assms(3) by (intro exI [of _ "[]"]) simp
  next
    case (refused gz sz x st)
    have "snap st = snap (w_backend w) \<and> seg st = seg (w_backend w) \<and> invar st"
      using segment_frame [OF assms(3) ok refused(1) nm] kept [OF refused(2)] refused(4) by simp
    then show ?thesis using refused inv by (intro exI [of _ "[]"]) simp
  next
    case (shipped wal' gz sz st)
    define b2 where "b2 = b\<lparr>b_walOffset := c, b_status := (b_status b)\<lparr>st_LastSyncAt := e_now E 1\<rparr>\<rparr>"
    define sg where "sg = next_seg E b sz"
    define dat where "dat = drop (b_walOffset b) (take c wal)"
    have "wal' = wal" using shipped(1) wal(1) by simp
    then have gr: "gzip_read cd gz = Inr dat"
      using shipped(2) assms(5) by (auto simp: gzipBytes_def codec_ok_def dat_def split: sum.splits)
    have W: "invar st" "snap st = snap (w_backend w)"
      "seg st = (seg (w_backend w))(b_generation b := (seg (w_backend w) (b_generation b))(segmentKey sg := Some gz))"
      using segment_ok [OF assms(3) ok] shipped(3) nm by (simp_all add: sg_def)
    have side: "c \<le> length wal" "s_Index sg = b_walIndex b" "s_Offset sg = int (b_walOffset b)" "seg_ok sg"
      "\<forall>x \<in> set ch. s_CreatedAt (fst x) \<le> s_CreatedAt sg"
      using wal(4) walCommittedSize_bounds(2) [OF wal(2)] ok now(3) by (simp_all add: sg_def)
    note C = chain_ship [OF inv wal side(1) dat_def side(2-5) gr refl b2_def]
    have I: "chain_inv fw cd (snap st) (seg st) b2 (w_files (w\<lparr>w_backend := st\<rparr>)) base (ch @ [(sg, dat)])"
      unfolding W using C(1) by simp
    have "0 < c" using wal(6) by simp
    have "chain_inv fw cd (snap st) (seg st) b' (w_files w') base (ch @ [(sg, dat)]) \<and>
        w_backend w' = w_backend (w\<lparr>w_backend := st\<rparr>) \<and> b_generation b' = b_generation b2"
      using shipped(4) [folded b2_def] I assms(4,6,18) \<open>0 < c\<close>
      by (rule maybeCheckpoint_inv [where h = h]) (use due wal(3) in \<open>simp_all add: b2_def\<close>)
    then show ?thesis using W(1) C(2) by (intro exI [of _ "[(sg, dat)]"]) (simp add: sg_def b2_def)
  qed
qed

text \<open>One sync: the chain grows by at most one segment stamped with the current time, and when it
  grows, or no error is reported, it gives the committed contents the sync found.\<close>

lemma sync_inv:
  assumes "sync cd bk E b w = (e, b', w')"
    and "chain_inv fw cd (snap (w_backend w)) (seg (w_backend w)) b (w_files w) base ch"
    and "invar (w_backend w)" and "wal_apply_ok fw" and "codec_ok cd" and "env_ok fw E"
    and "calm E b (w_files w)"
    and "0 \<le> e_now E 0" and "in_i64 (e_now E 0)" and "\<forall>x \<in> set ch. s_CreatedAt (fst x) \<le> e_now E 0"
    and "in_i64 (b_walIndex b + 1)" and "\<forall>h c. wal_state (w_files w) = Inr (h, c) \<longrightarrow> in_i64 (int c)"
    and "\<not> lost_write cd bk seg E b w"
  shows "\<exists>more. chain_inv fw cd (snap (w_backend w')) (seg (w_backend w')) b' (w_files w') base (ch @ more) \<and>
    invar (w_backend w') \<and> b_generation b' = b_generation b \<and>
    (\<forall>x \<in> set more. s_CreatedAt (fst x) = e_now E 0) \<and>
    (more = [] \<and> e \<noteq> None \<or> length more \<le> 1 \<and> replay fw (ch @ more) base = db_image fw (w_files w))"
proof (cases "e_scan E")
  case (Some x)
  then have "x \<noteq> ErrNotExist" using assms(7) by (simp add: calm_def)
  then have "b' = b \<and> w' = w \<and> e \<noteq> None"
    using assms(1,2) Some by (auto simp: sync_def chain_inv_def scan_file_def open_file_def walCommittedSize_def is_not_exist_def)
  then show ?thesis using assms(2,3) by (intro exI [of _ "[]"]) simp
next
  case None
  let ?f = "w_files w"
  have gen: "b_generation b \<noteq> ''''" using assms(2) by (simp add: chain_inv_def)
  have scan: "walCommittedSize (scan_file E (f_wal ?f)) = wal_state ?f"
    using assms(7) None by (simp add: calm_def wal_state_def scan_file_def split: sum.split)
  have kept: "seg (w_backend w') = seg (w_backend w)" if "e = Some (Wrapped ''write segment'' x)" for x
    using assms(1,13) that by (auto simp: lost_write_def)
  show ?thesis
  proof (cases "wal_state ?f")
    case (Inl err)
    then have "b' = b \<and> w' = w" using assms(1) gen scan by (auto simp: sync_def split: if_splits)
    then show ?thesis using assms(2,3) chain_no_wal [OF assms(2) Inl assms(4)]
      by (intro exI [of _ "[]"]) simp
  next
    case (Inr r)
    then obtain h c where st: "wal_state ?f = Inr (h, c)" by (cases r) simp
    define b1 where "b1 = track_salts h b"
    obtain wal where wal: "f_wal ?f = Some wal" "walCommittedSize (Inr wal) = Inr (h, c)"
      using st by (rule wal_state_Inr)
    have B: "chain_inv fw cd (snap (w_backend w)) (seg (w_backend w)) b1 ?f base ch"
      "b_generation b1 = b_generation b" "b_cfg b1 = b_cfg b" "salts_of h = (b_salt1 b1, b_salt2 b1)"
      "b_walIndex b1 = b_walIndex b \<or> b_walIndex b1 = b_walIndex b + 1"
      using chain_track [OF assms(2) st b1_def] by simp_all
    note T = chain_tracked [OF B(1) wal B(4)]
    have S: "(if c \<le> b_walOffset b1 then maybeCheckpoint E c b1 w
        else ship cd bk E c b1 (others E 0 w)) = (e, b', w')"
      using assms(1) gen st by (simp add: sync_def scan b1_def Let_def split: if_splits)
    show ?thesis
    proof (cases "c \<le> b_walOffset b1")
      case True
      then have "maybeCheckpoint E c b1 w = (e, b', w')" "b_walOffset b1 = c" using S T by simp_all
      moreover have "0 < c" using wal(2) by (rule committed_pos)
      ultimately have "chain_inv fw cd (snap (w_backend w)) (seg (w_backend w)) b' (w_files w') base ch \<and>
          w_backend w' = w_backend w \<and> b_generation b' = b_generation b1"
        using B(1) assms(4,6,7) st B(3,4)
        by (intro maybeCheckpoint_inv [where h = h and c = c]) (auto simp: calm_def)
      then show ?thesis using T \<open>b_walOffset b1 = c\<close> assms(3,4) B(2) by (intro exI [of _ "[]"]) auto
    next
      case False
      define w1 where "w1 = others E 0 w"
      have g0: "wal_grows ?f (w_files w1)" and w1: "w_backend w1 = w_backend w"
        using assms(7) by (simp_all add: calm_def w1_def others_def)
      have I1: "chain_inv fw cd (snap (w_backend w1)) (seg (w_backend w1)) b1 (w_files w1) base ch"
        using B(1) files_rel_grows [OF g0] db_ok_grows [OF g0] by (auto simp: chain_inv_def w1)
      obtain wal' c' where wal': "f_wal (w_files w1) = Some wal'" "walCommittedSize (Inr wal') = Inr (h, c')"
        "c \<le> c'" "take c wal' = take c wal" "f_backfill (w_files w1) = f_backfill ?f" "f_main (w_files w1) = f_main ?f"
        using g0 wal by (cases rule: wal_grows_cases) auto
      have i64: "in_i64 (b_walIndex b1)" "in_i64 (int (b_walOffset b1))"
        using assms(2,11,12) B(5) st False by (auto simp: chain_inv_def in_i64_def i64_min_def)
      have due: "wal_state (w_files w1) = Inr (h, c) \<and> (\<forall>f. e_other E 1 f = f)"
        if "CheckpointThreshold (b_cfg b1) \<le> int c"
        using assms(7) st B(3) that by (auto simp: calm_def w1_def others_def)
      have "ship cd bk E c b1 w1 = (e, b', w')" using S False by (simp add: w1_def)
      from ship_inv [OF this I1 _ assms(4-6) wal'(1,2) B(4) wal'(3) _ _ assms(8-10) i64 _ due] kept
      have "\<exists>more. chain_inv fw cd (snap (w_backend w')) (seg (w_backend w')) b' (w_files w') base (ch @ more) \<and>
          invar (w_backend w') \<and> b_generation b' = b_generation b1 \<and>
          (\<forall>x \<in> set more. s_CreatedAt (fst x) = e_now E 0) \<and>
          (more = [] \<and> e \<noteq> None \<or>
           length more \<le> 1 \<and> replay fw (ch @ more) base = fw (f_main ?f) (take c wal))"
        using T False assms(3,7) wal'(4-6) w1 by (simp add: calm_def)
      moreover have "db_image fw ?f = fw (f_main ?f) (take c wal)"
        using assms(4) wal unfolding wal_apply_ok_def by (auto simp: db_image_def)
      ultimately show ?thesis using B(2) by simp
    qed
  qed
qed

end

end
