(* ===== verification/Backup_Recovery.thy ===== *)
theory Backup_Recovery
  imports Backup_Chain
begin

text \<open>
  Backup and restore together: what restore reads back of a generation is the engine's chain,
  so a restore rebuilds the committed contents of the database as of the last successful sync,
  or as of the last one up to the requested moment; and the executions in which it does not.
\<close>

subsection \<open>What restore reads back is the chain\<close>

definition sizeless :: "WALSegmentInfo \<Rightarrow> WALSegmentInfo" where
  "sizeless s = s\<lparr>s_Size := 0\<rparr>"

lemma sizeless_simps [simp]:
  "s_Index (sizeless s) = s_Index s" "s_Offset (sizeless s) = s_Offset s"
  "s_CreatedAt (sizeless s) = s_CreatedAt s" "seg_key (sizeless s) = seg_key s"
  "segmentKey (sizeless s) = segmentKey s" "seg_at ts (sizeless s) = seg_at ts s"
  "seg_data cd objs (sizeless s) = seg_data cd objs s"
  by (simp_all add: sizeless_def seg_key_def segmentKey_def seg_at_def seg_data_def)

lemma contig_sizeless: "contig n (map (apfst sizeless) l) = contig n l"
  by (induction n l rule: contig.induct) simp_all

lemma replay_sizeless: "replay fw (map (apfst sizeless) l) m = replay fw l m"
proof -
  have "of_index i (map (apfst sizeless) l) = map (apfst sizeless) (of_index i l)" for i
    by (simp add: of_index_def filter_map comp_def)
  moreover have "map (s_Index \<circ> fst) (map (apfst sizeless) l) = map (s_Index \<circ> fst) l" by simp
  ultimately show ?thesis by (simp add: replay_def replay_index_def contig_sizeless del: map_map)
qed

lemma chain_listing:
  assumes "chain_objs cd objs ch" and "chain_wf ch i n" and "lists_segs objs l"
  shows "map sizeless l = map (sizeless \<circ> fst) ch"
proof (rule map_sorted_distinct_set_unique [where f = seg_key])
  have ok: "\<forall>x \<in> set ch. seg_ok (fst x)" "sorted_wrt (<) (map (seg_key \<circ> fst) ch)"
    using assms(2) by (simp_all add: chain_wf_def)
  have L: "sorted (map seg_key l)" "distinct (map segmentKey l)" "\<forall>x \<in> set l. seg_ok x"
    "\<And>s. seg_ok s \<Longrightarrow> (segmentKey s \<in> segmentKey ` set l) = (objs (segmentKey s) \<noteq> None)"
    using assms(3) by (simp_all add: lists_segs_def)
  have C: "(objs (segmentKey s) \<noteq> None) = (segmentKey s \<in> segmentKey ` fst ` set ch)" if "seg_ok s" for s
    using assms(1) that by (simp add: chain_objs_def)
  have inj: "sizeless s = sizeless t" if "segmentKey s = segmentKey t" "seg_ok s" "seg_ok t" for s t
    using that segmentKey_inj unfolding sizeless_def by blast
  show eq: "set (map sizeless l) = set (map (sizeless \<circ> fst) ch)"
  proof (intro equalityI subsetI)
    fix x assume "x \<in> set (map sizeless l)"
    then obtain s where s: "x = sizeless s" "s \<in> set l" by auto
    then obtain y where "y \<in> set ch" "segmentKey s = segmentKey (fst y)"
      using L(3,4) C by (metis (no_types, lifting) imageE image_eqI)
    then show "x \<in> set (map (sizeless \<circ> fst) ch)" using inj [of s "fst y"] s L(3) ok(1) by auto
  next
    fix x assume "x \<in> set (map (sizeless \<circ> fst) ch)"
    then obtain y where y: "x = sizeless (fst y)" "y \<in> set ch" by auto
    then obtain s where "s \<in> set l" "segmentKey s = segmentKey (fst y)"
      using L(4) C ok(1) by (metis (no_types, lifting) imageE image_eqI)
    then have "x = sizeless s" using inj [of s "fst y"] y L(3) ok(1) by simp
    then show "x \<in> set (map sizeless l)" using \<open>s \<in> set l\<close> by simp
  qed
  have k: "map seg_key (map (sizeless \<circ> fst) ch) = map (seg_key \<circ> fst) ch" by simp
  show d2: "distinct (map seg_key (map (sizeless \<circ> fst) ch))"
    unfolding k using ok(2) by (simp add: strict_sorted_iff)
  show "sorted (map seg_key (map (sizeless \<circ> fst) ch))"
    unfolding k using ok(2) by (simp add: strict_sorted_iff)
  show "sorted (map seg_key (map sizeless l))" using L(1) by (simp add: comp_def)
  have "distinct (map segmentKey (map sizeless l))" using L(2) by (simp add: comp_def)
  then have "distinct (map sizeless l)" by (simp only: distinct_map)
  moreover have i: "inj_on seg_key (set (map (sizeless \<circ> fst) ch))"
    using d2 by (simp only: distinct_map)
  ultimately show "distinct (map seg_key (map sizeless l))" unfolding eq [symmetric] by (simp only: distinct_map)
  show "inj_on seg_key (set (map sizeless l) \<union> set (map (sizeless \<circ> fst) ch))" using i eq by simp
qed

lemma before_sizeless: "before k (map (apfst sizeless) l) = map (apfst sizeless) (before k l)"
  by (simp add: before_def filter_map comp_def)

lemma listing_sizeless:
  assumes "chain_objs cd objs ch" and "chain_wf ch i n" and "lists_segs objs l"
  shows "map (apfst sizeless) (with_data cd objs (filter (seg_at ts) l)) =
    map (apfst sizeless) (filter (seg_at ts \<circ> fst) ch)"
proof -
  have m: "map (apfst sizeless) (with_data cd objs (filter (seg_at ts) k)) =
      map (\<lambda>s. (s, seg_data cd objs s)) (filter (seg_at ts) (map sizeless k))" for k
    by (simp add: with_data_def filter_map comp_def)
  have d: "seg_data cd objs (fst x) = snd x" if "x \<in> set ch" for x
    using assms(1) that by (auto simp: chain_objs_def seg_data_def)
  have f: "filter (seg_at ts \<circ> fst) ch = with_data cd objs (filter (seg_at ts) (map fst ch))"
    unfolding with_data_def filter_map map_map comp_def
    by (rule sym, rule map_idI) (simp add: d)
  show ?thesis unfolding f m using chain_listing [OF assms] by simp
qed

lemma replay_listing:
  assumes "chain_objs cd objs ch" and "chain_wf ch i n" and "lists_segs objs l"
  shows "replay fw (with_data cd objs (filter (seg_at ts) l)) base =
    replay fw (filter (seg_at ts \<circ> fst) ch) base"
  using listing_sizeless [OF assms] by (metis replay_sizeless)

lemma replay_listing_before:
  assumes "chain_objs cd objs ch" and "chain_wf ch i n" and "lists_segs objs l"
  shows "replay fw (before k (with_data cd objs (filter (seg_at ts) l))) base =
    replay fw (before k (filter (seg_at ts \<circ> fst) ch)) base"
  using listing_sizeless [OF assms] by (metis before_sizeless replay_sizeless)

context backup_backend
begin

text \<open>
  Restoring without a timestamp replays the whole chain of the engine's generation; with one
  that is not before the generation, the segments stamped up to it.
\<close>

lemma Restore_chain:
  assumes "Restore cd bk q dir opts s b = (None, s', b')"
    and "chain_inv fw cd (snap b) (seg b) mg f base ch"
    and "invar b" and "sqlite_ok fw q" and "fs_wf s"
    and "opt_ts opts = zero_time \<or> (\<exists>t. ParseGenerationID (b_generation mg) = Inr t \<and> t \<le> opt_ts opts)"
  shows "node_at s' (dir @ [opt_db opts @ ''.db'']) =
    Some (File (replay fw (filter (seg_at (opt_ts opts) \<circ> fst) ch) base))"
proof -
  from Restore_ok [OF assms(1,3-5)] obtain g z S l where
    g: "gen_at (opt_ts opts) g" "ParseGenerationID (g_ID g) = Inr (g_CreatedAt g)"
      "\<forall>g' t. snap b g' \<noteq> None \<longrightarrow> ParseGenerationID g' = Inr t \<longrightarrow>
        gen_at (opt_ts opts) \<lparr>g_ID = g', g_CreatedAt = t\<rparr> \<longrightarrow> t \<le> g_CreatedAt g"
    and z: "snap b (g_ID g) = Some z" "gzip_read cd z = Inr S"
    and l: "lists_segs (seg b (g_ID g)) l"
    and fin: "node_at s' (dir @ [opt_db opts @ ''.db'']) =
      Some (File (replay fw (with_data cd (seg b (g_ID g)) (filter (seg_at (opt_ts opts)) l)) S))"
    by blast
  from assms(2) obtain z' t where
    c: "snap b (b_generation mg) = Some z'" "gzip_read cd z' = Inr base"
      "ParseGenerationID (b_generation mg) = Inr t"
      "\<forall>g' t'. snap b g' \<noteq> None \<longrightarrow> ParseGenerationID g' = Inr t' \<longrightarrow> t \<le> t' \<longrightarrow> g' = b_generation mg"
      "chain_objs cd (seg b (b_generation mg)) ch" "chain_wf ch (b_walIndex mg) (b_walOffset mg)"
    unfolding chain_inv_def newest_def by blast
  have "gen_at (opt_ts opts) \<lparr>g_ID = b_generation mg, g_CreatedAt = t\<rparr>"
    using assms(6) c(3) by (auto simp: gen_at_def)
  then have "t \<le> g_CreatedAt g" using g(3) c(1,3) by blast
  then have same: "g_ID g = b_generation mg" using c(4) g(2) z(1) by blast
  then have "S = base" using z c(1,2) by simp
  then show ?thesis using fin l replay_listing [OF c(5,6)] same by simp
qed

end

subsection \<open>Executions\<close>

text \<open>
  A state is the last clock reading of the engine, the engine, and the world. Executions begin
  with a successful snapshot and go on with steps of other connections, turns of the engine's
  loop that sync (whatever their outcome), and successful snapshots. \<open>snp\<close> and \<open>sgs\<close> are the
  backend's objects.
\<close>

type_synonym 'b run_state = "instant \<times> backupManager \<times> 'b world"

text \<open>The conditions on the environment of a sync: the documented behaviour of SQLite and the
  other connections, no commit in the window before a checkpoint, a clock that does not run
  backwards, and sizes that fit an \<open>int64\<close>.\<close>

definition sync_env ::
  "(bytes \<Rightarrow> bytes \<Rightarrow> bytes) \<Rightarrow> env \<Rightarrow> instant \<Rightarrow> backupManager \<Rightarrow> db_files \<Rightarrow> bool" where
  "sync_env fw E t b f \<longleftrightarrow> env_ok fw E \<and> calm E b f \<and> 0 \<le> e_now E 0 \<and> in_i64 (e_now E 0) \<and>
     t \<le> e_now E 0 \<and> in_i64 (b_walIndex b + 1) \<and> (\<forall>h c. wal_state f = Inr (h, c) \<longrightarrow> in_i64 (int c))"

text \<open>And of a snapshot: the clock is past every generation in the backend, and the new
  generation's name (time and 32 random bits) is not in use.\<close>

definition snap_env ::
  "(bytes \<Rightarrow> bytes \<Rightarrow> bytes) \<Rightarrow> ('b \<Rightarrow> string \<Rightarrow> bytes option) \<Rightarrow> ('b \<Rightarrow> string \<Rightarrow> string \<Rightarrow> bytes option) \<Rightarrow>
   env \<Rightarrow> 'b world \<Rightarrow> bool" where
  "snap_env fw snp sgs E w \<longleftrightarrow> env_ok fw E \<and> db_ok (w_files w) \<and> 0 \<le> e_now E 0 \<and> in_i64 (e_now E 0) \<and>
     (\<forall>g t. snp (w_backend w) g \<noteq> None \<longrightarrow> ParseGenerationID g = Inr t \<longrightarrow> t < e_now E 0) \<and>
     (\<forall>k. sgs (w_backend w) (NewGenerationID (e_now E 0) (e_rand E)) k = None)"

text \<open>
  Two conditions of an execution are left open: \<open>P\<close> on every sync (its environment, the engine and
  the world when it begins) and \<open>S\<close> on the main file that a snapshot has copied.
\<close>

inductive run_with ::
  "(bytes \<Rightarrow> bytes \<Rightarrow> bytes) \<Rightarrow> codec \<Rightarrow> 'b backend_ops \<Rightarrow> ('b \<Rightarrow> string \<Rightarrow> bytes option) \<Rightarrow>
   ('b \<Rightarrow> string \<Rightarrow> string \<Rightarrow> bytes option) \<Rightarrow> ('b \<Rightarrow> bool) \<Rightarrow>
   (env \<Rightarrow> backupManager \<Rightarrow> 'b world \<Rightarrow> bool) \<Rightarrow> (bytes \<Rightarrow> bool) \<Rightarrow> 'b run_state \<Rightarrow> bool"
  for fw cd bk snp sgs ok P S where
  opened: "ok (w_backend w) \<Longrightarrow> snap_env fw snp sgs E w \<Longrightarrow> takeSnapshot cd bk E b w = (None, b', w') \<Longrightarrow>
    S (f_main (w_files w')) \<Longrightarrow> run_with fw cd bk snp sgs ok P S (e_now E 0, b', w')"
| conn: "run_with fw cd bk snp sgs ok P S (t, b, w) \<Longrightarrow> other_step fw (w_files w) f' \<Longrightarrow>
    run_with fw cd bk snp sgs ok P S (t, b, w\<lparr>w_files := f'\<rparr>)"
| sync: "run_with fw cd bk snp sgs ok P S (t, b, w) \<Longrightarrow> sync_env fw E t b (w_files w) \<Longrightarrow> P E b w \<Longrightarrow>
    ev = SyncTick \<or> ev = StopReq \<Longrightarrow> run_step cd bk E ev b w = (page, go, b', w') \<Longrightarrow>
    run_with fw cd bk snp sgs ok P S (e_now E 0, b', w')"
| snapped: "run_with fw cd bk snp sgs ok P S (t, b, w) \<Longrightarrow> snap_env fw snp sgs E w \<Longrightarrow>
    takeSnapshot cd bk E b w = (None, b', w') \<Longrightarrow> S (f_main (w_files w')) \<Longrightarrow>
    run_with fw cd bk snp sgs ok P S (e_now E 0, snd (report (e_now E 3) None b'), w')"

definition reachable ::
  "(bytes \<Rightarrow> bytes \<Rightarrow> bytes) \<Rightarrow> codec \<Rightarrow> 'b backend_ops \<Rightarrow> ('b \<Rightarrow> string \<Rightarrow> bytes option) \<Rightarrow>
   ('b \<Rightarrow> string \<Rightarrow> string \<Rightarrow> bytes option) \<Rightarrow> ('b \<Rightarrow> bool) \<Rightarrow> 'b run_state \<Rightarrow> bool" where
  "reachable fw cd bk snp sgs ok = run_with fw cd bk snp sgs ok (\<lambda>_ _ _. True) (\<lambda>_. True)"

lemma run_with_mono:
  assumes "run_with fw cd bk snp sgs ok P S s" and "\<And>E b w. P E b w \<Longrightarrow> P' E b w" and "\<And>m. S m \<Longrightarrow> S' m"
  shows "run_with fw cd bk snp sgs ok P' S' s"
  using assms(1)
proof induction
  case (opened w E b b' w')
  then show ?case using assms(3) by (intro run_with.opened)
next
  case (conn t b w f')
  then show ?case by (intro run_with.conn)
next
  case (sync t b w E ev page go b' w')
  then show ?case using assms(2) by (intro run_with.sync)
next
  case (snapped t b w E b' w')
  then show ?case using assms(3) by (intro run_with.snapped)
qed

definition run_inv ::
  "(bytes \<Rightarrow> bytes \<Rightarrow> bytes) \<Rightarrow> codec \<Rightarrow> ('b \<Rightarrow> string \<Rightarrow> bytes option) \<Rightarrow>
   ('b \<Rightarrow> string \<Rightarrow> string \<Rightarrow> bytes option) \<Rightarrow> ('b \<Rightarrow> bool) \<Rightarrow> 'b run_state \<Rightarrow> bytes \<Rightarrow>
   (WALSegmentInfo \<times> bytes) list \<Rightarrow> bool" where
  "run_inv fw cd snp sgs ok s base ch =
     (case s of (t, b, w) \<Rightarrow>
        chain_inv fw cd (snp (w_backend w)) (sgs (w_backend w)) b (w_files w) base ch \<and>
        ok (w_backend w) \<and> (\<forall>x \<in> set ch. s_CreatedAt (fst x) \<le> t) \<and>
        (\<exists>tg. ParseGenerationID (b_generation b) = Inr tg \<and> tg \<le> t))"

text \<open>Every database a restore goes through has the property \<open>S\<close>: the snapshot, and what it has
  become after each index.\<close>

definition good_chain ::
  "(bytes \<Rightarrow> bytes \<Rightarrow> bytes) \<Rightarrow> (bytes \<Rightarrow> bool) \<Rightarrow> bytes \<Rightarrow> (WALSegmentInfo \<times> bytes) list \<Rightarrow> bool" where
  "good_chain fw S base ch \<longleftrightarrow> S base \<and> (\<forall>i. S (replay fw (before i ch) base))"

lemma replay_Nil [simp]: "replay fw [] m = m"
  by (simp add: replay_def)

lemma good_chain_Nil: "S base \<Longrightarrow> good_chain fw S base []"
  by (simp add: good_chain_def before_def)

lemma good_chain_snoc:
  assumes "good_chain fw S base ch" and "chain_wf (ch @ [x]) i n" and "S (replay fw (ch @ [x]) base)"
  shows "good_chain fw S base (ch @ [x])"
proof -
  have lt: "seg_key (fst y) < seg_key (fst x)" if "y \<in> set ch" for y
    using assms(2) that by (auto simp: chain_wf_def sorted_wrt_append)
  have "S (replay fw (before k (ch @ [x])) base)" for k
  proof (cases "s_Index (fst x) < k")
    case True
    have "s_Index (fst y) < k" if "y \<in> set ch" for y
      using lt [OF that] True by (auto simp: seg_key_def less_prod_def')
    then have "before k (ch @ [x]) = ch @ [x]" using True by (intro before_all) auto
    then show ?thesis using assms(3) by simp
  next
    case False
    then show ?thesis using assms(1) by (simp add: before_snoc good_chain_def del: before_append)
  qed
  then show ?thesis using assms(1) by (simp add: good_chain_def)
qed

text \<open>No sync changes the generation, the count of failed syncs or the settings.\<close>

lemma maybeCheckpoint_keeps:
  "maybeCheckpoint E c b w = (e, b', w') \<Longrightarrow> b_generation b' = b_generation b \<and> b_consecErrs b' = b_consecErrs b \<and> b_cfg b' = b_cfg b"
  by (auto simp: maybeCheckpoint_def Let_def split: if_splits prod.splits option.splits)

lemma sync_keeps:
  assumes "sync cd bk E b w = (e, b', w')"
  shows "b_generation b' = b_generation b \<and> b_consecErrs b' = b_consecErrs b \<and> b_cfg b' = b_cfg b"
proof -
  have t: "b_generation (track_salts h b) = b_generation b" "b_consecErrs (track_salts h b) = b_consecErrs b"
    "b_cfg (track_salts h b) = b_cfg b" for h
    by (simp_all add: track_salts_def Let_def)
  have s: "b_generation b' = b_generation b1 \<and> b_consecErrs b' = b_consecErrs b1 \<and>
      b_cfg b' = b_cfg b1" if "ship cd bk E c b1 w1 = (e, b', w')"
    for c b1 w1
    using that by (auto simp: ship_def Let_def split: sum.splits prod.splits option.splits
        dest!: maybeCheckpoint_keeps)
  show ?thesis
    using assms t by (auto simp: sync_def Let_def split: sum.splits prod.splits if_splits
        dest!: s maybeCheckpoint_keeps)
qed

lemma sync_generation: "sync cd bk E b w = (e, b', w') \<Longrightarrow> b_generation b' = b_generation b"
  by (blast dest: sync_keeps)

lemma report_generation [simp]: "b_generation (snd (report now e b)) = b_generation b"
  by (cases e) (simp_all add: report_def Let_def)

lemma chain_inv_report:
  "chain_inv fw cd snp sgs (snd (report now e b)) f base ch = chain_inv fw cd snp sgs b f base ch"
  by (cases e) (simp_all add: report_def Let_def chain_inv_def files_rel_def live_def over_def)

lemma run_step_sync:
  assumes "run_step cd bk E ev b w = (page, go, b', w')" and "b_generation b \<noteq> ''''"
    and "ev = SyncTick \<or> ev = StopReq"
  obtains e b1 where "sync cd bk E b w = (e, b1, w')" "b' = snd (report (e_now E 3) e b1)"
proof -
  obtain e b1 w1 where s: "sync cd bk E b w = (e, b1, w1)" by (metis prod_cases3)
  have "run_op cd bk E ev b w = (e, b1, w1)" using s assms(2,3) by (auto simp: run_op_def)
  then have "w1 = w'" "b' = snd (report (e_now E 3) e b1)"
    using assms(1) by (auto simp: run_step_def split: prod.splits)
  with s that show thesis by blast
qed

text \<open>What a sync does to the backend: nothing, or one write.\<close>

lemma maybeCheckpoint_backend:
  "maybeCheckpoint E c b w = (e, b', w') \<Longrightarrow> w_backend w' = w_backend w \<and> b_walIndex b \<le> b_walIndex b' \<and>
     e \<noteq> Some (Wrapped ''write segment'' x)"
  by (auto simp: maybeCheckpoint_def others_def Let_def split: if_splits prod.splits option.splits)

lemma track_salts_fields:
  "b_generation (track_salts h b) = b_generation b" "b_cfg (track_salts h b) = b_cfg b"
  "b_walIndex (track_salts h b) = b_walIndex b \<or> b_walIndex (track_salts h b) = b_walIndex b + 1"
  by (simp_all add: track_salts_def Let_def)

lemma sync_writes:
  assumes "sync cd bk E b w = (e, b', w')"
  obtains (same) "w_backend w' = w_backend w" "b_walIndex b \<le> b_walIndex b'"
  | (wrote) h c b1 r gz sz where "walCommittedSize (scan_file E (f_wal (w_files w))) = Inr (h, c)"
      "b1 = track_salts h b" "b_walOffset b1 < c" "b_walIndex b1 \<le> b_walIndex b'"
      "WriteWALSegment bk (b_generation b) (next_seg E b1 sz) gz (w_backend w) = (r, w_backend w')"
      "r = None \<Longrightarrow> \<forall>x. e \<noteq> Some (Wrapped ''write segment'' x)"
proof (cases "b_generation b = ''''")
  case True
  then show thesis using assms by (intro same) (simp_all add: sync_def)
next
  case False
  show thesis
  proof (cases "walCommittedSize (scan_file E (f_wal (w_files w)))")
    case (Inl err)
    then show thesis using assms False by (intro same) (auto simp: sync_def split: if_splits)
  next
    case (Inr r)
    obtain h c where hc: "r = (h, c)" by fastforce
    define b1 where "b1 = track_salts h b"
    have S: "(if c \<le> b_walOffset b1 then maybeCheckpoint E c b1 w
        else ship cd bk E c b1 (others E 0 w)) = (e, b', w')"
      using assms False Inr hc by (simp add: sync_def b1_def Let_def split: if_splits)
    have t: "b_walIndex b \<le> b_walIndex b1" "b_generation b1 = b_generation b"
      using track_salts_fields [of h b] by (auto simp: b1_def)
    show thesis
    proof (cases "c \<le> b_walOffset b1")
      case True
      then have m: "maybeCheckpoint E c b1 w = (e, b', w')" using S by simp
      have "w_backend w' = w_backend w" "b_walIndex b1 \<le> b_walIndex b'"
        using maybeCheckpoint_backend [OF m, of undefined] by blast+
      with t(1) show thesis by (intro same) simp_all
    next
      case sh: False
      then have "ship cd bk E c b1 (others E 0 w) = (e, b', w')" using S by simp
      then show thesis
      proof (cases rule: ship_cases)
        case (unread x)
        then show thesis using t(1) by (intro same) (simp_all add: others_def)
      next
        case (refused gz sz x st)
        then show thesis
          using sh t by (intro wrote [OF Inr [unfolded hc] b1_def, of sz gz "Some x"]) (simp_all add: others_def)
      next
        case (shipped wal gz sz st)
        note M = maybeCheckpoint_backend [OF shipped(4)]
        show thesis
          using sh t M shipped(3)
          by (intro wrote [OF Inr [unfolded hc] b1_def, of sz gz None]) (simp_all add: others_def)
      qed
    qed
  qed
qed

text \<open>A scan cut short by a read error reports nothing: with less than a header read, a sync ships
  nothing and succeeds.\<close>

lemma cut_scan_reports_success:
  assumes "e_scan E = None" and "f_wal (w_files w) = Some d" and "e_scan_cut E = Some k" and "k < 32"
  shows "sync cd bk E b w = (None, b, w)"
proof -
  have "walCommittedSize (scan_file E (f_wal (w_files w))) = Inl ErrNotExist"
    using assms(4) by (simp add: scan_file_def open_file_def assms(1-3) walCommittedSize_def walHeaderSize_def min_def)
  then show ?thesis by (simp add: sync_def is_not_exist_def)
qed

context backup_backend
begin

lemma conn_inv:
  assumes "run_inv fw cd snap seg invar (t, b, w) base ch" and "other_step fw (w_files w) f'"
    and "wal_apply_ok fw"
  shows "run_inv fw cd snap seg invar (t, b, w\<lparr>w_files := f'\<rparr>) base ch"
  using assms chain_inv_other [OF r_into_rtranclp [of "other_step fw" "w_files w" f']]
  by (simp add: run_inv_def)

lemma sync_run_inv:
  assumes "sync cd bk E b w = (e, b', w')" and "run_inv fw cd snap seg invar (t, b, w) base ch"
    and "wal_apply_ok fw" and "codec_ok cd" and "sync_env fw E t b (w_files w)"
    and "\<not> lost_write cd bk seg E b w"
  shows "\<exists>more. run_inv fw cd snap seg invar (e_now E 0, b', w') base (ch @ more) \<and>
    b_generation b' = b_generation b \<and>
    (more = [] \<and> e \<noteq> None \<or> length more \<le> 1 \<and> replay fw (ch @ more) base = db_image fw (w_files w))"
proof -
  have I: "chain_inv fw cd (snap (w_backend w)) (seg (w_backend w)) b (w_files w) base ch"
    "invar (w_backend w)" "\<forall>x \<in> set ch. s_CreatedAt (fst x) \<le> t"
    using assms(2) by (simp_all add: run_inv_def)
  obtain tg where tg: "ParseGenerationID (b_generation b) = Inr tg" "tg \<le> t"
    using assms(2) by (auto simp: run_inv_def)
  have env: "env_ok fw E" "calm E b (w_files w)" "0 \<le> e_now E 0" "in_i64 (e_now E 0)" "t \<le> e_now E 0"
    "in_i64 (b_walIndex b + 1)" "\<forall>h c. wal_state (w_files w) = Inr (h, c) \<longrightarrow> in_i64 (int c)"
    using assms(5) by (simp_all add: sync_env_def)
  have le: "\<forall>x \<in> set ch. s_CreatedAt (fst x) \<le> e_now E 0" using I(3) env(5) by force
  from sync_inv [OF assms(1) I(1,2) assms(3,4) env(1-4) le env(6,7) assms(6)] obtain more where
    M: "chain_inv fw cd (snap (w_backend w')) (seg (w_backend w')) b' (w_files w') base (ch @ more)"
    "invar (w_backend w')" "b_generation b' = b_generation b" "\<forall>x \<in> set more. s_CreatedAt (fst x) = e_now E 0"
    "more = [] \<and> e \<noteq> None \<or> length more \<le> 1 \<and> replay fw (ch @ more) base = db_image fw (w_files w)" by blast
  have "run_inv fw cd snap seg invar (e_now E 0, b', w') base (ch @ more)"
    using M(1-4) le tg env(5) by (auto simp: run_inv_def)
  with M(3,5) show ?thesis by blast
qed

lemma snapshot_run_inv:
  assumes "takeSnapshot cd bk E b w = (None, b', w')" and "snap_env fw snap seg E w"
    and "invar (w_backend w)" and "wal_apply_ok fw" and "codec_ok cd"
  shows "run_inv fw cd snap seg invar (e_now E 0, b', w') (f_main (w_files w')) []"
proof -
  have env: "env_ok fw E" "db_ok (w_files w)" "0 \<le> e_now E 0" "in_i64 (e_now E 0)"
    "\<forall>g t. snap (w_backend w) g \<noteq> None \<longrightarrow> ParseGenerationID g = Inr t \<longrightarrow> t < e_now E 0"
    "\<forall>k. seg (w_backend w) (NewGenerationID (e_now E 0) (e_rand E)) k = None"
    using assms(2) by (simp_all add: snap_env_def)
  have "b_generation b' = NewGenerationID (e_now E 0) (e_rand E)"
    using assms(1) by (auto simp: takeSnapshot_def Let_def split: sum.splits prod.splits option.splits)
  then show ?thesis
    using takeSnapshot_inv [OF assms(1,3,4,5) env] Parse_NewGenerationID [OF env(3,4)]
    by (simp add: run_inv_def)
qed

lemma run_inv_report:
  "run_inv fw cd snap seg invar (t, snd (report now e b), w) base ch = run_inv fw cd snap seg invar (t, b, w) base ch"
  by (simp add: run_inv_def chain_inv_report)

lemma run_inv_generation: "run_inv fw cd snap seg invar (t, b, w) base ch \<Longrightarrow> b_generation b \<noteq> ''''"
  by (auto simp: run_inv_def chain_inv_def)

text \<open>When no sync loses the reply of its write and all start from a good database, restores go
  through good databases only.\<close>

lemma run_with_inv:
  assumes "run_with fw cd bk snap seg invar P S s" and "wal_apply_ok fw" and "codec_ok cd"
    and "\<And>E b w. P E b w \<Longrightarrow> \<not> lost_write cd bk seg E b w \<and> S (db_image fw (w_files w))"
  shows "\<exists>base ch. run_inv fw cd snap seg invar s base ch \<and> good_chain fw S base ch"
  using assms(1)
proof induction
  case (opened w E b b' w')
  then show ?case using snapshot_run_inv assms(2,3) good_chain_Nil by blast
next
  case (conn t b w f')
  then show ?case using conn_inv assms(2) by blast
next
  case (sync t b w E ev page go b' w')
  then obtain base ch where I: "run_inv fw cd snap seg invar (t, b, w) base ch" "good_chain fw S base ch" by blast
  from run_step_sync [OF sync(5) run_inv_generation [OF I(1)] sync(4)] obtain e b1 where
    s: "sync cd bk E b w = (e, b1, w')" and b': "b' = snd (report (e_now E 3) e b1)" by blast
  have P: "\<not> lost_write cd bk seg E b w" "S (db_image fw (w_files w))" using assms(4) sync(3) by simp_all
  from sync_run_inv [OF s I(1) assms(2,3) sync(2) P(1)] obtain more where
    M: "run_inv fw cd snap seg invar (e_now E 0, b', w') base (ch @ more)"
    "more = [] \<or> length more \<le> 1 \<and> replay fw (ch @ more) base = db_image fw (w_files w)"
    unfolding b' run_inv_report by blast
  have "good_chain fw S base (ch @ more)"
  proof (cases more)
    case Nil
    then show ?thesis using I(2) by simp
  next
    case (Cons x xs)
    then have x: "more = [x]" using M(2) by simp
    have "chain_wf (ch @ [x]) (b_walIndex b') (b_walOffset b')" using M(1) x by (simp add: run_inv_def chain_inv_def)
    from good_chain_snoc [OF I(2) this] show ?thesis using M(2) P(2) x by simp
  qed
  with M(1) show ?case by blast
next
  case (snapped t b w E b' w')
  then have "invar (w_backend w)" by (auto simp: run_inv_def)
  from snapshot_run_inv [OF snapped(3,2) this assms(2,3)] show ?case
    using good_chain_Nil snapped(4) unfolding run_inv_report by blast
qed

text \<open>A successful sync at the end of such an execution, and what restore gives after it.\<close>

lemma run_with_sync:
  assumes "run_with fw cd bk snap seg invar P S (t, b, w)" and "wal_apply_ok fw" and "codec_ok cd"
    and "\<And>E b w. P E b w \<Longrightarrow> \<not> lost_write cd bk seg E b w \<and> S (db_image fw (w_files w))"
    and "sync_env fw E t b (w_files w)" and "sync cd bk E b w = (None, b', w')"
  shows "\<exists>base ch. run_inv fw cd snap seg invar (e_now E 0, b', w') base ch \<and>
    replay fw ch base = db_image fw (w_files w) \<and> b_generation b' = b_generation b \<and>
    (S (db_image fw (w_files w)) \<longrightarrow> good_chain fw S base ch)"
proof -
  from run_with_inv [OF assms(1-4)] obtain base ch where
    I: "run_inv fw cd snap seg invar (t, b, w) base ch" "good_chain fw S base ch" by blast
  have "\<not> lost_write cd bk seg E b w" using assms(6) by (simp add: lost_write_def)
  from sync_run_inv [OF assms(6) I(1) assms(2,3,5) this] obtain more where
    M: "run_inv fw cd snap seg invar (e_now E 0, b', w') base (ch @ more)" "b_generation b' = b_generation b"
    "length more \<le> 1" "replay fw (ch @ more) base = db_image fw (w_files w)" by blast
  have "good_chain fw S base (ch @ more)" if "S (db_image fw (w_files w))"
  proof (cases more)
    case Nil
    then show ?thesis using I(2) by simp
  next
    case (Cons x xs)
    then have x: "more = [x]" using M(3) by simp
    have "chain_wf (ch @ [x]) (b_walIndex b') (b_walOffset b')" using M(1) x by (simp add: run_inv_def chain_inv_def)
    from good_chain_snoc [OF I(2) this] show ?thesis using M(4) that x by simp
  qed
  with M show ?thesis by blast
qed

lemma run_then_restore:
  assumes "run_with fw cd bk snap seg invar P S (t, b, w)" and "wal_apply_ok fw" and "codec_ok cd"
    and "\<And>E b w. P E b w \<Longrightarrow> \<not> lost_write cd bk seg E b w \<and> S (db_image fw (w_files w))"
    and "sqlite_ok fw q" and "sync_env fw E t b (w_files w)"
    and "sync cd bk E b w = (None, b', w')"
    and "Restore cd bk q dir [] s (w_backend w') = (None, s', st)" and "fs_wf s"
  shows "node_at s' (dir @ [''default.db'']) = Some (File (db_image fw (w_files w)))"
proof -
  from run_with_sync [OF assms(1-4,6,7)] obtain base ch where
    M: "chain_inv fw cd (snap (w_backend w')) (seg (w_backend w')) b' (w_files w') base ch"
    "invar (w_backend w')" "replay fw ch base = db_image fw (w_files w)"
    by (auto simp: run_inv_def)
  have "filter (seg_at zero_time \<circ> fst) ch = ch"
    by (simp add: seg_at_def comp_def)
  then show ?thesis
    using Restore_chain [OF assms(8) M(1,2) assms(5,9)] M(3) by (simp add: opt_ts_def opt_db_def)
qed

end

text \<open>A backend whose writes are all or nothing loses no reply.\<close>

context atomic_backend
begin

lemma no_lost_write:
  assumes "run_inv fw cd snap seg invar (t, b, w) base ch" and "sync_env fw E t b (w_files w)"
  shows "\<not> lost_write cd bk seg E b w"
proof
  assume "lost_write cd bk seg E b w"
  then obtain x b' w' where s: "sync cd bk E b w = (Some (Wrapped ''write segment'' x), b', w')"
    and ne: "seg (w_backend w') \<noteq> seg (w_backend w)" by (auto simp: lost_write_def)
  have env: "calm E b (w_files w)" "0 \<le> e_now E 0" "in_i64 (e_now E 0)" "in_i64 (b_walIndex b + 1)"
    "\<forall>h c. wal_state (w_files w) = Inr (h, c) \<longrightarrow> in_i64 (int c)"
    using assms(2) by (simp_all add: sync_env_def)
  have I: "invar (w_backend w)" "0 \<le> b_walIndex b" "snap (w_backend w) (b_generation b) \<noteq> None"
    using assms(1) by (auto simp: run_inv_def chain_inv_def)
  from s show False
  proof (cases rule: sync_writes)
    case same
    then show False using ne by simp
  next
    case (wrote h c b1 r gz sz)
    have "e_scan E = None" using wrote(1) by (cases "e_scan E") (simp_all add: scan_file_def open_file_def walCommittedSize_def)
    then have "wal_state (w_files w) = Inr (h, c)"
      using wrote(1) env(1) by (simp add: calm_def wal_state_def scan_file_def split: sum.splits)
    then have "in_i64 (int c)" using env(5) by blast
    then have "seg_ok (next_seg E b1 sz)"
      using wrote(2,3) env(2-4) I(2) track_salts_fields(3) [of h b]
      by (auto simp: seg_ok_def in_i64_def i64_min_def)
    then show False using wrote(5,6) ne I segment_atomic snap_name by (cases r) blast+
  qed
qed

lemma run_with_kept:
  assumes "run_with fw cd bk snap seg invar P S s" and "wal_apply_ok fw" and "codec_ok cd"
  shows "run_with fw cd bk snap seg invar (\<lambda>E b w. P E b w \<and> \<not> lost_write cd bk seg E b w) S s"
  using assms(1)
proof induction
  case (opened w E b b' w')
  then show ?case by (intro run_with.opened)
next
  case (conn t b w f')
  then show ?case by (intro run_with.conn)
next
  case (sync t b w E ev page go b' w')
  have "run_with fw cd bk snap seg invar (\<lambda>E b w. \<not> lost_write cd bk seg E b w) (\<lambda>_. True) (t, b, w)"
    using sync.IH by (rule run_with_mono) simp_all
  from run_with_inv [OF this assms(2,3)] obtain base ch where "run_inv fw cd snap seg invar (t, b, w) base ch" by auto
  from no_lost_write [OF this sync(2)] show ?case using sync by (intro run_with.sync) simp_all
next
  case (snapped t b w E b' w')
  then show ?case by (intro run_with.snapped)
qed

lemma reachable_kept:
  assumes "reachable fw cd bk snap seg invar s" and "wal_apply_ok fw" and "codec_ok cd"
  shows "run_with fw cd bk snap seg invar (\<lambda>E b w. \<not> lost_write cd bk seg E b w) (\<lambda>_. True) s"
  using run_with_kept [OF assms(1) [unfolded reachable_def] assms(2,3)] by simp

lemma reachable_inv:
  assumes "reachable fw cd bk snap seg invar s" and "wal_apply_ok fw" and "codec_ok cd"
  shows "\<exists>base ch. run_inv fw cd snap seg invar s base ch"
  using run_with_inv [OF reachable_kept [OF assms] assms(2,3)] by auto

lemma reachable_generation:
  assumes "reachable fw cd bk snap seg invar (t, b, w)" and "wal_apply_ok fw" and "codec_ok cd"
  shows "b_generation b \<noteq> ''''"
  using reachable_inv [OF assms] run_inv_generation by blast

lemma reachable_sync:
  assumes "reachable fw cd bk snap seg invar (t, b, w)" and "wal_apply_ok fw" and "codec_ok cd"
    and "sync_env fw E t b (w_files w)" and "sync cd bk E b w = (None, b', w')"
  shows "\<exists>base ch. run_inv fw cd snap seg invar (e_now E 0, b', w') base ch \<and>
    replay fw ch base = db_image fw (w_files w) \<and> b_generation b' = b_generation b"
  using run_with_sync [OF reachable_kept [OF assms(1-3)] assms(2,3) _ assms(4,5)] by auto

lemma sync_then_restore:
  assumes "reachable fw cd bk snap seg invar (t, b, w)" and "wal_apply_ok fw" and "codec_ok cd"
    and "sqlite_ok fw q" and "sync_env fw E t b (w_files w)"
    and "sync cd bk E b w = (None, b', w')"
    and "Restore cd bk q dir [] s (w_backend w') = (None, s', st)" and "fs_wf s"
  shows "node_at s' (dir @ [''default.db'']) = Some (File (db_image fw (w_files w)))"
  by (rule run_then_restore [OF reachable_kept [OF assms(1-3)] assms(2,3) _ assms(4-8)]) simp

end

end
