(* ===== verification/Backup_Later.thy ===== *)
theory Backup_Later
  imports Backup_Recovery
begin

text \<open>
  Point-in-time restore: what stays of a generation in the backend whatever happens later (commits,
  syncs and snapshots with any outcome, a restart of the program), and that a restore to a moment
  before all of that gives what the last sync up to it found committed.
\<close>

text \<open>
  What may happen after a moment \<open>ts\<close> while a generation created at \<open>tg\<close> is kept: the files change
  in any way, the program is started again with a new engine, and the loop takes any turn, sync or
  snapshot, with any outcome, as long as the clock is past \<open>ts\<close>, sizes fit an \<open>int64\<close> and the
  retention does not end the generation.
\<close>

definition later_env :: "instant \<Rightarrow> instant \<Rightarrow> env \<Rightarrow> backupManager \<Rightarrow> db_files \<Rightarrow> bool" where
  "later_env ts tg E b f \<longleftrightarrow> ts < e_now E 0 \<and> in_i64 (e_now E 0) \<and> in_i64 (b_walIndex b + 1) \<and>
     (\<forall>h c. walCommittedSize (scan_file E (f_wal f)) = Inr (h, c) \<longrightarrow> in_i64 (int c)) \<and>
     (Retention (b_cfg b) \<le> 0 \<or> e_now E 2 - Retention (b_cfg b) \<le> tg)"

inductive later_run ::
  "codec \<Rightarrow> 'k backend_ops \<Rightarrow> instant \<Rightarrow> instant \<Rightarrow> backupManager \<times> 'k world \<Rightarrow> backupManager \<times> 'k world \<Rightarrow> bool"
  for cd bk ts tg s where
  none: "later_run cd bk ts tg s s"
| files: "later_run cd bk ts tg s (b, w) \<Longrightarrow> later_run cd bk ts tg s (b, w\<lparr>w_files := f'\<rparr>)"
| restart: "later_run cd bk ts tg s (b, w) \<Longrightarrow> newBackupManager name cfg (Inr ()) = Inr (b0, ()) \<Longrightarrow>
    later_run cd bk ts tg s (b0, w)"
| turn: "later_run cd bk ts tg s (b, w) \<Longrightarrow> later_env ts tg E b (w_files w) \<Longrightarrow>
    run_step cd bk E ev b w = (page, go, b', w') \<Longrightarrow> later_run cd bk ts tg s (b', w')"

text \<open>What stays in the backend: the objects of the generation stamped up to \<open>ts\<close>, and no new
  generation that old.\<close>

definition frozen ::
  "('b \<Rightarrow> string \<Rightarrow> bytes option) \<Rightarrow> ('b \<Rightarrow> string \<Rightarrow> string \<Rightarrow> bytes option) \<Rightarrow> instant \<Rightarrow> string \<Rightarrow>
   'b \<Rightarrow> 'b \<Rightarrow> bool" where
  "frozen snp sgs ts g st st' \<longleftrightarrow> snp st' g = snp st g \<and>
     (\<forall>s. seg_ok s \<longrightarrow> s_CreatedAt s \<le> ts \<longrightarrow> sgs st' g (segmentKey s) = sgs st g (segmentKey s)) \<and>
     (\<forall>g' t'. ParseGenerationID g' = Inr t' \<longrightarrow> t' \<le> ts \<longrightarrow> snp st' g' \<noteq> None \<longrightarrow> snp st g' \<noteq> None)"

lemma frozen_refl: "frozen snp sgs ts g st st"
  by (simp add: frozen_def)

lemma frozen_trans: "frozen snp sgs ts g s1 s2 \<Longrightarrow> frozen snp sgs ts g s2 s3 \<Longrightarrow> frozen snp sgs ts g s1 s3"
  unfolding frozen_def by metis

lemma run_step_cases:
  assumes "run_step cd bk E ev b w = (page, go, b', w')"
  obtains (sync) e b1 where "sync cd bk E b w = (e, b1, w')" "b' = snd (report (e_now E 3) e b1)"
  | (snap) e b1 where "takeSnapshot cd bk E b w = (e, b1, w')" "b' = snd (report (e_now E 3) e b1)"
proof -
  obtain e b1 w1 where r: "run_op cd bk E ev b w = (e, b1, w1)" by (metis prod_cases3)
  then have "w1 = w'" "b' = snd (report (e_now E 3) e b1)"
    using assms by (auto simp: run_step_def split: prod.splits)
  with r show thesis by (cases ev) (auto simp: run_op_def intro: sync snap split: if_splits)
qed

lemma report_fields [simp]:
  "b_walIndex (snd (report now e b)) = b_walIndex b" "b_cfg (snd (report now e b)) = b_cfg b"
  by (cases e; simp add: report_def Let_def)+

context backup_backend
begin

lemma frozen_sync:
  assumes "sync cd bk E b w = (e, b', w')" and "later_env ts tg E b (w_files w)" and "0 \<le> ts"
    and "invar (w_backend w)" and "0 \<le> b_walIndex b" and "b_generation b \<noteq> '''' \<Longrightarrow> names (b_generation b)"
  shows "frozen snap seg ts g (w_backend w) (w_backend w') \<and> invar (w_backend w') \<and> 0 \<le> b_walIndex b'"
proof (cases "b_generation b = ''''")
  case True
  then show ?thesis using assms(1,4,5) by (auto simp: sync_def frozen_refl)
next
  case False
  from assms(1) show ?thesis
  proof (cases rule: sync_writes)
    case same
    then show ?thesis using assms(4,5) by (simp add: frozen_refl)
  next
    case (wrote h c b1 r gz sz)
    have env: "ts < e_now E 0" "in_i64 (e_now E 0)" "in_i64 (b_walIndex b + 1)" "in_i64 (int c)"
      using assms(2) wrote(1) by (auto simp: later_env_def)
    have ok: "seg_ok (next_seg E b1 sz)"
      using wrote(2,3) env assms(3,5) track_salts_fields(3) [of h b] by (auto simp: seg_ok_def in_i64_def i64_min_def)
    note F = segment_frame [OF assms(4) ok wrote(5) assms(6) [OF False]]
    have "segmentKey s \<noteq> segmentKey (next_seg E b1 sz)" if "seg_ok s" "s_CreatedAt s \<le> ts" for s
    proof
      assume "segmentKey s = segmentKey (next_seg E b1 sz)"
      then have "s\<lparr>s_Size := 0\<rparr> = (next_seg E b1 sz)\<lparr>s_Size := 0\<rparr>" using that(1) ok segmentKey_inj by blast
      then have "s_CreatedAt s = e_now E 0" by (cases s) simp
      then show False using that(2) env(1) by simp
    qed
    then have "frozen snap seg ts g (w_backend w) (w_backend w')" using F unfolding frozen_def by simp
    moreover have "0 \<le> b_walIndex b'" using wrote(2,4) assms(5) track_salts_fields(3) [of h b] by auto
    ultimately show ?thesis using F by simp
  qed
qed

lemma frozen_snapshot:
  assumes "takeSnapshot cd bk E b w = (e, b', w')" and "later_env ts tg E b (w_files w)" and "0 \<le> ts"
    and "invar (w_backend w)" and "0 \<le> b_walIndex b" and "b_generation b \<noteq> '''' \<Longrightarrow> names (b_generation b)"
    and "ParseGenerationID g = Inr tg" and "tg \<le> ts"
  shows "frozen snap seg ts g (w_backend w) (w_backend w') \<and> invar (w_backend w') \<and> 0 \<le> b_walIndex b' \<and>
    (b_generation b' \<noteq> '''' \<longrightarrow> names (b_generation b'))"
proof -
  let ?n = "NewGenerationID (e_now E 0) (e_rand E)"
  have env: "ts < e_now E 0" "in_i64 (e_now E 0)" "Retention (b_cfg b) \<le> 0 \<or> e_now E 2 - Retention (b_cfg b) \<le> tg"
    using assms(2) by (simp_all add: later_env_def)
  have pn: "ParseGenerationID ?n = Inr (e_now E 0)" using env assms(3) by (intro Parse_NewGenerationID) simp_all
  have ne: "g \<noteq> ?n" "\<And>g' t'. ParseGenerationID g' = Inr t' \<Longrightarrow> t' \<le> ts \<Longrightarrow> g' \<noteq> ?n"
    using pn assms(7,8) env(1) by auto
  have W: "frozen snap seg ts g (w_backend w) st \<and> invar st"
    if "WriteSnapshot bk ?n gz (w_backend w) = (r, st)" for gz r st
    using snapshot_frame [OF assms(4) that new_name] ne unfolding frozen_def by simp
  from assms(1) consider
      (same) "b' = b" "w_backend w' = w_backend w"
    | (failed) gz x st where "WriteSnapshot bk ?n gz (w_backend w) = (Some x, st)" "b' = b" "w_backend w' = st"
    | (taken) gz st where "WriteSnapshot bk ?n gz (w_backend w) = (None, st)" "b_generation b' = ?n"
        "b_walIndex b' = 0" "b_cfg b' = b_cfg b" "w_backend w' = pruneLocked bk (e_now E 2) b' st"
    by (auto simp: takeSnapshot_def others_def Let_def split: sum.splits prod.splits option.splits)
  then show ?thesis
  proof cases
    case same
    then show ?thesis using assms(4-6) by (simp add: frozen_refl)
  next
    case (failed gz x st)
    then show ?thesis using W assms(5,6) by simp
  next
    case (taken gz st)
    note w = W [OF taken(1)]
    have K: "snap (pruneLocked bk (e_now E 2) b' st) g = snap st g" "seg (pruneLocked bk (e_now E 2) b' st) g = seg st g"
      using pruneLocked_keeps [of st g tg b' "e_now E 2"] w env(3) assms(7) taken(4)
      by (auto simp: pruneLocked_def)
    have "frozen snap seg ts g st (pruneLocked bk (e_now E 2) b' st)"
      using K pruneLocked_frame [of st "e_now E 2" b'] w unfolding frozen_def by metis
    then show ?thesis
      using w frozen_trans pruneLocked_frame [of st "e_now E 2" b'] new_name taken(2-5) by auto
  qed
qed

lemma later_frozen:
  assumes "later_run cd bk ts tg (b0, w0) s" and "0 \<le> ts" and "ParseGenerationID g = Inr tg" and "tg \<le> ts"
    and "invar (w_backend w0)" and "0 \<le> b_walIndex b0" and "b_generation b0 \<noteq> '''' \<Longrightarrow> names (b_generation b0)"
  shows "case s of (b, w) \<Rightarrow> frozen snap seg ts g (w_backend w0) (w_backend w) \<and> invar (w_backend w) \<and>
    0 \<le> b_walIndex b \<and> (b_generation b \<noteq> '''' \<longrightarrow> names (b_generation b))"
  using assms(1)
proof induction
  case none
  then show ?case using assms(5-7) by (simp add: frozen_refl)
next
  case (files b w f')
  then show ?case by simp
next
  case (restart b w name cfg b1)
  then show ?case by (auto simp: newBackupManager_def)
next
  case (turn b w E ev page go b' w')
  have I: "frozen snap seg ts g (w_backend w0) (w_backend w)" "invar (w_backend w)" "0 \<le> b_walIndex b"
    "b_generation b \<noteq> '''' \<Longrightarrow> names (b_generation b)" using turn.IH by simp_all
  from turn(3) show ?case
  proof (cases rule: run_step_cases)
    case (sync e b1)
    note F = frozen_sync [OF sync(1) turn(2) assms(2) I(2-4)]
    have "b_generation b1 = b_generation b" using sync_generation [OF sync(1)] .
    then show ?thesis using F [of g] I frozen_trans [OF I(1)] by (auto simp: sync(2))
  next
    case (snap e b1)
    note F = frozen_snapshot [OF snap(1) turn(2) assms(2) I(2-4) assms(3,4)]
    show ?thesis using F frozen_trans [OF I(1)] by (auto simp: snap(2))
  qed
qed

text \<open>Listing what has been added to since: the segments stamped up to \<open>ts\<close> are those of the chain.\<close>

lemma replay_frozen:
  assumes "chain_objs cd objs ch" and "chain_wf ch i n" and "lists_segs objs' l"
    and "\<forall>s. seg_ok s \<longrightarrow> s_CreatedAt s \<le> ts \<longrightarrow> objs' (segmentKey s) = objs (segmentKey s)"
    and "\<forall>x \<in> set ch. s_CreatedAt (fst x) \<le> ts" and "ts \<noteq> zero_time"
  shows "replay fw (with_data cd objs' (filter (seg_at ts) l)) base = replay fw ch base"
proof -
  define old where "old k \<longleftrightarrow> (\<exists>s. seg_ok s \<and> s_CreatedAt s \<le> ts \<and> segmentKey s = k)" for k
  define o2 where "o2 k = (if old k then objs' k else None)" for k
  have at: "seg_at ts s \<longleftrightarrow> s_CreatedAt s \<le> ts" for s using assms(6) by (auto simp: seg_at_def)
  have inj: "s_CreatedAt s = s_CreatedAt t" if "segmentKey s = segmentKey t" "seg_ok s" "seg_ok t" for s t
  proof -
    have "s\<lparr>s_Size := 0\<rparr> = t\<lparr>s_Size := 0\<rparr>" using that segmentKey_inj by blast
    then show ?thesis by (cases s; cases t) simp
  qed
  have old: "old (segmentKey s) \<longleftrightarrow> s_CreatedAt s \<le> ts" if "seg_ok s" for s
    unfolding old_def using that inj by metis
  have eq: "o2 (segmentKey s) = (if s_CreatedAt s \<le> ts then objs (segmentKey s) else None)" if "seg_ok s" for s
    using old [OF that] assms(4) that by (simp add: o2_def)
  have ok: "\<forall>x \<in> set ch. seg_ok (fst x)" using assms(2) by (simp add: chain_wf_def)
  have nk: "segmentKey s \<notin> segmentKey ` fst ` set ch" if "seg_ok s" "\<not> s_CreatedAt s \<le> ts" for s
  proof -
    have "segmentKey s \<noteq> segmentKey (fst x)" if "x \<in> set ch" for x
      using inj [of s "fst x"] \<open>seg_ok s\<close> \<open>\<not> s_CreatedAt s \<le> ts\<close> that ok assms(5) by auto
    then show ?thesis by blast
  qed
  have C: "chain_objs cd o2 ch"
    unfolding chain_objs_def
  proof (intro conjI allI impI ballI)
    fix s assume s: "seg_ok s"
    show "(o2 (segmentKey s) \<noteq> None) = (segmentKey s \<in> segmentKey ` fst ` set ch)"
      unfolding eq [OF s] using assms(1) s nk [OF s] by (simp add: chain_objs_def)
  next
    fix x assume x: "x \<in> set ch"
    then have "o2 (segmentKey (fst x)) = objs (segmentKey (fst x))" using eq [of "fst x"] ok assms(5) by simp
    then show "\<exists>z. o2 (segmentKey (fst x)) = Some z \<and> gzip_read cd z = Inr (snd x)"
      using assms(1) x by (simp add: chain_objs_def)
  qed
  have L: "sorted (map seg_key l)" "distinct (map segmentKey l)" "\<forall>x \<in> set l. seg_ok x"
    "\<And>s. seg_ok s \<Longrightarrow> (segmentKey s \<in> segmentKey ` set l) = (objs' (segmentKey s) \<noteq> None)"
    using assms(3) by (simp_all add: lists_segs_def)
  have "(segmentKey s \<in> segmentKey ` set (filter (seg_at ts) l)) = (o2 (segmentKey s) \<noteq> None)" if "seg_ok s" for s
  proof (cases "s_CreatedAt s \<le> ts")
    case True
    have "x \<in> set (filter (seg_at ts) l)" if "x \<in> set l" "segmentKey s = segmentKey x" for x
      using that inj [of s x] \<open>seg_ok s\<close> L(3) True by (simp add: at)
    then have "segmentKey s \<in> segmentKey ` set (filter (seg_at ts) l) \<longleftrightarrow> segmentKey s \<in> segmentKey ` set l"
      by (simp only: image_iff set_filter mem_Collect_eq) blast
    then show ?thesis using L(4) [OF that] old [OF that] True by (simp add: o2_def)
  next
    case False
    have "segmentKey s \<noteq> segmentKey x" if "x \<in> set (filter (seg_at ts) l)" for x
      using that inj [of s x] \<open>seg_ok s\<close> L(3) False by (auto simp: at)
    then have "segmentKey s \<notin> segmentKey ` set (filter (seg_at ts) l)" by blast
    then show ?thesis using old [OF that] False by (simp add: o2_def)
  qed
  then have "lists_segs o2 (filter (seg_at ts) l)"
    using L(1-3) by (simp add: lists_segs_def sorted_filter distinct_map_filter)
  from replay_listing [OF C assms(2) this, of fw ts base] have
    "replay fw (with_data cd o2 (filter (seg_at ts) l)) base = replay fw (filter (seg_at ts \<circ> fst) ch) base" by simp
  moreover have "filter (seg_at ts \<circ> fst) ch = ch" using assms(5) by (simp add: at comp_def filter_id_conv)
  moreover have "with_data cd o2 (filter (seg_at ts) l) = with_data cd objs' (filter (seg_at ts) l)"
    using L(3) old by (auto simp: with_data_def seg_data_def o2_def at)
  ultimately show ?thesis by simp
qed

text \<open>Point in time: from any later state, a restore to a moment not before the sync and before
  whatever happened after it gives what the sync found committed.\<close>

lemma restore_at:
  assumes "run_inv fw cd snap seg invar (t, b, w) base ch" and "0 \<le> t" and "t \<le> ts"
    and "ParseGenerationID (b_generation b) = Inr tg" and "later_run cd bk ts tg (b, w) (b2, w2)"
    and "sqlite_ok fw q"
    and "Restore cd bk q dir [\<lparr>ro_DB = db, ro_Timestamp = ts\<rparr>] s (w_backend w2) = (None, s', st)"
    and "fs_wf s" and "db \<noteq> ''''"
  shows "node_at s' (dir @ [db @ ''.db'']) = Some (File (replay fw ch base))"
proof -
  let ?g = "b_generation b"
  have I: "invar (w_backend w)" "\<forall>x \<in> set ch. s_CreatedAt (fst x) \<le> ts" "tg \<le> ts" "0 \<le> b_walIndex b"
    "chain_objs cd (seg (w_backend w) ?g) ch" "chain_wf ch (b_walIndex b) (b_walOffset b)"
    using assms(1,3,4) by (auto simp: run_inv_def chain_inv_def)
  obtain z where z: "snap (w_backend w) ?g = Some z" "gzip_read cd z = Inr base"
    and new: "\<forall>g' t'. snap (w_backend w) g' \<noteq> None \<longrightarrow> ParseGenerationID g' = Inr t' \<longrightarrow> tg \<le> t' \<longrightarrow> g' = ?g"
    using assms(1,4) by (auto simp: run_inv_def chain_inv_def newest_def)
  have nm: "names ?g" using snap_name [OF I(1)] z(1) by simp
  have "0 \<le> ts" using assms(2,3) by simp
  from later_frozen [OF assms(5) this assms(4) I(3,1,4)] nm
  have F: "frozen snap seg ts ?g (w_backend w) (w_backend w2)" "invar (w_backend w2)" by simp_all
  let ?o = "[\<lparr>ro_DB = db, ro_Timestamp = ts\<rparr>]"
  have o: "opt_ts ?o = ts" "opt_db ?o = db" using assms(9) by (simp_all add: opt_ts_def opt_db_def)
  have nz: "ts \<noteq> zero_time" using \<open>0 \<le> ts\<close> by (auto simp: zero_time_def)
  have at: "gen_at ts x \<longleftrightarrow> g_CreatedAt x \<le> ts" for x using nz by (auto simp: gen_at_def)
  from Restore_ok [OF assms(7) F(2) assms(6,8)] obtain g z2 S l where
    g: "gen_at ts g" "ParseGenerationID (g_ID g) = Inr (g_CreatedAt g)"
      "\<forall>g' t. snap (w_backend w2) g' \<noteq> None \<longrightarrow> ParseGenerationID g' = Inr t \<longrightarrow>
        gen_at ts \<lparr>g_ID = g', g_CreatedAt = t\<rparr> \<longrightarrow> t \<le> g_CreatedAt g"
    and z2: "snap (w_backend w2) (g_ID g) = Some z2" "gzip_read cd z2 = Inr S"
    and l: "lists_segs (seg (w_backend w2) (g_ID g)) l"
    and fin: "node_at s' (dir @ [db @ ''.db'']) =
      Some (File (replay fw (with_data cd (seg (w_backend w2) (g_ID g)) (filter (seg_at ts) l)) S))"
    unfolding o by blast
  have s2: "snap (w_backend w2) ?g = Some z" using F(1) z(1) by (simp add: frozen_def)
  then have "tg \<le> g_CreatedAt g" using g(3) assms(4) I(3) by (metis at Generation.select_convs(2) option.distinct(1))
  moreover have "snap (w_backend w) (g_ID g) \<noteq> None"
    using F(1) g(1,2) z2(1) unfolding frozen_def at by (metis option.distinct(1))
  ultimately have same: "g_ID g = ?g" using new g(2) by blast
  have "S = base" using z2 s2 z(2) same by simp
  moreover have "\<forall>s. seg_ok s \<longrightarrow> s_CreatedAt s \<le> ts \<longrightarrow>
      seg (w_backend w2) ?g (segmentKey s) = seg (w_backend w) ?g (segmentKey s)"
    using F(1) by (simp add: frozen_def)
  ultimately show ?thesis
    using fin replay_frozen [OF I(5,6) l [unfolded same] _ I(2) nz, of fw base] same by simp
qed

end

end
