(* ===== verification/Backup_Example.thy ===== *)
theory Backup_Example
  imports Backup_Later
begin

text \<open>
  A concrete run of the whole backup pipeline on the local backend, evaluated step by step: an
  opening snapshot, a WAL cycle begun by another connection, a sync, a restore. It shows that
  the conditions under which the properties of \<open>Backup_Recovery\<close> and \<open>Backup_Later\<close> hold can be met
  together.
\<close>

subsection \<open>SQLite, concretely\<close>

text \<open>A database whose contents are what the last committed frames say.\<close>

definition fw_ex :: "bytes \<Rightarrow> bytes \<Rightarrow> bytes" where
  "fw_ex m w =
     (case walCommittedSize (Inr w) of
        Inl _ \<Rightarrow> m
      | Inr (h, c) \<Rightarrow> if c \<le> 32 then m else drop 32 (take c w))"

lemma wal_apply_ok_ex: "wal_apply_ok fw_ex"
proof -
  have "fw_ex m w = fw_ex m (take c w)" if "walCommittedSize (Inr w) = Inr (h, c)" for m w h c
  proof -
    have "walCommittedSize (Inr (take c w)) = Inr (h, c)"
      using walCommittedSize_take [OF that, of c] by simp
    then show ?thesis using that by (simp add: fw_ex_def)
  qed
  then show ?thesis by (auto simp: wal_apply_ok_def fw_ex_def)
qed

definition sq_ex :: sqlite_ops where
  "sq_ex = \<lparr> sq_open = (\<lambda>p s. (None, s)), sq_user_version = (\<lambda>p s. (None, s)),
     sq_checkpoint = (\<lambda>p s. (None,
       (case (node_at s p, node_at s (with_suffix p ''-wal'')) of
          (Some (File m), Some (File w)) \<Rightarrow> put_node p (File (fw_ex m w)) s
        | _ \<Rightarrow> s))),
     sq_close = (\<lambda>p s. (None, s)), sq_open_ro = (\<lambda>p s. (None, s)),
     sq_integrity = (\<lambda>p s. (Inr ''ok'', s)) \<rparr>"

lemma sqlite_ok_ex: "sqlite_ok fw_ex sq_ex"
proof -
  have "fs_wf (put_node p (File x) s)" if "fs_wf s" "p \<noteq> []" "node_at s p = Some (File m)" for p x s m
    using that fs_wf_parent [OF that(1,3,2)] by (intro fs_wf_put) simp_all
  then show ?thesis
    by (auto simp: sqlite_ok_def sq_ex_def open_and_checkpoint_def verifySQLite_def node_at_put)
qed

subsection \<open>The local backend without faults\<close>

lemma no_fault: "faults s = [] \<Longrightarrow> next_fault s = (None, s)"
  by (simp add: next_fault_def)

text \<open>The tree after a snapshot, and after one segment.\<close>

definition snap_tree :: "string \<Rightarrow> bytes \<Rightarrow> fs" where
  "snap_tree g z = \<lparr> tree = [([], Dir), ([''b''], Dir), ([''b'', g], Dir),
     ([''b'', g, snap_name], File z)], faults = [] \<rparr>"

definition seg_tree :: "string \<Rightarrow> bytes \<Rightarrow> string \<Rightarrow> bytes \<Rightarrow> fs" where
  "seg_tree g z k d = \<lparr> tree = [([], Dir), ([''b''], Dir), ([''b'', g], Dir),
     ([''b'', g, snap_name], File z), ([''b'', g, ''wal''], Dir), ([''b'', g, ''wal'', k], File d)],
     faults = [] \<rparr>"

lemma WriteSnapshot_ex: "WriteSnapshot (local_ops [''b'']) g z l_ex = (None, snap_tree g z)"
  by (simp add: local_ops_def local_WriteSnapshot_def Let_def genDir_def os_MkdirAll_def next_fault_def
      l_ex_def node_at_def put_node_def atomicWrite_def os_Create_def io_Copy_def tmp_path_def
      os_Close_def os_Rename_def del_node_def snap_tree_def snap_name_def)

lemma WriteWALSegment_ex:
  "WriteWALSegment (local_ops [''b'']) g sg d (snap_tree g z) = (None, seg_tree g z (segmentKey sg) d)"
  by (simp add: local_ops_def local_WriteWALSegment_def Let_def genDir_def os_MkdirAll_def next_fault_def
      node_at_def put_node_def atomicWrite_def os_Create_def io_Copy_def tmp_path_def
      os_Close_def os_Rename_def del_node_def snap_tree_def seg_tree_def snap_name_def)

lemma Generations_ex:
  assumes "ParseGenerationID g = Inr t"
  shows "Generations (local_ops [''b'']) (seg_tree g z k d) =
    (Inr [\<lparr>g_ID = g, g_CreatedAt = t\<rparr>], seg_tree g z k d)"
proof -
  have "dir_entries [''b''] (seg_tree g z k d) = [(g, Dir)]"
    by (simp add: dir_entries_def seg_tree_def go_sort_def)
  then show ?thesis
    using assms by (simp add: local_ops_def local_Generations_def os_ReadDir_def go_sort_def
        seg_tree_def node_at_def next_fault_def)
qed

lemma ReadSnapshot_ex:
  "ReadSnapshot (local_ops [''b'']) g (seg_tree g z k d) = (Inr z, seg_tree g z k d)"
  by (simp add: local_ops_def local_ReadSnapshot_def os_ReadFile_def genDir_def snap_name_def
      seg_tree_def next_fault_def node_at_def)

lemma WALSegments_ex:
  assumes "parseSegmentKey k = Inr sg"
  shows "WALSegments (local_ops [''b'']) g (seg_tree g z k d) =
    (Inr [sg\<lparr>s_Size := int (length d)\<rparr>], seg_tree g z k d)"
proof -
  have "dir_entries [''b'', g, ''wal''] (seg_tree g z k d) = [(k, File d)]"
    by (simp add: dir_entries_def seg_tree_def go_sort_def)
  then show ?thesis
    using assms by (simp add: local_ops_def local_WALSegments_def os_ReadDir_def genDir_def no_fault
        go_sort_def seg_tree_def node_at_def next_fault_def snap_name_def)
qed

lemma ReadWALSegment_ex:
  "ReadWALSegment (local_ops [''b'']) g sg (seg_tree g z (segmentKey sg) d) =
     (Inr d, seg_tree g z (segmentKey sg) d)"
  by (simp add: local_ops_def local_ReadWALSegment_def os_ReadFile_def genDir_def snap_name_def
      seg_tree_def next_fault_def node_at_def)

subsection \<open>The run\<close>

text \<open>An environment in which nothing fails, nobody interferes and checkpoints find a reader in
  their way, at a given time.\<close>

definition env_ex :: "instant \<Rightarrow> env" where
  "env_ex t = \<lparr> e_now = (\<lambda>_. t), e_rand = [7], e_scan = None, e_scan_cut = None, e_open = None, e_seek = None,
     e_read = None, e_readmain = None, e_stat = None, e_pragma = None, e_other = (\<lambda>_ f. f),
     e_ckpt = (\<lambda>f. (None, f)) \<rparr>"

lemma env_ok_ex: "env_ok fw_ex (env_ex t)"
  by (simp add: env_ok_def ckpt_ok_def ckpt_result_def env_ex_def)

lemma calm_ex: "calm (env_ex t) b f"
  by (simp add: calm_def env_ex_def wal_grows_def)

definition cfg_ex :: BackupConfig where
  "cfg_ex = \<lparr> SyncInterval = 1, SnapshotInterval = 10, Retention = -1, CheckpointThreshold = 32,
     AlertAfter = 5 \<rparr>"

definition mgr_ex :: backupManager where
  "mgr_ex = fst (projr (newBackupManager ''default'' cfg_ex (Inr ())))"

definition world_ex :: "'b \<Rightarrow> 'b world" where
  "world_ex st = \<lparr> w_files = \<lparr> f_main = [1], f_wal = None, f_backfill = 0, f_salts = [] \<rparr>,
     w_backend = st \<rparr>"

definition g_ex :: string where "g_ex = NewGenerationID 1000 [7]"

definition mgr1_ex :: backupManager where
  "mgr1_ex = mgr_ex\<lparr>b_generation := g_ex, b_status := (b_status mgr_ex)\<lparr>st_LastSnapshotAt := 1000\<rparr>\<rparr>"

definition wal_ex :: bytes where "wal_ex = wal_hdr_ex @ wal_frame_ex"

text \<open>Another connection has begun a WAL cycle.\<close>

definition cycle_ex :: "bytes \<Rightarrow> 'b \<Rightarrow> 'b world" where
  "cycle_ex wal st = (world_ex st)\<lparr>w_files := new_cycle (Some wal) (w_files (world_ex st))\<rparr>"

lemma mgr_ex_simps:
  "b_generation mgr_ex = ''''" "b_walIndex mgr_ex = 0" "b_walOffset mgr_ex = 0" "b_cfg mgr_ex = cfg_ex"
  "b_salt1 mgr_ex = 0" "b_salt2 mgr_ex = 0"
  by (simp_all add: mgr_ex_def newBackupManager_def backup_applyDefaults_def cfg_ex_def)

lemma g_ex_parse: "ParseGenerationID g_ex = Inr 1000"
  unfolding g_ex_def by (rule Parse_NewGenerationID) (simp_all add: in_i64_def i64_min_def i64_max_def)

lemma mgr1_ex_simps:
  "b_generation mgr1_ex = g_ex" "b_walIndex mgr1_ex = 0" "b_walOffset mgr1_ex = 0" "b_cfg mgr1_ex = cfg_ex"
  by (simp_all add: mgr1_ex_def mgr_ex_simps)

lemma wal_ex_committed: "walCommittedSize (Inr wal_ex) = Inr (wal_h_ex, 568)"
  unfolding wal_ex_def by (rule committed_frame_ex)

lemma cycle_files:
  "f_wal (w_files (cycle_ex wal_ex st)) = Some wal_ex"
  "wal_state (w_files (cycle_ex wal_ex st)) = Inr (wal_h_ex, 568)"
  "f_main (w_files (cycle_ex wal_ex st)) = [1]"
  by (simp_all add: cycle_ex_def world_ex_def new_cycle_def wal_state_def open_file_def wal_ex_committed)

lemma cycle_backend [simp]: "w_backend (cycle_ex wal st) = st"
  by (simp add: cycle_ex_def world_ex_def)

lemma cycle_update:
  "(cycle_ex wal st)\<lparr>w_files := w_files (cycle_ex wal st), w_backend := x\<rparr> = cycle_ex wal x"
  "(cycle_ex wal st)\<lparr>w_backend := x\<rparr> = cycle_ex wal x"
  by (simp_all add: cycle_ex_def world_ex_def)

lemma wal_ex_length: "length wal_ex = 568"
  by (simp add: wal_ex_def wal_hdr_ex_def wal_frame_ex_def wal_fhdr_ex_def)

lemma wal_ex_not_Nil: "wal_ex \<noteq> []"
  using wal_ex_length by auto

lemma sync_env_ex: "sync_env fw_ex (env_ex 2000) 1000 mgr1_ex (w_files (cycle_ex wal_ex st))"
  by (simp add: sync_env_def env_ok_ex calm_ex cycle_files mgr1_ex_def mgr_ex_simps)
    (simp add: env_ex_def in_i64_def i64_min_def i64_max_def)

subsection \<open>A commit in the window\<close>

text \<open>
  The same start, but the new cycle has only its header when the sync scans it; another
  connection commits a frame after the segment is written and before the checkpoint, which
  copies that frame to the main file and empties the WAL.
\<close>

definition commit_ex :: "db_files \<Rightarrow> db_files" where
  "commit_ex f = (if f_wal f = Some wal_hdr_ex then f\<lparr>f_wal := Some wal_ex\<rparr> else f)"

definition truncate_ex :: "db_files \<Rightarrow> error option \<times> db_files" where
  "truncate_ex f = (None, f\<lparr>f_main := db_image fw_ex f, f_wal := Some [], f_backfill := 0\<rparr>)"

definition env_race_ex :: env where
  "env_race_ex = (env_ex 2000)\<lparr>e_other := (\<lambda>k f. if k = 1 then commit_ex f else f),
     e_ckpt := truncate_ex\<rparr>"

lemma env_ok_race: "env_ok fw_ex env_race_ex"
proof -
  have "wal_grows f (commit_ex f)" for f
  proof (cases "f_wal f = Some wal_hdr_ex")
    case True
    have "take 32 wal_ex = take 32 wal_hdr_ex"
      by (simp add: wal_ex_def wal_hdr_ex_def)
    then show ?thesis
      unfolding wal_grows_def commit_ex_def
      using True committed_hdr_ex wal_ex_committed
      by (intro disjI2 exI [of _ wal_hdr_ex] exI [of _ wal_h_ex] exI [of _ 32] exI [of _ wal_ex]
          exI [of _ 568]) simp
  qed (simp add: wal_grows_def commit_ex_def)
  then have "(other_step fw_ex)\<^sup>*\<^sup>* f (e_other env_race_ex k f)" for k f
    by (cases "k = 1") (auto simp: env_race_ex_def intro: other_step.grow)
  moreover have "ckpt_ok fw_ex env_race_ex"
    by (auto simp: ckpt_ok_def ckpt_result_def env_race_ex_def truncate_ex_def wal_nonempty_def db_image_def)
  ultimately show ?thesis by (simp add: env_ok_def)
qed

subsection \<open>The first sync of a cycle\<close>

text \<open>It ships the whole committed WAL as one segment; how it ends is how the write ends.\<close>

definition seg0_ex :: "nat \<Rightarrow> instant \<Rightarrow> WALSegmentInfo" where
  "seg0_ex c t = \<lparr> s_Index = 0, s_Offset = 0, s_Size = int c, s_CreatedAt = t \<rparr>"

abbreviation "seg1_ex \<equiv> seg0_ex 568 2000"

lemma seg0_ok: "in_i64 t \<Longrightarrow> 0 \<le> t \<Longrightarrow> in_i64 (int c) \<Longrightarrow> seg_ok (seg0_ex c t)"
  by (simp add: seg_ok_def seg0_ex_def in_i64_def i64_min_def i64_max_def)

lemma seg1_ok: "seg_ok seg1_ex"
  by (simp add: seg0_ok in_i64_def i64_min_def i64_max_def)

lemma sync_first:
  assumes "b_generation b = g_ex" and "b_walIndex b = 0" and "b_walOffset b = 0" and "b_cfg b = cfg_ex"
    and "f_wal (w_files w) = Some d" and "walCommittedSize (Inr d) = Inr (h, length d)" and "d \<noteq> []"
    and "WriteWALSegment bk g_ex (seg0_ex (length d) t) d (w_backend w) = (e, st)"
  shows "\<exists>b'. sync codec_ex bk (env_ex t) b w =
      (map_option (Wrapped ''write segment'') e, b', w\<lparr>w_backend := st\<rparr>) \<and> b_walIndex b' = 0 \<and>
    (e \<noteq> None \<longrightarrow> b' = track_salts h b)"
proof -
  have g: "g_ex \<noteq> ''''" unfolding g_ex_def by (rule NewGenerationID_not_Nil)
  have scan: "walCommittedSize (scan_file (env_ex t) (Some d)) = Inr (h, length d)"
    by (simp add: env_ex_def scan_file_def open_file_def assms(6))
  have o: "others (env_ex t) k v = v" for k and v :: "'a world" by (simp add: others_def env_ex_def)
  have r: "read_range (env_ex t) (Some d) 0 (length d) = Inr d"
    by (simp add: read_range_def env_ex_def open_file_def)
  have z: "gzipBytes codec_ex d = Inr (d, int (length d))"
    by (simp add: gzipBytes_def codec_ex_def)
  have n: "e_now (env_ex t) k = t" "e_ckpt (env_ex t) f = (None, f)" "e_stat (env_ex t) = None" for k f
    by (simp_all add: env_ex_def)
  have t: "track_salts h b = b\<lparr>b_salt1 := h_salt1 h, b_salt2 := h_salt2 h\<rparr>"
    by (simp add: track_salts_def assms(3))
  show ?thesis
    using g by (cases e) (simp_all add: sync_def scan t o ship_def r z assms(1-5,7) assms(8) [unfolded seg0_ex_def] n
        maybeCheckpoint_def Let_def wal_nonempty_def)
qed

subsection \<open>A restore\<close>

lemma find_g_ex:
  "ts = zero_time \<or> ts = 2000 \<Longrightarrow>
   find (gen_at ts) (go_sort gen_lt [\<lparr>g_ID = g_ex, g_CreatedAt = 1000\<rparr>]) = Some \<lparr>g_ID = g_ex, g_CreatedAt = 1000\<rparr>"
  by (auto simp: go_sort_def gen_at_def)

text \<open>Restoring to an empty file system what a listing \<open>sg # l\<close> of one WAL index gives.\<close>

lemma Restore_run:
  assumes "dbp = [''d'', opt_db opts @ ''.db'']" and "opt_ts opts = zero_time \<or> opt_ts opts = 2000"
    and "d \<noteq> []"
    and gens: "Generations bk st = (Inr gs, st)"
    and newest: "find (gen_at (opt_ts opts)) (go_sort gen_lt gs) = Some \<lparr>g_ID = g_ex, g_CreatedAt = 1000\<rparr>"
    and rs: "ReadSnapshot bk g_ex st = (Inr [1], st)"
    and ls: "WALSegments bk g_ex st = (Inr (sg # l), st)"
    and gr: "group_segs (opt_ts opts) (go_sort seg_lt (sg # l)) (\<lambda>_. None, []) = ([0 \<mapsto> sg # l], [0])"
    and off: "s_Offset sg = 0"
    and copies: "\<And>s p. faults s = [] \<Longrightarrow> node_at s p = Some (File []) \<Longrightarrow>
      copy_segments codec_ex bk g_ex p (sg # l) 0 s st = (Inr (length d), put_node p (File d) s, st)"
  shows "\<exists>s'. Restore codec_ex bk sq_ex [''d''] opts l_ex st = (None, s', st) \<and>
    node_at s' dbp = Some (File (fw_ex [1] d))"
proof -
  let ?ts = "opt_ts opts"
  let ?w = "with_suffix dbp ''-wal''" and ?h = "with_suffix dbp ''-shm''"
  define d0 where "d0 = \<lparr> tree = [([], Dir), ([''d''], Dir)], faults = [] \<rparr>"
  define d1 where "d1 = \<lparr> tree = [([], Dir), ([''d''], Dir), (dbp, File [1])], faults = [] \<rparr>"
  have p: "dbp \<noteq> [''d'']" "dbp \<noteq> []" "butlast dbp = [''d'']" "?w \<noteq> [''d'']" "?w \<noteq> dbp" "dbp \<noteq> ?w"
    "butlast ?w = [''d'']" "?w \<noteq> []" "?h \<noteq> [''d'']" "?h \<noteq> dbp" "dbp \<noteq> ?h"
    "[''d''] \<noteq> dbp" "[''d''] \<noteq> ?w" "[''d''] \<noteq> ?h" "?h \<noteq> ?w" "?w \<noteq> ?h" "?h \<noteq> []"
    "[] \<noteq> ?w" "[] \<noteq> ?h" "[] \<noteq> dbp"
    by (simp_all add: assms(1) with_suffix_def)
  have m: "os_MkdirAll [''d''] l_ex = (None, d0)"
    by (simp add: os_MkdirAll_def next_fault_def l_ex_def node_at_def put_node_def d0_def)
  have rm: "os_Remove x d0 = (Some ErrNotExist, d0)" if "x \<noteq> []" "x \<noteq> [''d'']" for x
    using that by (simp add: os_Remove_def next_fault_def d0_def node_at_def)
  have wg: "writeGunzipped codec_ex dbp [1] d0 = (None, d1)"
    using p by (simp add: writeGunzipped_def codec_ex_def os_Create_def next_fault_def d0_def d1_def
        node_at_def put_node_def io_Copy_def os_Close_def)
  define d2 where "d2 = \<lparr> tree = [([], Dir), ([''d''], Dir), (dbp, File [1]), (?w, File d)], faults = [] \<rparr>"
  have cw: "os_Create ?w d1 = (None, put_node ?w (File []) d1)"
    using p by (simp add: os_Create_def next_fault_def d1_def node_at_def)
  have cp: "copy_segments codec_ex bk g_ex ?w (sg # l) 0 (put_node ?w (File []) d1) st =
      (Inr (length d), d2, st)"
  proof -
    have "put_node ?w (File d) (put_node ?w (File []) d1) = d2"
      using p by (simp add: d1_def d2_def put_node_def)
    moreover have "faults (put_node ?w (File []) d1) = []" by (simp add: d1_def put_node_def)
    ultimately show ?thesis using copies [of "put_node ?w (File []) d1" ?w] by (simp add: node_at_put)
  qed
  have oc: "open_and_checkpoint sq_ex dbp d2 = (None, put_node dbp (File (fw_ex [1] d)) d2)"
    using p by (simp add: open_and_checkpoint_def sq_ex_def d2_def node_at_def)
  have ap: "\<exists>d4. applyWALIndex codec_ex bk sq_ex g_ex dbp (sg # l) d1 st = (None, d4, st) \<and>
      node_at d4 dbp = Some (File (fw_ex [1] d))"
  proof -
    have o: "os_Close d2 = (None, d2)"
      by (simp add: os_Close_def next_fault_def d2_def)
    have r: "node_at (snd (os_Remove x t)) dbp = node_at t dbp" if "x \<noteq> dbp" for x t
      using Remove_touches [of x t] that by (cases "os_Remove x t") (simp add: touches_def)
    define d4 where "d4 = snd (os_Remove ?h (snd (os_Remove ?w (put_node dbp (File (fw_ex [1] d)) d2))))"
    have "node_at d4 dbp = Some (File (fw_ex [1] d))" using p by (simp add: d4_def r node_at_put)
    then show ?thesis using o off oc cw cp assms(3) by (simp add: applyWALIndex_def Let_def d4_def)
  qed
  have vf: "verifySQLite sq_ex dbp d4 = (None, d4)" for d4
    by (simp add: verifySQLite_def sq_ex_def)
  have "\<exists>s'. restore_generation codec_ex bk sq_ex ?ts g_ex dbp d0 st = (None, s', st) \<and>
      node_at s' dbp = Some (File (fw_ex [1] d))"
  proof -
    obtain d4 where d4: "applyWALIndex codec_ex bk sq_ex g_ex dbp (sg # l) d1 st = (None, d4, st)"
      "node_at d4 dbp = Some (File (fw_ex [1] d))"
      using ap by blast
    have so: "go_sort (<) [0 :: int] = [0]" by (simp add: go_sort_def)
    show ?thesis
      using d4 p by (simp add: restore_generation_def vf rm rs wg ls gr so Let_def)
  qed
  moreover have "gs \<noteq> []" using newest by (cases gs) (simp_all add: go_sort_def)
  ultimately show ?thesis
    unfolding Restore_def Let_def restore_opts using m assms(1) gens newest by simp
qed

subsection \<open>The run, on any backend that answers\<close>

text \<open>
  What the run needs of a backend: where the three objects of the run leave it, and what is read
  back. \<open>st0\<close> is empty, \<open>st1 z\<close> has the snapshot \<open>z\<close>, \<open>st2 z k d\<close> also the segment \<open>d\<close> under the name
  \<open>k\<close>.
\<close>

locale run_start =
  fixes bk :: "'b backend_ops" and snp :: "'b \<Rightarrow> string \<Rightarrow> bytes option"
    and sgs :: "'b \<Rightarrow> string \<Rightarrow> string \<Rightarrow> bytes option" and ok :: "'b \<Rightarrow> bool"
    and st0 :: 'b and st1 :: "bytes \<Rightarrow> 'b"
  assumes start: "ok st0" "snp st0 g = None" "sgs st0 g k = None"
    and write_snapshot: "WriteSnapshot bk g_ex z st0 = (None, st1 z)"
begin

lemma snapshot_ex: "takeSnapshot codec_ex bk (env_ex 1000) mgr_ex (world_ex st0) = (None, mgr1_ex, world_ex (st1 [1]))"
  by (simp add: takeSnapshot_def others_def env_ex_def open_file_def gzipBytes_def codec_ex_def
      world_ex_def write_snapshot [unfolded g_ex_def] pruneLocked_def mgr_ex_simps mgr1_ex_def
      g_ex_def cfg_ex_def)

lemma snap_env_ex: "snap_env fw_ex snp sgs (env_ex 1000) (world_ex st0)"
  by (simp add: snap_env_def env_ok_ex db_ok_def world_ex_def start)
    (simp add: env_ex_def in_i64_def i64_min_def i64_max_def)

lemma run_opened: "S [1] \<Longrightarrow> run_with fw_ex codec_ex bk snp sgs ok P S (1000, mgr1_ex, world_ex (st1 [1]))"
proof -
  assume s: "S [1]"
  have "run_with fw_ex codec_ex bk snp sgs ok P S (e_now (env_ex 1000) 0, mgr1_ex, world_ex (st1 [1]))"
    using _ snap_env_ex snapshot_ex by (rule run_with.opened) (simp_all add: world_ex_def start s)
  then show ?thesis by (simp add: env_ex_def)
qed

lemma run_cycle:
  assumes "S [1]"
  shows "run_with fw_ex codec_ex bk snp sgs ok P S (1000, mgr1_ex, cycle_ex wal (st1 [1]))"
proof -
  have "other_step fw_ex (w_files (world_ex (st1 [1]))) (new_cycle (Some wal) (w_files (world_ex (st1 [1]))))"
    by (rule other_step.restart) (simp_all add: restartable_def world_ex_def)
  from run_with.conn [OF run_opened [where S = S, OF assms] this] show ?thesis unfolding cycle_ex_def .
qed

lemma reachable_cycle: "reachable fw_ex codec_ex bk snp sgs ok (1000, mgr1_ex, cycle_ex wal (st1 [1]))"
  unfolding reachable_def by (rule run_cycle) simp

end

locale run_backend = run_start bk snp sgs ok st0 st1
  for bk :: "'b backend_ops" and snp :: "'b \<Rightarrow> string \<Rightarrow> bytes option"
    and sgs :: "'b \<Rightarrow> string \<Rightarrow> string \<Rightarrow> bytes option" and ok :: "'b \<Rightarrow> bool"
    and st0 :: 'b and st1 :: "bytes \<Rightarrow> 'b" +
  fixes sz :: "bytes \<Rightarrow> int" and st2 :: "bytes \<Rightarrow> string \<Rightarrow> bytes \<Rightarrow> 'b"
  assumes write_segment: "seg_ok sg \<Longrightarrow> WriteWALSegment bk g_ex sg d (st1 z) = (None, st2 z (segmentKey sg) d)"
    and generations: "seg_ok sg \<Longrightarrow> Generations bk (st2 z (segmentKey sg) d) =
      (Inr [\<lparr>g_ID = g_ex, g_CreatedAt = 1000\<rparr>], st2 z (segmentKey sg) d)"
    and snapshot_back: "ReadSnapshot bk g_ex (st2 z k d) = (Inr z, st2 z k d)"
    and segments: "seg_ok sg \<Longrightarrow> WALSegments bk g_ex (st2 z (segmentKey sg) d) =
      (Inr [sg\<lparr>s_Size := sz d\<rparr>], st2 z (segmentKey sg) d)"
    and segment_back: "seg_ok sg \<Longrightarrow> ReadWALSegment bk g_ex sg (st2 z (segmentKey sg) d) =
      (Inr d, st2 z (segmentKey sg) d)"
begin

abbreviation with_segment :: "bytes \<Rightarrow> 'b" where
  "with_segment d \<equiv> st2 [1] (segmentKey seg1_ex) d"

lemma sync_ex:
  "\<exists>b'. sync codec_ex bk (env_ex 2000) mgr1_ex (cycle_ex wal_ex (st1 [1])) =
     (None, b', cycle_ex wal_ex (with_segment wal_ex)) \<and> b_walIndex b' = 0"
proof -
  have "WriteWALSegment bk g_ex (seg0_ex (length wal_ex) 2000) wal_ex (st1 [1]) = (None, with_segment wal_ex)"
    using write_segment [OF seg1_ok] by (simp add: wal_ex_length)
  with sync_first [OF mgr1_ex_simps cycle_files(1) [of "st1 [1]"] _ wal_ex_not_Nil, where bk = bk and t = 2000]
  show ?thesis by (simp add: wal_ex_committed wal_ex_length cycle_update)
qed

text \<open>The restore.\<close>

lemma Restore_ex:
  assumes "dbp = [''d'', opt_db opts @ ''.db'']" and "opt_ts opts = zero_time \<or> opt_ts opts = 2000"
    and "d \<noteq> []"
  shows "\<exists>s'. Restore codec_ex bk sq_ex [''d''] opts l_ex (with_segment d) =
    (None, s', with_segment d) \<and> node_at s' dbp = Some (File (fw_ex [1] d))"
proof -
  define sg where "sg = \<lparr> s_Index = 0, s_Offset = 0, s_Size = sz d, s_CreatedAt = 2000 \<rparr>"
  have k: "segmentKey sg = segmentKey seg1_ex" by (simp add: sg_def seg0_ex_def segmentKey_def)
  have ls: "WALSegments bk g_ex (with_segment d) = (Inr [sg], with_segment d)"
    using segments [OF seg1_ok] by (simp add: sg_def seg0_ex_def)
  have at: "seg_at (opt_ts opts) sg" using assms(2) by (auto simp: seg_at_def sg_def)
  have gr: "group_segs (opt_ts opts) (go_sort seg_lt [sg]) (\<lambda>_. None, []) = ([0 \<mapsto> [sg]], [0])"
    using at by (simp add: go_sort_def sg_def fun_upd_def cong: if_cong)
  have rd: "ReadWALSegment bk g_ex sg (with_segment d) = (Inr d, with_segment d)"
    unfolding k [symmetric] by (rule segment_back) (simp add: seg_ok_def sg_def in_i64_def i64_min_def i64_max_def)
  show ?thesis
    using assms generations [OF seg1_ok] find_g_ex [OF assms(2)] snapshot_back ls gr
    by (rule Restore_run) (simp_all add: sg_def [symmetric] rd codec_ex_def io_Copy_def next_fault_None, simp_all add: sg_def)
qed

lemma sync_race_ex:
  "\<exists>b'. sync codec_ex bk env_race_ex mgr1_ex (cycle_ex wal_hdr_ex (st1 [1])) =
     (None, b', \<lparr> w_files = \<lparr> f_main = drop 32 wal_ex, f_wal = Some [], f_backfill = 0,
                               f_salts = [salts_of wal_h_ex] \<rparr>,
                  w_backend = with_segment wal_hdr_ex \<rparr>)"
proof -
  let ?E = env_race_ex
  have g: "g_ex \<noteq> ''''" unfolding g_ex_def by (rule NewGenerationID_not_Nil)
  let ?w = "cycle_ex wal_hdr_ex (st1 [1])"
  have W: "f_wal (w_files ?w) = Some wal_hdr_ex" "w_backend ?w = st1 [1]"
    by (simp_all add: cycle_ex_def world_ex_def)
  have F: "w_files ?w = \<lparr> f_main = [1], f_wal = Some wal_hdr_ex, f_backfill = 0,
      f_salts = [salts_of wal_h_ex] \<rparr>"
    by (simp add: cycle_ex_def world_ex_def new_cycle_def open_file_def committed_hdr_ex)
  have hl: "length wal_hdr_ex = 32" by (simp add: wal_hdr_ex_def)
  have scan: "walCommittedSize (scan_file ?E (Some wal_hdr_ex)) = Inr (wal_h_ex, 32)"
    by (simp add: env_race_ex_def env_ex_def scan_file_def open_file_def committed_hdr_ex)
  have o: "others ?E 0 v = v" for v :: "'b world" by (simp add: others_def env_race_ex_def)
  have r: "read_range ?E (Some wal_hdr_ex) 0 32 = Inr wal_hdr_ex"
    by (simp add: read_range_def env_race_ex_def env_ex_def open_file_def hl)
  have z: "gzipBytes codec_ex wal_hdr_ex = Inr (wal_hdr_ex, 32)"
    by (simp add: gzipBytes_def codec_ex_def hl)
  define sg where "sg = \<lparr>s_Index = 0, s_Offset = 0, s_Size = 32, s_CreatedAt = 2000\<rparr>"
  have k: "segmentKey sg = segmentKey seg1_ex" by (simp add: sg_def seg0_ex_def segmentKey_def)
  have w: "WriteWALSegment bk g_ex sg wal_hdr_ex (st1 [1]) =
      (None, with_segment wal_hdr_ex)"
    unfolding k [symmetric] by (rule write_segment)
      (simp add: seg_ok_def sg_def in_i64_def i64_min_def i64_max_def)
  have t: "track_salts wal_h_ex mgr1_ex =
      mgr1_ex\<lparr>b_salt1 := h_salt1 wal_h_ex, b_salt2 := h_salt2 wal_h_ex\<rparr>"
    by (simp add: track_salts_def mgr1_ex_simps)
  have n: "e_now ?E k = 2000" for k by (simp add: env_race_ex_def env_ex_def)
  have c: "others ?E 1 v = v\<lparr>w_files := commit_ex (w_files v)\<rparr>" "e_ckpt ?E = truncate_ex" "others ?E 2 v = v"
    "e_stat ?E = None" for v :: "'b world"
    by (simp_all add: env_race_ex_def env_ex_def others_def)
  have T: "truncate_ex (commit_ex (w_files ?w)) = (None, \<lparr> f_main = drop 32 wal_ex, f_wal = Some [],
      f_backfill = 0, f_salts = [salts_of wal_h_ex] \<rparr>)"
    by (simp add: F truncate_ex_def commit_ex_def db_image_def fw_ex_def wal_ex_committed wal_ex_length)
  have "CheckpointThreshold (b_cfg mgr1_ex) = 32" by (simp add: mgr1_ex_simps cfg_ex_def)
  then show ?thesis
    using g by (simp add: sync_def scan t o ship_def r z w [unfolded sg_def] n W mgr1_ex_simps
        maybeCheckpoint_def c T wal_nonempty_def del: One_nat_def)
qed

end

subsection \<open>On the local backend\<close>

lemma l_snap_ex: "l_snap dir l_ex g = None"
  by (simp add: l_snap_def l_ex_def node_at_def snap_path_def genDir_def)

lemma l_seg_ex: "l_seg dir l_ex g k = None"
  by (simp add: l_seg_def l_ex_def node_at_def seg_path_def genDir_def)

abbreviation backend_with :: "bytes \<Rightarrow> fs" where
  "backend_with d \<equiv> seg_tree g_ex [1] (segmentKey seg1_ex) d"

abbreviation "backend3_ex \<equiv> backend_with wal_ex"
abbreviation "world2_ex \<equiv> cycle_ex wal_ex (snap_tree g_ex [1])"
abbreviation "world2h_ex \<equiv> cycle_ex wal_hdr_ex (snap_tree g_ex [1])"

interpretation run_local: run_backend "local_ops [''b'']" "l_snap [''b'']" "l_seg [''b'']" "l_inv [''b'']" l_ex
  "snap_tree g_ex" "\<lambda>d. int (length d)" "seg_tree g_ex"
proof (unfold_locales, goal_cases)
  case (6 sg z d)
  show ?case by (rule Generations_ex [OF g_ex_parse])
next
  case (8 sg z d)
  from WALSegments_ex [OF parse_segmentKey [OF 8]] show ?case by simp
qed (rule l_inv_ex l_snap_ex l_seg_ex WriteSnapshot_ex WriteWALSegment_ex ReadSnapshot_ex ReadWALSegment_ex)+

subsection \<open>A later snapshot\<close>

text \<open>The loop snapshots at 3000; the backend then has two generations.\<close>

definition g2_ex :: string where "g2_ex = NewGenerationID 3000 [7]"

lemma g2_ex_text: "g2_ex = ''0000000000000bb8-07''" "g_ex = ''00000000000003e8-07''"
  by code_simp+

lemma g2_ex_parse: "ParseGenerationID g2_ex = Inr 3000"
  unfolding g2_ex_def by (rule Parse_NewGenerationID) (simp_all add: in_i64_def i64_min_def i64_max_def)

definition two_ex :: fs where
  "two_ex = \<lparr> tree = tree backend3_ex @ [([''b'', g2_ex], Dir), ([''b'', g2_ex, snap_name], File [1])], faults = [] \<rparr>"

lemma two_WriteSnapshot: "WriteSnapshot (local_ops [''b'']) g2_ex [1] backend3_ex = (None, two_ex)"
  by (simp add: local_ops_def local_WriteSnapshot_def Let_def genDir_def os_MkdirAll_def next_fault_def
      two_ex_def node_at_def put_node_def atomicWrite_def os_Create_def io_Copy_def tmp_path_def
      os_Close_def os_Rename_def del_node_def seg_tree_def snap_name_def g2_ex_text)

lemma snapshot2_turn:
  assumes "b_cfg b = cfg_ex"
  shows "\<exists>page b'. run_step codec_ex (local_ops [''b'']) (env_ex 3000) SnapTick b (cycle_ex wal_ex backend3_ex) =
    (page, True, b', cycle_ex wal_ex two_ex) \<and> b_generation b' = g2_ex"
  using assms
  by (auto simp: run_step_def run_op_def takeSnapshot_def others_def env_ex_def open_file_def gzipBytes_def codec_ex_def
      cycle_files two_WriteSnapshot [unfolded g2_ex_def] pruneLocked_def cfg_ex_def g2_ex_def report_def Let_def
      cycle_update)

lemma two_Generations:
  "Generations (local_ops [''b'']) two_ex =
    (Inr [\<lparr>g_ID = g2_ex, g_CreatedAt = 3000\<rparr>, \<lparr>g_ID = g_ex, g_CreatedAt = 1000\<rparr>], two_ex)"
proof -
  have "dir_entries [''b''] two_ex = go_sort (\<lambda>a b. fst a < fst b) [(g_ex, Dir), (g2_ex, Dir)]"
    by (simp add: dir_entries_def two_ex_def seg_tree_def g2_ex_text snap_name_def)
  also have "\<dots> = [(g_ex, Dir), (g2_ex, Dir)]" unfolding g2_ex_text by code_simp
  finally have "gen_entries (dir_entries [''b''] two_ex) =
      [\<lparr>g_ID = g_ex, g_CreatedAt = 1000\<rparr>, \<lparr>g_ID = g2_ex, g_CreatedAt = 3000\<rparr>]"
    using g_ex_parse g2_ex_parse by simp
  moreover have "node_at two_ex [''b''] = Some Dir" "faults two_ex = []"
    by (simp_all add: two_ex_def seg_tree_def node_at_def)
  ultimately show ?thesis
    by (simp add: local_ops_def local_Generations_def os_ReadDir_def no_fault go_sort_def gen_lt_def)
qed

lemma two_Restore:
  assumes "opts = [\<lparr>ro_DB = ''x'', ro_Timestamp = 2000\<rparr>]"
  shows "\<exists>s'. Restore codec_ex (local_ops [''b'']) sq_ex [''d''] opts l_ex two_ex = (None, s', two_ex) \<and>
    node_at s' [''d'', ''x.db''] = Some (File (fw_ex [1] wal_ex))"
proof -
  let ?bk = "local_ops [''b'']"
  define sg where "sg = \<lparr> s_Index = 0, s_Offset = 0, s_Size = int (length wal_ex), s_CreatedAt = 2000 \<rparr>"
  have o: "opt_ts opts = 2000" "opt_db opts = ''x''" by (simp_all add: assms opt_ts_def opt_db_def)
  have k: "segmentKey sg = segmentKey seg1_ex" by (simp add: sg_def seg0_ex_def segmentKey_def)
  have q: "faults two_ex = []" by (simp add: two_ex_def)
  have "dir_entries [''b'', g_ex, ''wal''] two_ex = [(segmentKey seg1_ex, File wal_ex)]"
    by (simp add: dir_entries_def two_ex_def seg_tree_def go_sort_def g2_ex_text snap_name_def)
  moreover have "node_at two_ex [''b'', g_ex, ''wal''] = Some Dir"
    by (simp add: two_ex_def seg_tree_def node_at_def snap_name_def)
  ultimately have ls: "WALSegments ?bk g_ex two_ex = (Inr [sg], two_ex)"
    using parse_segmentKey [OF seg1_ok] q
    by (simp add: local_ops_def local_WALSegments_def os_ReadDir_def genDir_def no_fault go_sort_def sg_def seg0_ex_def)
  have rs: "ReadSnapshot ?bk g_ex two_ex = (Inr [1], two_ex)"
    by (simp add: local_ops_def local_ReadSnapshot_def os_ReadFile_def genDir_def no_fault q)
      (simp add: two_ex_def seg_tree_def node_at_def snap_name_def)
  have rd: "ReadWALSegment ?bk g_ex sg two_ex = (Inr wal_ex, two_ex)"
    by (simp add: local_ops_def local_ReadWALSegment_def os_ReadFile_def genDir_def no_fault q k)
      (simp add: two_ex_def seg_tree_def node_at_def snap_name_def)
  have gr: "group_segs (opt_ts opts) (go_sort seg_lt [sg]) (\<lambda>_. None, []) = ([0 \<mapsto> [sg]], [0])"
    by (simp add: o seg_at_def go_sort_def sg_def fun_upd_def cong: if_cong)
  have nw: "find (gen_at (opt_ts opts)) (go_sort gen_lt
      [\<lparr>g_ID = g2_ex, g_CreatedAt = 3000\<rparr>, \<lparr>g_ID = g_ex, g_CreatedAt = 1000\<rparr>]) = Some \<lparr>g_ID = g_ex, g_CreatedAt = 1000\<rparr>"
    by (simp add: o gen_at_def zero_time_def go_sort_def gen_lt_def)
  have p: "[''d'', ''x.db''] = [''d'', opt_db opts @ ''.db'']" by (simp add: o)
  show ?thesis
    by (rule Restore_run [OF p _ wal_ex_not_Nil two_Generations nw rs ls gr])
      (simp_all add: o rd codec_ex_def io_Copy_def next_fault_None, simp_all add: sg_def)
qed

end
