(* ===== verification/Restore_Success.thy ===== *)
theory Restore_Success
  imports Backup_Example
begin

text \<open>
  When restore succeeds. The theorems on what a restore leaves say nothing of one that fails; here
  the conditions are collected under which it returns without an error: a backend that answers
  reads and lists no newer generation without its snapshot (the locale \<open>serving_backend\<close>), stored
  objects that decode (the invariant of the chain has them), a target directory with room for the
  files, no failing system call, databases that were sound whenever the engine copied them, and a
  SQLite that opens and verifies sound databases. Together with the recovery theorem they make
  restore after a successful sync totally correct. A failed snapshot breaks the second condition:
  the directory it leaves hides the good backup.
\<close>

subsection \<open>Files without faults\<close>

text \<open>A place for a database: a directory in which neither the database nor its WAL is one.\<close>

definition target_ok :: "path \<Rightarrow> fs \<Rightarrow> bool" where
  "target_ok p s \<longleftrightarrow> faults s = [] \<and> fs_wf s \<and> p \<noteq> [] \<and> node_at s (butlast p) = Some Dir \<and>
     node_at s p \<noteq> Some Dir \<and> node_at s (with_suffix p ''-wal'') \<noteq> Some Dir"

lemma faults_put [simp]: "faults (put_node p n s) = faults s"
  by (simp add: put_node_def)

lemma faults_del [simp]: "faults (del_node p s) = faults s"
  by (simp add: del_node_def)

lemma butlast_with_suffix [simp]: "butlast (with_suffix p x) = butlast p"
  by (simp add: with_suffix_def)

lemma with_suffix_inj [simp]: "with_suffix p x = with_suffix p y \<longleftrightarrow> x = y"
  by (simp add: with_suffix_def)

lemma butlast_neq_self: "p \<noteq> [] \<Longrightarrow> butlast p \<noteq> p"
  by (metis butlast_snoc append_butlast_last_id not_Cons_self2 self_append_conv)

lemma Create_quiet:
  "faults s = [] \<Longrightarrow> node_at s (butlast p) = Some Dir \<Longrightarrow> node_at s p \<noteq> Some Dir \<Longrightarrow>
   os_Create p s = (None, put_node p (File []) s)"
  by (simp add: os_Create_def next_fault_None)

lemma Copy_quiet: "faults s = [] \<Longrightarrow> io_Copy p d s = (None, put_node p (File (contents (node_at s p) @ d)) s)"
  by (simp add: io_Copy_def next_fault_None)

lemma Close_quiet: "faults s = [] \<Longrightarrow> os_Close s = (None, s)"
  by (simp add: os_Close_def next_fault_None)

lemma Remove_quiet: "faults s = [] \<Longrightarrow> faults (snd (os_Remove p s)) = []"
  by (simp add: os_Remove_def next_fault_None split: option.split node.split)

lemma Remove_node: "faults s = [] \<Longrightarrow> node_at (snd (os_Remove p s)) q =
    (if q = p \<and> node_at s p \<noteq> Some Dir then None else node_at s q)"
  by (auto simp: os_Remove_def next_fault_None node_at_del split: option.split node.split)

lemma Remove_wf: "fs_wf s \<Longrightarrow> fs_wf (snd (os_Remove p s))"
  using Remove_touches [of p s] by (cases "os_Remove p s") (simp add: touches_def)

lemma target_put:
  assumes "target_ok p s" and "q = p \<or> q = with_suffix p ''-wal''"
  shows "target_ok p (put_node q (File d) s)"
proof -
  have "q \<noteq> []" "node_at s (butlast q) = Some Dir" "node_at s q \<noteq> Some Dir"
    using assms unfolding target_ok_def by (elim conjE disjE; simp)+
  then have "fs_wf (put_node q (File d) s)" using assms(1) by (intro fs_wf_put) (simp_all add: target_ok_def)
  moreover have "butlast p \<noteq> q"
    using assms(1) \<open>node_at s q \<noteq> Some Dir\<close> by (auto simp: target_ok_def)
  ultimately show ?thesis using assms(1) by (simp add: target_ok_def node_at_put)
qed

lemma target_Remove: "target_ok p s \<Longrightarrow> target_ok p (snd (os_Remove q s))"
  unfolding target_ok_def by (auto simp: Remove_quiet Remove_node Remove_wf)

text \<open>The target directory: it is there or can be made, with room for the database in it.\<close>

definition free_target :: "path \<Rightarrow> string \<Rightarrow> fs \<Rightarrow> bool" where
  "free_target dir name s \<longleftrightarrow> faults s = [] \<and> fs_wf s \<and> (\<forall>k d. node_at s (take k dir) \<noteq> Some (File d)) \<and>
     node_at s (dir @ [name]) \<noteq> Some Dir \<and> node_at s (dir @ [name @ ''-wal'']) \<noteq> Some Dir"

lemma mkdirs_quiet:
  assumes "\<And>k d. node_at s (p @ take (Suc k) cs) \<noteq> Some (File d)"
  shows "\<exists>s'. mkdirs p cs s = (None, s') \<and> faults s' = faults s \<and>
    (\<forall>q. length p + length cs < length q \<longrightarrow> node_at s' q = node_at s q)"
  using assms
proof (induction p cs s rule: mkdirs.induct)
  case (2 p c cs s)
  let ?q = "p @ [c]"
  have nf: "node_at s (?q @ take k cs) \<noteq> Some (File d)" for k d using 2(3) [of k d] by simp
  show ?case
  proof (cases "node_at s ?q")
    case None
    have "node_at (put_node ?q Dir s) (?q @ take (Suc k) cs) \<noteq> Some (File d)" for k d
      using nf [of "Suc k" d] by (simp add: node_at_put)
    from 2(1) [OF refl None this] show ?thesis using None by (auto simp: node_at_put Let_def)
  next
    case (Some n)
    then have "n = Dir" using nf [of 0] by (cases n) auto
    then show ?thesis using 2(2) [OF refl Some] Some nf [of "Suc _"] by (auto simp: Let_def)
  qed
qed simp

lemma MkdirAll_target:
  assumes "free_target dir name s"
  shows "\<exists>s'. os_MkdirAll dir s = (None, s') \<and> target_ok (dir @ [name]) s'"
proof -
  have f: "faults s = []" "fs_wf s" using assms by (simp_all add: free_target_def)
  obtain s' where m: "mkdirs [] dir s = (None, s')" "faults s' = []"
    "\<forall>q. length dir < length q \<longrightarrow> node_at s' q = node_at s q"
    using mkdirs_quiet [of s "[]" dir] assms by (auto simp: free_target_def)
  have M: "os_MkdirAll dir s = (None, s')" using m(1) f(1) by (simp add: os_MkdirAll_def next_fault_None)
  have wf: "fs_wf s'" by (rule fs_wf_MkdirAll [OF M f(2)])
  have "node_at s' dir = Some Dir"
    using MkdirAll_made [OF M, of "length dir"] fs_wf_root [OF wf] by (cases "dir = []") simp_all
  then show ?thesis
    using M wf m(2,3) assms by (simp add: target_ok_def free_target_def with_suffix_def)
qed

subsection \<open>What has to answer\<close>

text \<open>
  SQLite without failing calls. \<open>sound m\<close> stands for a database file without corruption: SQLite opens
  and checkpoints a sound database with a WAL beside it when what the WAL makes of it is sound too,
  and its integrity check accepts a sound database. Nothing is said of a WAL that makes the
  database unsound.
\<close>

definition sqlite_serves :: "(bytes \<Rightarrow> bool) \<Rightarrow> (bytes \<Rightarrow> bytes \<Rightarrow> bytes) \<Rightarrow> sqlite_ops \<Rightarrow> bool" where
  "sqlite_serves sound fw q \<longleftrightarrow>
     (\<forall>p s m w. target_ok p s \<longrightarrow> node_at s p = Some (File m) \<longrightarrow>
        node_at s (with_suffix p ''-wal'') = Some (File w) \<longrightarrow> sound m \<longrightarrow> sound (fw m w) \<longrightarrow>
        (\<exists>s'. open_and_checkpoint q p s = (None, s') \<and> target_ok p s')) \<and>
     (\<forall>p s m. target_ok p s \<longrightarrow> node_at s p = Some (File m) \<longrightarrow> sound m \<longrightarrow>
        fst (verifySQLite q p s) = None)"

lemma sqlite_servesD:
  assumes "sqlite_serves sound fw q"
  shows "target_ok p s \<Longrightarrow> node_at s p = Some (File m) \<Longrightarrow>
      node_at s (with_suffix p ''-wal'') = Some (File w) \<Longrightarrow> sound m \<Longrightarrow> sound (fw m w) \<Longrightarrow>
      \<exists>s'. open_and_checkpoint q p s = (None, s') \<and> target_ok p s'"
    and "target_ok p s \<Longrightarrow> node_at s p = Some (File m) \<Longrightarrow> sound m \<Longrightarrow>
      \<exists>s'. verifySQLite q p s = (None, s')"
  using assms unfolding sqlite_serves_def by (blast, metis prod.collapse)

text \<open>What a restore has laid down after some of the indexes is the replay of the segments before the
  next one.\<close>

lemma filter_less_take:
  fixes xs :: "int list"
  assumes "sorted_wrt (<) xs" and "n < length xs"
  shows "filter (\<lambda>x. x < xs ! n) xs = take n xs"
proof -
  have "x < xs ! n" if "x \<in> set (take n xs)" for x
    using that assms by (auto simp: in_set_conv_nth sorted_wrt_iff_nth_less)
  moreover have "\<not> x < xs ! n" if x: "x \<in> set (drop n xs)" for x
  proof -
    obtain i where "i < length (drop n xs)" "drop n xs ! i = x" using x unfolding in_set_conv_nth by blast
    then have "x = xs ! (n + i)" "n + i < length xs" using assms(2) by auto
    then show ?thesis using assms sorted_wrt_nth_less [of "(<)" xs n "n + i"] by (cases "i = 0") auto
  qed
  ultimately have "filter (\<lambda>x. x < xs ! n) (take n xs @ drop n xs) = take n xs"
    by (simp add: filter_id_conv filter_empty_conv del: append_take_drop_id)
  then show ?thesis by simp
qed

lemma replay_take:
  "\<exists>k. foldl (\<lambda>m i. replay_index fw (of_index i l) m) m (take n (sort (remdups (map (s_Index \<circ> fst) l)))) =
     replay fw (before k l) m"
proof -
  let ?is = "sort (remdups (map (s_Index \<circ> fst) l))"
  have inc: "sorted_wrt (<) ?is" by (simp add: strict_sorted_iff)
  show ?thesis
  proof (cases "n < length ?is")
    case False
    have "before (Max (set (map (s_Index \<circ> fst) l)) + 1) l = l"
    proof (rule before_all, rule ballI)
      fix x assume "x \<in> set l"
      then have "s_Index (fst x) \<le> Max (set (map (s_Index \<circ> fst) l))" by (intro Max_ge) auto
      then show "s_Index (fst x) < Max (set (map (s_Index \<circ> fst) l)) + 1" by simp
    qed
    moreover have "take n ?is = ?is" using False by simp
    ultimately show ?thesis unfolding replay_def by metis
  next
    case True
    define k where "k = ?is ! n"
    have t: "sort (remdups (map (s_Index \<circ> fst) (before k l))) = filter (\<lambda>x. x < k) ?is"
      by (rule sorted_distinct_set_unique) (auto simp: before_def intro: sorted_wrt_filter)
    also have "\<dots> = take n ?is" unfolding k_def by (rule filter_less_take [OF inc True])
    finally have e: "sort (remdups (map (s_Index \<circ> fst) (before k l))) = take n ?is" .
    have "set (take n ?is) = {x \<in> set ?is. x < k}" unfolding e [symmetric] t by auto
    then have "foldl (\<lambda>m i. replay_index fw (of_index i l) m) m (take n ?is) =
        foldl (\<lambda>m i. replay_index fw (of_index i (before k l)) m) m (take n ?is)"
      by (intro foldl_cong) (auto simp: of_index_before)
    then have "foldl (\<lambda>m i. replay_index fw (of_index i l) m) m (take n ?is) = replay fw (before k l) m"
      unfolding replay_def e .
    then show ?thesis by blast
  qed
qed

text \<open>The objects of a list of segments are there and decode.\<close>

definition readable :: "codec \<Rightarrow> (string \<Rightarrow> bytes option) \<Rightarrow> WALSegmentInfo \<Rightarrow> bool" where
  "readable cd objs sg \<longleftrightarrow> seg_ok sg \<and> (\<exists>z d. objs (segmentKey sg) = Some z \<and> gzip_read cd z = Inr d)"

lemma gzip_read_Inr: "gzip_read cd z = Inr d \<longleftrightarrow> gzip_header cd z = None \<and> gzip_stream cd z = (d, None)"
  by (auto simp: gzip_read_def split: option.splits prod.splits)

lemma chain_readable:
  assumes "chain_objs cd objs ch" and "seg_ok sg" and "objs (segmentKey sg) \<noteq> None"
  shows "readable cd objs sg"
proof -
  obtain x where x: "x \<in> set ch" "segmentKey sg = segmentKey (fst x)"
    using assms by (auto simp: chain_objs_def)
  then obtain z where "objs (segmentKey (fst x)) = Some z" "gzip_read cd z = Inr (snd x)"
    using assms(1) by (auto simp: chain_objs_def)
  then show ?thesis using assms(2) x(2) by (auto simp: readable_def)
qed

text \<open>No generation without a snapshot is as new as one with a snapshot.\<close>

definition stale :: "(string \<Rightarrow> bytes option) \<Rightarrow> instant \<Rightarrow> bool" where
  "stale snp t \<longleftrightarrow> (\<forall>g' t'. snp g' \<noteq> None \<longrightarrow> ParseGenerationID g' = Inr t' \<longrightarrow> t < t')"

text \<open>A backend in the states \<open>serves\<close> answers every read, keeps doing so, and what it lists without
  a snapshot is older than what has one.\<close>

locale serving_backend = backup_backend bk snap seg invar names
  for bk :: "'b backend_ops" and snap :: "'b \<Rightarrow> string \<Rightarrow> bytes option"
    and seg :: "'b \<Rightarrow> string \<Rightarrow> string \<Rightarrow> bytes option" and invar :: "'b \<Rightarrow> bool"
    and names :: "string \<Rightarrow> bool" +
  fixes serves :: "'b \<Rightarrow> bool"
  assumes serves_snapshot: "\<lbrakk>invar b; serves b; snap b g = Some z\<rbrakk> \<Longrightarrow>
      \<exists>b'. ReadSnapshot bk g b = (Inr z, b') \<and> serves b'"
    and serves_segment: "\<lbrakk>invar b; serves b; seg_ok s; seg b g (segmentKey s) = Some z\<rbrakk> \<Longrightarrow>
      \<exists>b'. ReadWALSegment bk g s b = (Inr z, b') \<and> serves b'"
    and serves_generations: "\<lbrakk>invar b; serves b; snap b g \<noteq> None\<rbrakk> \<Longrightarrow>
      \<exists>l b'. Generations bk b = (Inr l, b') \<and> serves b' \<and> (\<forall>x \<in> set l. snap b (g_ID x) \<noteq> None \<or> stale (snap b) (g_CreatedAt x))"
    and serves_segments: "\<lbrakk>invar b; serves b; snap b g \<noteq> None\<rbrakk> \<Longrightarrow>
      \<exists>l b'. WALSegments bk g b = (Inr l, b') \<and> serves b'"
begin

lemma copy_segments_serves:
  assumes "invar b" and "serves b" and "\<forall>sg \<in> set segs. readable cd (seg b gen) sg" and "faults s = []"
  shows "\<exists>k s' b'. copy_segments cd bk gen p segs n s b = (Inr k, s', b') \<and> faults s' = [] \<and> serves b'"
  using assms
proof (induction segs arbitrary: n s b)
  case (Cons sg segs)
  show ?case
  proof (cases "s_Offset sg = int n")
    case False
    then show ?thesis using Cons.prems by simp
  next
    case True
    obtain z d where z: "seg_ok sg" "seg b gen (segmentKey sg) = Some z" "gzip_read cd z = Inr d"
      using Cons.prems(3) by (auto simp: readable_def)
    obtain b1 where r: "ReadWALSegment bk gen sg b = (Inr z, b1)" "serves b1"
      using serves_segment [OF Cons.prems(1,2) z(1,2)] by blast
    have R: "invar b1" "seg b1 = seg b" using read_segment [OF Cons.prems(1) r(1)] by simp_all
    define s1 where "s1 = put_node p (File (contents (node_at s p) @ d)) s"
    have "copy_segments cd bk gen p (sg # segs) n s b = copy_segments cd bk gen p segs (n + length d) s1 b1"
      using True r(1) z(3) Copy_quiet [OF Cons.prems(4)] by (simp add: gzip_read_Inr s1_def)
    then show ?thesis using Cons.IH [of b1 s1 "n + length d"] R r(2) Cons.prems(3,4) by (simp add: s1_def)
  qed
qed simp

text \<open>One index: afterwards the database is what the replay says, in a place that is still one.\<close>

lemma applyWALIndex_serves:
  assumes "invar b" and "serves b" and "\<forall>sg \<in> set segs. readable cd (seg b gen) sg"
    and "target_ok p s" and "node_at s p = Some (File m)" and "sound m"
    and "sound (replay_index fw (with_data cd (seg b gen) segs) m)" and "sqlite_serves sound fw q"
  shows "\<exists>s' b'. applyWALIndex cd bk q gen p segs s b = (None, s', b') \<and> serves b' \<and> target_ok p s'"
proof (cases "segs = [] \<or> s_Offset (hd segs) \<noteq> 0")
  case True
  then show ?thesis using assms(2,4) by (cases segs) (auto simp: applyWALIndex_def)
next
  case False
  then obtain s0 rest where segs: "segs = s0 # rest" "s_Offset s0 = 0" by (cases segs) auto
  let ?w = "with_suffix p ''-wal''"
  define s1 where "s1 = put_node ?w (File []) s"
  have t: "target_ok p s1" unfolding s1_def using assms(4) by (rule target_put) simp
  have c: "os_Create ?w s = (None, s1)"
    unfolding s1_def using assms(4) by (intro Create_quiet) (simp_all add: target_ok_def)
  have n1: "node_at s1 ?w = Some (File [])" "node_at s1 p = Some (File m)"
    using assms(4,5) by (simp_all add: s1_def node_at_put target_ok_def)
  have "faults s1 = []" using t by (simp add: target_ok_def)
  from copy_segments_serves [OF assms(1-3) this] obtain k s2 b2 where
    y: "copy_segments cd bk gen ?w segs 0 s1 b = (Inr k, s2, b2)" and f2: "faults s2 = []" and sv: "serves b2"
    by blast
  have ok: "\<forall>sg \<in> set segs. seg_ok sg" using assms(3) by (simp add: readable_def)
  let ?c = "contig 0 (with_data cd (seg b gen) segs)"
  have K: "touches ?w s1 s2" "node_at s2 ?w = Some (File ?c)" "k = length ?c"
    using copy_segments_ok [OF y assms(1) ok n1(1)] by simp_all
  have "butlast p \<noteq> ?w" using t n1(1) by (auto simp: target_ok_def)
  then have t2: "target_ok p s2" "node_at s2 p = Some (File m)"
    using t f2 K n1(2) by (auto simp: target_ok_def touches_def)
  show ?thesis
  proof (cases "k = 0")
    case True
    then show ?thesis
      using segs c y sv target_Remove [OF t2(1)] Close_quiet [OF f2] by (simp add: applyWALIndex_def Let_def)
  next
    case False
    then have "sound (fw m ?c)" using assms(7) K(3) by (simp add: replay_index_def Let_def split: if_splits)
    then obtain s3 where "open_and_checkpoint q p s2 = (None, s3)" "target_ok p s3"
      using sqlite_servesD(1) [OF assms(8) t2(1,2) K(2) assms(6)] by blast
    then show ?thesis
      using segs c y sv False target_Remove Close_quiet [OF f2] by (simp add: applyWALIndex_def Let_def)
  qed
qed

lemma apply_indexes_serves:
  assumes "invar b" and "serves b" and "\<forall>i. \<forall>sg \<in> set (seg_list f i). readable cd (seg b gen) sg"
    and "target_ok p s" and "node_at s p = Some (File m)"
    and "\<And>n. sound (foldl (\<lambda>m i. replay_index fw (with_data cd (seg b gen) (seg_list f i)) m) m (take n is))"
    and "sqlite_ok fw q" and "sqlite_serves sound fw q"
  shows "\<exists>s' b' m'. apply_indexes cd bk q gen p f is s b = (None, s', b') \<and> target_ok p s' \<and>
    node_at s' p = Some (File m') \<and> sound m'"
  using assms(1-6)
proof (induction "is" arbitrary: s b m)
  case Nil
  then show ?case using Nil.prems(6) [of 0] by auto
next
  case (Cons i "is")
  let ?l = "seg_list f i"
  have l: "\<forall>sg \<in> set ?l. readable cd (seg b gen) sg" using Cons.prems(3) by blast
  have snd: "sound m" "sound (replay_index fw (with_data cd (seg b gen) ?l) m)"
    using Cons.prems(6) [of 0] Cons.prems(6) [of 1] by simp_all
  from applyWALIndex_serves [OF Cons.prems(1,2) l Cons.prems(4,5) snd assms(8)] obtain s1 b1 where
    a: "applyWALIndex cd bk q gen p ?l s b = (None, s1, b1)" and sv: "serves b1" and t: "target_ok p s1" by blast
  have wf: "\<forall>sg \<in> set ?l. seg_ok sg" "fs_wf s" "p \<noteq> []"
    using l Cons.prems(4) by (simp_all add: readable_def target_ok_def)
  note A = applyWALIndex_ok [OF a Cons.prems(1) wf(1) assms(7) wf(2) Cons.prems(5) wf(3)]
  have "sound (foldl (\<lambda>m i. replay_index fw (with_data cd (seg b1 gen) (seg_list f i)) m)
      (replay_index fw (with_data cd (seg b gen) ?l) m) (take n is))" for n
    using Cons.prems(6) [of "Suc n"] A by simp
  from Cons.IH [OF _ sv _ t _ this] A Cons.prems(3) a show ?case by (simp add: seg_list_def)
qed

lemma writeGunzipped_quiet:
  assumes "target_ok p s" and "gzip_read cd z = Inr base"
  shows "\<exists>s'. writeGunzipped cd p z s = (None, s') \<and> target_ok p s' \<and> node_at s' p = Some (File base)"
proof -
  have c: "os_Create p s = (None, put_node p (File []) s)"
    using assms(1) by (intro Create_quiet) (simp_all add: target_ok_def)
  have t: "target_ok p (put_node p (File d) (put_node p (File []) s))" for d
    using assms(1) by (intro target_put) simp_all
  have "faults s = []" using assms(1) by (simp add: target_ok_def)
  then show ?thesis
    using assms(2) c t by (simp add: writeGunzipped_def gzip_read_Inr Copy_quiet Close_quiet node_at_put)
qed

lemma restore_generation_serves:
  assumes "invar b" and "serves b" and "snap b gen = Some z" and "gzip_read cd z = Inr base"
    and "\<And>l k. lists_segs (seg b gen) l \<Longrightarrow>
      sound (replay fw (before k (with_data cd (seg b gen) (filter (seg_at ts) l))) base)"
    and "\<And>sg. seg_ok sg \<Longrightarrow> seg b gen (segmentKey sg) \<noteq> None \<Longrightarrow> readable cd (seg b gen) sg"
    and "target_ok p s" and "sqlite_ok fw q" and "sqlite_serves sound fw q"
  shows "\<exists>s' b'. restore_generation cd bk q ts gen p s b = (None, s', b')"
proof -
  let ?rm = "\<lambda>x s. snd (os_Remove x s)"
  define s0 where "s0 = ?rm (with_suffix p ''-shm'') (?rm (with_suffix p ''-wal'') (?rm p s))"
  have "target_ok p s0" using assms(7) by (simp add: s0_def target_Remove)
  from writeGunzipped_quiet [OF this assms(4)] obtain s1 where
    w: "writeGunzipped cd p z s0 = (None, s1)" "target_ok p s1" "node_at s1 p = Some (File base)" by blast
  obtain b1 where r: "ReadSnapshot bk gen b = (Inr z, b1)" "serves b1"
    using serves_snapshot [OF assms(1-3)] by blast
  have R: "invar b1" "snap b1 = snap b" "seg b1 = seg b" using read_snapshot [OF assms(1) r(1)] by simp_all
  obtain segs b2 where l: "WALSegments bk gen b1 = (Inr segs, b2)" "serves b2"
    using serves_segments [OF R(1) r(2), of gen] R(2) assms(3) by auto
  have L: "invar b2" "seg b2 = seg b" "\<forall>x \<in> set segs. readable cd (seg b gen) x"
    using list_segments [OF R(1) l(1)] snap_name [OF assms(1), of gen] assms(3,6) R(3)
    by (auto simp: image_iff)
  obtain f "is" where g: "group_segs ts (go_sort seg_lt segs) (\<lambda>_. None, []) = (f, is)" by fastforce
  have rd: "\<forall>i. \<forall>sg \<in> set (seg_list f i). readable cd (seg b2 gen) sg"
    using L(2,3) by (simp add: group_segs_result(1) [OF g])
  let ?d = "with_data cd (seg b2 gen)" and ?l = "go_sort seg_lt segs"
  have S: "distinct (map segmentKey segs)" "\<forall>x \<in> set segs. seg_ok x"
    "\<forall>s. seg_ok s \<longrightarrow> (segmentKey s \<in> segmentKey ` set segs) = (seg b gen (segmentKey s) \<noteq> None)"
    using list_segments [OF R(1) l(1)] snap_name [OF assms(1), of gen] assms(3) R(3) by simp_all
  have "mset (map segmentKey ?l) = mset (map segmentKey segs)" by simp
  then have "distinct (map segmentKey ?l)" using S(1) by (metis mset_eq_imp_distinct_iff)
  then have "lists_segs (seg b gen) ?l" using S(2,3) seg_order.sorted_go_sort by (simp add: lists_segs_def)
  then have ok: "sound (replay fw (before k (?d (filter (seg_at ts) ?l))) base)" for k
    using assms(5) by (simp add: L(2) R(3))
  have o: "?d (seg_list f i) = of_index i (?d (filter (seg_at ts) ?l))" for i
    unfolding group_segs_result(1) [OF g] of_index_def with_data_def by (simp add: filter_map comp_def)
  have k: "map (s_Index \<circ> fst) (?d (filter (seg_at ts) ?l)) = map s_Index (filter (seg_at ts) ?l)"
    by (simp add: with_data_def)
  have "sound (foldl (\<lambda>m i. replay_index fw (?d (seg_list f i)) m) base (take n (go_sort (<) is)))" for n
    using replay_take [of fw "?d (filter (seg_at ts) ?l)" base n] ok
    unfolding o group_segs_result(2) [OF g] k by metis
  from apply_indexes_serves [OF L(1) l(2) rd w(2,3) this assms(8,9)] obtain s2 b3 m' where
    a: "apply_indexes cd bk q gen p f (go_sort (<) is) s1 b2 = (None, s2, b3)"
    and s2: "target_ok p s2" "node_at s2 p = Some (File m')" "sound m'" by blast
  obtain s3 where v: "verifySQLite q p s2 = (None, s3)" using sqlite_servesD(2) [OF assms(9) s2] by blast
  show ?thesis
    using r(1) w(1) l(1) g a v by (simp add: restore_generation_def Let_def s0_def)
qed

text \<open>Restoring from the state the invariant of the chain describes, with a timestamp not before the
  engine's generation or none.\<close>

lemma Restore_serves:
  assumes "chain_inv fw cd (snap b) (seg b) mg f base ch"
    and "invar b" and "serves b" and "good_chain fw sound base (filter (seg_at (opt_ts opts) \<circ> fst) ch)"
    and "sqlite_ok fw q" and "sqlite_serves sound fw q"
    and "free_target dir (opt_db opts @ ''.db'') s"
    and "opt_ts opts = zero_time \<or> (\<exists>t. ParseGenerationID (b_generation mg) = Inr t \<and> t \<le> opt_ts opts)"
  shows "\<exists>s' b'. Restore cd bk q dir opts s b = (None, s', b')"
proof -
  let ?g = "b_generation mg" and ?ts = "opt_ts opts"
  from assms(1) obtain z t where
    c: "snap b ?g = Some z" "gzip_read cd z = Inr base" "ParseGenerationID ?g = Inr t"
      "\<forall>g' t'. snap b g' \<noteq> None \<longrightarrow> ParseGenerationID g' = Inr t' \<longrightarrow> t \<le> t' \<longrightarrow> g' = ?g"
      "chain_objs cd (seg b ?g) ch" "chain_wf ch (b_walIndex mg) (b_walOffset mg)"
    unfolding chain_inv_def newest_def by blast
  obtain s1 where m: "os_MkdirAll dir s = (None, s1)" "target_ok (dir @ [opt_db opts @ ''.db'']) s1"
    using MkdirAll_target [OF assms(7)] by blast
  obtain l b1 where l: "Generations bk b = (Inr l, b1)" "serves b1"
    "\<forall>x \<in> set l. snap b (g_ID x) \<noteq> None \<or> stale (snap b) (g_CreatedAt x)"
    using serves_generations [OF assms(2,3), of ?g] c(1) by auto
  have G: "invar b1" "snap b1 = snap b" "seg b1 = seg b" "\<lparr>g_ID = ?g, g_CreatedAt = t\<rparr> \<in> set l"
    "\<forall>x \<in> set l. ParseGenerationID (g_ID x) = Inr (g_CreatedAt x)"
    using list_generations [OF assms(2) l(1)] c(1,3) by simp_all
  have at: "gen_at ?ts \<lparr>g_ID = ?g, g_CreatedAt = t\<rparr>" using assms(8) c(3) by (auto simp: gen_at_def)
  then obtain x where x: "find (gen_at ?ts) (go_sort gen_lt l) = Some x"
    using G(4) by (cases "find (gen_at ?ts) (go_sort gen_lt l)") (auto simp: find_None_iff)
  have "x \<in> set l" using x set_go_sort [of gen_lt l] unfolding find_Some_iff by (metis nth_mem)
  moreover have "t \<le> g_CreatedAt x"
    using find_newest [OF gen_order.sorted_go_sort x, of "\<lparr>g_ID = ?g, g_CreatedAt = t\<rparr>"] G(4) at by simp
  moreover have "\<not> stale (snap b) (g_CreatedAt x)" if "t \<le> g_CreatedAt x"
    using c(1,3) that unfolding stale_def by (metis not_le option.distinct(1))
  ultimately have same: "g_ID x = ?g" using c(4) l(3) G(5) by blast
  have "readable cd (seg b1 ?g) sg" if "seg_ok sg" "seg b1 ?g (segmentKey sg) \<noteq> None" for sg
    using chain_readable [OF c(5)] that G(3) by simp
  note rd = this
  have good: "sound (replay fw (before k (with_data cd (seg b1 ?g) (filter (seg_at ?ts) l))) base)"
    if "lists_segs (seg b1 ?g) l" for l k
    using assms(4) that unfolding G(3) replay_listing_before [OF c(5,6) that [unfolded G(3)]] good_chain_def by blast
  have "snap b1 ?g = Some z" using G(2) c(1) by simp
  from restore_generation_serves [OF G(1) l(2) this c(2) good rd m(2) assms(5,6)] obtain s' b' where
    "restore_generation cd bk q ?ts ?g (dir @ [opt_db opts @ ''.db'']) s1 b1 = (None, s', b')" by blast
  moreover have "l \<noteq> []" using G(4) by auto
  ultimately show ?thesis
    unfolding Restore_def Let_def restore_opts using m(1) l(1) x same by simp
qed

end

subsection \<open>The local backend serves\<close>

text \<open>No call fails, a directory of a generation without a snapshot is older than those with one, and
  what should be a directory of segments is not a file.\<close>

definition serving :: "path \<Rightarrow> fs \<Rightarrow> bool" where
  "serving dir s \<longleftrightarrow> faults s = [] \<and>
     (\<forall>g t. node_at s (genDir dir g) = Some Dir \<longrightarrow> ParseGenerationID g = Inr t \<longrightarrow>
        l_snap dir s g \<noteq> None \<or> stale (l_snap dir s) t) \<and>
     (\<forall>g d. node_at s (genDir dir g @ [''wal'']) \<noteq> Some (File d))"

lemma seg_entries_quiet: "faults s = [] \<Longrightarrow> snd (seg_entries es s) = s"
  by (induction es s rule: seg_entries.induct)
    (simp_all add: next_fault_None Let_def case_prod_beta split: sum.split)

lemma file_of_Some: "file_of n = Some d \<longleftrightarrow> n = Some (File d)"
  by (cases n rule: file_of.cases) auto

interpretation local_serving: serving_backend "local_ops dir" "l_snap dir" "l_seg dir" "l_inv dir" "\<lambda>_. True"
    "serving dir"
  for dir :: path
proof (unfold_locales, goal_cases)
  case (1 b g z)
  then show ?case
    by (simp add: local_ops_def local_ReadSnapshot_def os_ReadFile_def serving_def next_fault_None l_snap_def
        file_of_Some snap_path_def)
next
  case (2 b s g z)
  then show ?case
    by (simp add: local_ops_def local_ReadWALSegment_def os_ReadFile_def serving_def next_fault_None l_seg_def
        file_of_Some seg_path_def)
next
  case (3 b g)
  have wf: "fs_wf b" using 3(1) by (rule l_inv_wf)
  have "node_at b (snap_path dir g) \<noteq> None" using 3(3) by (auto simp: l_snap_def file_of_Some)
  then have "node_at b (genDir dir g) = Some Dir"
    using fs_wf_parent [OF wf, of "snap_path dir g"] by (auto simp: snap_path_def)
  then have "node_at b dir = Some Dir"
    using fs_wf_parent [OF wf, of "genDir dir g"] by (simp add: genDir_def)
  then have r: "Generations (local_ops dir) b = (Inr (go_sort gen_lt (gen_entries (dir_entries dir b))), b)"
    using 3(2) by (simp add: local_ops_def local_Generations_def os_ReadDir_def serving_def next_fault_None)
  have "l_snap dir b (g_ID x) \<noteq> None \<or> stale (l_snap dir b) (g_CreatedAt x)"
    if "x \<in> set (gen_entries (dir_entries dir b))" for x
    using iffD1 [OF gen_entries_iff that]
  proof (elim exE conjE)
    fix ts
    assume ts: "(g_ID x, Dir) \<in> set (dir_entries dir b)" "ParseGenerationID (g_ID x) = Inr ts"
      "x = \<lparr>g_ID = g_ID x, g_CreatedAt = ts\<rparr>"
    then have "node_at b (genDir dir (g_ID x)) = Some Dir" by (simp add: dir_entries_iff [OF wf] genDir_def)
    moreover have "g_CreatedAt x = ts" using arg_cong [OF ts(3), of g_CreatedAt] by simp
    ultimately show ?thesis using 3(2) ts(2) by (simp add: serving_def)
  qed
  then show ?case using r 3(2) by simp
next
  case (4 b g)
  have f4: "faults b = []" using 4(2) by (simp add: serving_def)
  then have f: "next_fault b = (None, b)" by (rule next_fault_None)
  show ?case
  proof (cases "node_at b (genDir dir g @ [''wal''])")
    case None
    then have "os_ReadDir (genDir dir g @ [''wal'']) b = (Inl ErrNotExist, b)"
      unfolding os_ReadDir_def f by simp
    then have "local_WALSegments dir g b = (Inr [], b)" unfolding local_WALSegments_def by (simp add: is_not_exist_def)
    then show ?thesis using 4(2) by (simp add: local_ops_def)
  next
    case (Some n)
    then have "n = Dir" using 4(2) by (cases n) (auto simp: serving_def)
    obtain out where "seg_entries (dir_entries (genDir dir g @ [''wal'']) b) b = (out, b)"
      using seg_entries_quiet [of b] f4 by (metis prod.collapse)
    then have "local_WALSegments dir g b = (Inr (go_sort seg_lt out), b)"
      unfolding local_WALSegments_def os_ReadDir_def f using Some \<open>n = Dir\<close> by simp
    then show ?thesis using 4(2) by (simp add: local_ops_def)
  qed
qed

subsection \<open>Backup and restore, totally\<close>

text \<open>C2. Backup then restore, totally, on the local backend: in an execution that satisfies the
  conditions of C1, in which the main file was sound whenever a snapshot copied it and the
  committed contents were whenever a sync read them, once a sync reports no error, a restore
  with no failing system call, into a directory with room, from a backend directory in which no
  generation without a snapshot is newer than one with, reports success and leaves exactly the
  committed contents the database had when the sync scanned it. Of SQLite it is assumed that it
  opens a sound database with a WAL that leaves it sound, and that verification accepts it.\<close>

theorem restore_succeeds:
  assumes "run_with fw cd (local_ops bdir) (l_snap bdir) (l_seg bdir) (l_inv bdir)
      (\<lambda>E b w. sound (db_image fw (w_files w))) sound (t, b, w)"
    and "wal_apply_ok fw" and "codec_ok cd" and "sqlite_ok fw q" and "sqlite_serves sound fw q"
    and "sync_env fw E t b (w_files w)" and "sound (db_image fw (w_files w))"
    and "sync cd (local_ops bdir) E b w = (None, b', w')"
    and "serving bdir (w_backend w')" and "free_target dir ''default.db'' s"
  shows "\<exists>s' st. Restore cd (local_ops bdir) q dir [] s (w_backend w') = (None, s', st) \<and>
    node_at s' (dir @ [''default.db'']) = Some (File (db_image fw (w_files w)))"
proof -
  note R = local.run_with_kept [OF assms(1-3)]
  from local.run_with_sync [OF R assms(2,3) _ assms(6,8)] assms(7) obtain base ch where
    I: "chain_inv fw cd (l_snap bdir (w_backend w')) (l_seg bdir (w_backend w')) b' (w_files w') base ch"
    "l_inv bdir (w_backend w')" and g: "good_chain fw sound base ch"
    by (auto simp: run_inv_def)
  have z: "opt_ts [] = zero_time" "opt_db [] = ''default''" by (simp_all add: opt_ts_def opt_db_def)
  have "good_chain fw sound base (filter (seg_at (opt_ts []) \<circ> fst) ch)"
    using g by (simp add: z seg_at_def comp_def)
  from local_serving.Restore_serves [OF I assms(9) this assms(4,5), of dir s] assms(10) obtain s' st where
    r: "Restore cd (local_ops bdir) q dir [] s (w_backend w') = (None, s', st)"
    by (auto simp: z)
  have "fs_wf s" using assms(10) by (simp add: free_target_def)
  from local.run_then_restore [OF R assms(2,3) _ assms(4,6,8) r this] r show ?thesis by auto
qed

text \<open>An SQLite that refuses to make an empty database of a WAL and finds an empty one corrupt.\<close>

definition sq_strict :: sqlite_ops where
  "sq_strict = sq_ex\<lparr>
     sq_checkpoint := (\<lambda>p s.
       (case (node_at s p, node_at s (with_suffix p ''-wal'')) of
          (Some (File m), Some (File w)) \<Rightarrow>
            if fw_ex m w = [] then (Some io_error, s) else (None, put_node p (File (fw_ex m w)) s)
        | _ \<Rightarrow> (None, s))),
     sq_integrity := (\<lambda>p s. (Inr (if node_at s p = Some (File []) then ''file is empty'' else ''ok''), s))\<rparr>"

lemma strict_checkpoint:
  assumes "node_at s p = Some (File m)" and "node_at s (with_suffix p ''-wal'') = Some (File w)"
  shows "open_and_checkpoint sq_strict p s =
    (if fw_ex m w = [] then (Some io_error, s) else (None, put_node p (File (fw_ex m w)) s))"
  using assms by (simp add: open_and_checkpoint_def sq_strict_def sq_ex_def)

lemma sqlite_ok_strict: "sqlite_ok fw_ex sq_strict"
proof -
  have "fs_wf (put_node p (File x) s)" if "fs_wf s" "p \<noteq> []" "node_at s p = Some (File m)" for p x s m
    using that fs_wf_parent [OF that(1,3,2)] by (intro fs_wf_put) simp_all
  moreover have "node_at (snd (verifySQLite sq_strict p s)) p = node_at s p" for p s
    by (simp add: verifySQLite_def sq_strict_def sq_ex_def)
  ultimately show ?thesis
    by (auto simp: sqlite_ok_def strict_checkpoint node_at_put split: if_splits)
qed

lemma sqlite_serves_strict: "sqlite_serves (\<lambda>m. m \<noteq> []) fw_ex sq_strict"
proof -
  have "fst (verifySQLite sq_strict p s) = None" if "node_at s p = Some (File m)" "m \<noteq> []" for p s m
    using that by (simp add: verifySQLite_def sq_strict_def sq_ex_def)
  then show ?thesis by (simp add: sqlite_serves_def strict_checkpoint target_put)
qed

lemma sound_cycle: "db_image fw_ex (w_files (cycle_ex wal_ex st)) \<noteq> []"
proof -
  have "length (db_image fw_ex (w_files (cycle_ex wal_ex st))) = 536"
    by (simp add: db_image_def cycle_files fw_ex_def wal_ex_committed wal_ex_length)
  then show ?thesis by auto
qed

lemma serving_ex: "serving [''b''] backend3_ex"
  by (auto simp: serving_def seg_tree_def node_at_def genDir_def snap_name_def l_snap_def snap_path_def
      split: if_splits)

lemma free_target_ex: "free_target [''d''] ''default.db'' l_ex"
proof -
  have "fs_wf l_ex" using l_inv_ex by (rule l_inv_wf)
  then show ?thesis by (simp add: free_target_def l_ex_def node_at_def)
qed

theorem restore_succeeds_witness:
  "\<exists>s' st. Restore codec_ex (local_ops [''b'']) sq_strict [''d''] [] l_ex backend3_ex = (None, s', st) \<and>
     node_at s' [''d'', ''default.db''] = Some (File (db_image fw_ex (w_files world2_ex)))"
proof -
  obtain b' where s: "sync codec_ex (local_ops [''b'']) (env_ex 2000) mgr1_ex world2_ex =
      (None, b', cycle_ex wal_ex backend3_ex)" using run_local.sync_ex by blast
  from restore_succeeds [OF run_local.run_cycle [where S = "\<lambda>m. m \<noteq> []", OF list.distinct(2)] wal_apply_ok_ex codec_ok_ex
      sqlite_ok_strict sqlite_serves_strict sync_env_ex sound_cycle s, of "[''d'']" l_ex] show ?thesis
    using serving_ex free_target_ex by simp
qed

subsection \<open>A failed snapshot hides the backup\<close>

text \<open>The directory the snapshot was to go to is made, then creating the file fails.\<close>

definition full_ex :: fs where "full_ex = backend3_ex\<lparr>faults := [None, Some 0]\<rparr>"

definition hidden_ex :: fs where "hidden_ex = put_node [''b'', g2_ex] Dir backend3_ex"

lemma full_WriteSnapshot: "WriteSnapshot (local_ops [''b'']) g2_ex z full_ex = (Some io_error, hidden_ex)"
  by (simp add: local_ops_def local_WriteSnapshot_def Let_def genDir_def os_MkdirAll_def next_fault_def full_ex_def
      hidden_ex_def node_at_def put_node_def atomicWrite_def os_Create_def tmp_path_def seg_tree_def g2_ex_text)

lemma hidden_Generations:
  "Generations (local_ops [''b'']) hidden_ex =
    (Inr [\<lparr>g_ID = g2_ex, g_CreatedAt = 3000\<rparr>, \<lparr>g_ID = g_ex, g_CreatedAt = 1000\<rparr>], hidden_ex)"
proof -
  have "dir_entries [''b''] hidden_ex = go_sort (\<lambda>a b. fst a < fst b) [(g_ex, Dir), (g2_ex, Dir)]"
    by (simp add: dir_entries_def hidden_ex_def put_node_def seg_tree_def g2_ex_text)
  also have "\<dots> = [(g_ex, Dir), (g2_ex, Dir)]" unfolding g2_ex_text by code_simp
  finally have "gen_entries (dir_entries [''b''] hidden_ex) =
      [\<lparr>g_ID = g_ex, g_CreatedAt = 1000\<rparr>, \<lparr>g_ID = g2_ex, g_CreatedAt = 3000\<rparr>]"
    using g_ex_parse Parse_NewGenerationID [of 3000 "[7]"]
    by (simp add: g2_ex_def in_i64_def i64_min_def i64_max_def)
  moreover have "node_at hidden_ex [''b''] = Some Dir" "faults hidden_ex = []"
    by (simp_all add: hidden_ex_def node_at_put) (simp_all add: seg_tree_def node_at_def)
  ultimately show ?thesis
    by (simp add: local_ops_def local_Generations_def os_ReadDir_def next_fault_None go_sort_def gen_lt_def)
qed

lemma hidden_ReadSnapshot: "ReadSnapshot (local_ops [''b'']) g2_ex hidden_ex = (Inl ErrNotExist, hidden_ex)"
  by (simp add: local_ops_def local_ReadSnapshot_def os_ReadFile_def genDir_def snap_name_def hidden_ex_def
      put_node_def seg_tree_def next_fault_def node_at_def g2_ex_text)

lemma full_takeSnapshot:
  "takeSnapshot codec_ex (local_ops [''b'']) (env_ex 3000) mgr1_ex (cycle_ex wal_ex full_ex) =
    (Some (Wrapped ''write snapshot'' io_error), mgr1_ex, cycle_ex wal_ex hidden_ex)"
  using full_WriteSnapshot
  by (simp add: takeSnapshot_def others_def env_ex_def open_file_def gzipBytes_def codec_ex_def Let_def
      g2_ex_def [symmetric] cycle_update)

lemma hidden_objects:
  "l_snap [''b''] hidden_ex = l_snap [''b''] backend3_ex" "l_seg [''b''] hidden_ex = l_seg [''b''] backend3_ex"
  by (simp_all add: fun_eq_iff l_snap_def l_seg_def hidden_ex_def node_at_put snap_path_def seg_path_def genDir_def)

text \<open>A target directory with a database in it.\<close>

definition used_ex :: "bytes \<Rightarrow> fs" where
  "used_ex d = \<lparr> tree = [([], Dir), ([''d''], Dir), ([''d'', ''default.db''], File d)], faults = [] \<rparr>"

lemma hidden_Restore:
  "Restore codec_ex (local_ops [''b'']) sq_ex [''d''] [] (used_ex d) hidden_ex =
    (Some (Wrapped ''colmena: read snapshot'' ErrNotExist), used_ex d\<lparr>tree := [([], Dir), ([''d''], Dir)]\<rparr>, hidden_ex)"
proof -
  have "os_MkdirAll [''d''] (used_ex d) = (None, used_ex d)"
    by (simp add: os_MkdirAll_def next_fault_def used_ex_def node_at_def)
  then show ?thesis
    unfolding Restore_def Let_def restore_opts
    by (simp add: hidden_Generations opt_ts_def opt_db_def go_sort_def gen_lt_def gen_at_def restore_generation_def
        hidden_ReadSnapshot used_ex_def os_Remove_def next_fault_def node_at_def del_node_def with_suffix_def Let_def)
qed

text \<open>C20. Without that condition a restore fails although the backup is complete: a snapshot that
  fails once its directory is made leaves a newer generation without a snapshot. The engine
  keeps the old one, whose objects are untouched and were enough for a restore before, but now a
  restore without a timestamp picks the empty one, and it fails after deleting the target database.\<close>

theorem failed_snapshot_hides_backup:
  "\<exists>w2 s s'. takeSnapshot codec_ex (local_ops [''b'']) (env_ex 3000) mgr1_ex (cycle_ex wal_ex full_ex) =
       (Some (Wrapped ''write snapshot'' io_error), mgr1_ex, w2) \<and>
     l_snap [''b''] (w_backend w2) = l_snap [''b''] backend3_ex \<and>
     l_seg [''b''] (w_backend w2) = l_seg [''b''] backend3_ex \<and>
     Restore codec_ex (local_ops [''b'']) sq_ex [''d''] [] l_ex backend3_ex = (None, s, backend3_ex) \<and>
     Restore codec_ex (local_ops [''b'']) sq_ex [''d''] [] (used_ex [9]) (w_backend w2) =
       (Some (Wrapped ''colmena: read snapshot'' ErrNotExist), s', w_backend w2) \<and>
     node_at (used_ex [9]) [''d'', ''default.db''] = Some (File [9]) \<and> node_at s' [''d'', ''default.db''] = None"
proof -
  obtain s where "Restore codec_ex (local_ops [''b'']) sq_ex [''d''] [] l_ex backend3_ex = (None, s, backend3_ex)"
    using run_local.Restore_ex [of "[''d'', ''default.db'']" "[]" wal_ex] wal_ex_not_Nil
    by (auto simp: opt_ts_def opt_db_def)
  moreover have "node_at (used_ex [9]) [''d'', ''default.db''] = Some (File [9])"
    "node_at (used_ex [9]\<lparr>tree := [([], Dir), ([''d''], Dir)]\<rparr>) [''d'', ''default.db''] = None"
    by (simp_all add: used_ex_def node_at_def)
  ultimately show ?thesis
    by (intro exI conjI) (rule full_takeSnapshot, simp_all add: hidden_objects hidden_Restore)
qed

end
