(* ===== verification/S3_Text.thy ===== *)
theory S3_Text
  imports Go_Sha256 Names
begin

text \<open>
  The text routines of the S3 backend (\<open>backup/s3/s3.go\<close>): the percent-encoding of object keys
  and queries, segment names with the \<open>Sscanf\<close> they are read with, and the hashes in
  hexadecimal.
\<close>

subsection \<open>Percent-encoding\<close>

definition is_unreserved :: "char \<Rightarrow> bool" where
  "is_unreserved c \<longleftrightarrow>
     (let n = char_code c in
      65 \<le> n \<and> n \<le> 90 \<or> 97 \<le> n \<and> n \<le> 122 \<or> 48 \<le> n \<and> n \<le> 57) \<or> c \<in> {CHR ''-'', CHR ''_'', CHR ''.'', CHR ''~''}"

definition hexu :: "nat \<Rightarrow> char" where
  "hexu d = char_of (if d < 10 then 48 + d else 55 + d)"

text \<open>One byte of \<open>sigEscape\<close>; the escape is \<open>fmt.Fprintf(&b, "%%%02X", c)\<close>.\<close>

definition sig_byte :: "char \<Rightarrow> string" where
  "sig_byte c =
     (if is_unreserved c then [c]
      else [CHR 0x25, hexu (char_code c div 16), hexu (char_code c mod 16)])"

definition sigEscape :: "string \<Rightarrow> string" where
  "sigEscape s = concat (map sig_byte s)"

definition escapeKey :: "string \<Rightarrow> string" where
  "escapeKey key = join ''/'' (map sigEscape (split_on (CHR ''/'') key))"

text \<open>\<open>url.Values\<close>, with the keys that are set; \<open>Set\<close> replaces.\<close>

type_synonym url_values = "(string \<times> string list) list"

definition values_set :: "string \<Rightarrow> string \<Rightarrow> url_values \<Rightarrow> url_values" where
  "values_set k v q = (k, [v]) # filter (\<lambda>p. fst p \<noteq> k) q"

definition canonicalQuery :: "url_values \<Rightarrow> string" where
  "canonicalQuery q =
     (let keys = sort (map fst q);
          parts = concat (map (\<lambda>k. map (\<lambda>v. sigEscape k @ ''='' @ sigEscape v)
                                      (case map_of q k of None \<Rightarrow> [] | Some vs \<Rightarrow> vs)) keys)
      in join ''&'' parts)"

subsection \<open>What the other side reads\<close>

text \<open>Decoding as RFC 3986 has it: the value of a path, and of the fields of a query.\<close>

fun pct_decode :: "string \<Rightarrow> string option" where
  "pct_decode [] = Some []"
| "pct_decode (c # cs) =
     (if c \<noteq> CHR 0x25 then map_option (Cons c) (pct_decode cs)
      else case cs of
             a # b # rest \<Rightarrow>
               (case (digit_val a, digit_val b) of
                  (Some x, Some y) \<Rightarrow>
                    if x < 16 \<and> y < 16 then map_option (Cons (char_of (16 * x + y))) (pct_decode rest) else None
                | _ \<Rightarrow> None)
           | _ \<Rightarrow> None)"

definition query_field :: "string \<Rightarrow> (string \<times> string) option" where
  "query_field f =
     (case cut (CHR ''='') f of (k, v, _) \<Rightarrow>
        (case (pct_decode k, pct_decode v) of (Some k, Some v) \<Rightarrow> Some (k, v) | _ \<Rightarrow> None))"

definition query_get :: "string \<Rightarrow> string \<Rightarrow> string option" where
  "query_get k q = map_of (List.map_filter query_field (split_on (CHR ''&'') q)) k"

lemma char_code_less: "char_code c < 256"
proof -
  have "(of_char c :: nat) \<in> {0..<256}" using range_nat_of_char by blast
  then show ?thesis by (simp add: char_code_def)
qed

lemma char_of_code [simp]: "char_of (char_code c) = c"
  by (simp add: char_code_def)

lemma char_code_hexu: "d < 16 \<Longrightarrow> char_code (hexu d) = (if d < 10 then 48 + d else 55 + d)"
  by (simp add: char_code_def hexu_def)

lemma digit_val_hexu [text_simps]: "d < 16 \<Longrightarrow> digit_val (hexu d) = Some d"
  by (auto simp: digit_val_def char_code_hexu Let_def)

text \<open>The characters with a meaning in a URL are escaped.\<close>

definition url_special :: "char set" where
  "url_special = {CHR 0x25, CHR ''&'', CHR ''='', CHR ''/'', CHR ''?'', CHR ''#'', CHR ''+'', CHR '' '', CHR 0x0A}"

lemma unreserved_plain: "is_unreserved c \<Longrightarrow> c \<notin> url_special"
  by (auto simp: is_unreserved_def url_special_def Let_def char_code_def)

lemma hexu_unreserved: "d < 16 \<Longrightarrow> is_unreserved (hexu d)"
  by (auto simp: is_unreserved_def char_code_hexu Let_def)

lemma sig_byte_chars: "d \<in> set (sig_byte c) \<Longrightarrow> is_unreserved d \<or> d = CHR 0x25"
  using char_code_less [of c] by (auto simp: sig_byte_def hexu_unreserved split: if_splits)

lemma sigEscape_chars: "d \<in> set (sigEscape s) \<Longrightarrow> is_unreserved d \<or> d = CHR 0x25"
  unfolding sigEscape_def by (auto dest!: sig_byte_chars)

lemma sigEscape_special: "d \<in> url_special - {CHR 0x25} \<Longrightarrow> d \<notin> set (sigEscape s)"
  using sigEscape_chars unreserved_plain by blast

lemma sigEscape_simps [simp]:
  "sigEscape [] = []" "sigEscape (c # s) = sig_byte c @ sigEscape s"
  "sigEscape (s @ t) = sigEscape s @ sigEscape t"
  by (simp_all add: sigEscape_def)

lemma pct_decode_plain: "c \<noteq> CHR 0x25 \<Longrightarrow> pct_decode (c # cs) = map_option (Cons c) (pct_decode cs)"
  by simp

lemma pct_decode_byte: "pct_decode (sig_byte c @ t) = map_option (Cons c) (pct_decode t)"
proof (cases "is_unreserved c")
  case True
  then have "c \<noteq> CHR 0x25" using unreserved_plain by (auto simp: url_special_def)
  then show ?thesis using True by (simp add: sig_byte_def)
next
  case False
  have "char_code c div 16 < 16" using char_code_less [of c] by simp
  then show ?thesis using False
    by (simp add: sig_byte_def digit_val_hexu del: pct_decode.simps)
       (simp add: pct_decode.simps digit_val_hexu)
qed

declare pct_decode.simps(2) [simp del]

lemma pct_decode_escape: "pct_decode (sigEscape s @ t) = map_option ((@) s) (pct_decode t)"
  by (induction s) (simp_all add: pct_decode_byte option.map_comp comp_def option.map_id0 [unfolded id_def])

lemma pct_decode_sigEscape [text_simps]: "pct_decode (sigEscape s) = Some s"
  using pct_decode_escape [of s "[]"] by simp

lemma pct_decode_join:
  "d \<noteq> CHR 0x25 \<Longrightarrow> ws \<noteq> [] \<Longrightarrow> pct_decode (join [d] (map sigEscape ws)) = Some (join [d] ws)"
proof (induction ws)
  case (Cons w ws)
  then show ?case
    by (cases ws) (simp_all add: pct_decode_sigEscape pct_decode_escape pct_decode_plain)
qed simp

lemma pct_decode_escapeKey [text_simps]: "pct_decode (escapeKey k) = Some k"
  using pct_decode_join [of "CHR ''/''" "split_on (CHR ''/'') k"] by (simp add: escapeKey_def join_split_on)

lemma escapeKey_chars: "c \<in> set (escapeKey k) \<Longrightarrow> is_unreserved c \<or> c = CHR 0x25 \<or> c = CHR ''/''"
proof -
  have "c \<in> set (join ''/'' (map sigEscape ws)) \<Longrightarrow> is_unreserved c \<or> c = CHR 0x25 \<or> c = CHR ''/''" for ws
  proof (induction ws)
    case (Cons w ws)
    then show ?case by (cases ws) (auto dest: sigEscape_chars)
  qed simp
  then show "c \<in> set (escapeKey k) \<Longrightarrow> is_unreserved c \<or> c = CHR 0x25 \<or> c = CHR ''/''"
    by (simp add: escapeKey_def)
qed

subsection \<open>Queries\<close>

lemma split_on_join:
  "ws \<noteq> [] \<Longrightarrow> \<forall>w \<in> set ws. d \<notin> set w \<Longrightarrow> split_on d (join [d] ws) = ws"
proof (induction ws)
  case (Cons w ws)
  then show ?case by (cases ws) (simp_all add: split_on_no_sep split_on_append_sep)
qed simp

lemma query_field_escape: "query_field (sigEscape k @ ''='' @ sigEscape v) = Some (k, v)"
proof -
  have "CHR ''='' \<notin> set (sigEscape k)" by (rule sigEscape_special) (simp add: url_special_def)
  then show ?thesis
    using cut_append [of "CHR ''=''" "sigEscape k" "sigEscape v"]
    by (simp add: query_field_def pct_decode_sigEscape)
qed

lemma field_no_amp: "CHR ''&'' \<notin> set (sigEscape k @ ''='' @ sigEscape v)"
  using sigEscape_special [of "CHR ''&''"] by (simp add: url_special_def)

text \<open>The fields a sorted, escaped query carries, for values set once each.\<close>

definition query_pairs :: "url_values \<Rightarrow> (string \<times> string) list" where
  "query_pairs q = concat (map (\<lambda>k. map (Pair k) (case map_of q k of None \<Rightarrow> [] | Some vs \<Rightarrow> vs)) (sort (map fst q)))"

lemma canonicalQuery_pairs:
  "canonicalQuery q = join ''&'' (map (\<lambda>(k, v). sigEscape k @ ''='' @ sigEscape v) (query_pairs q))"
  by (simp add: canonicalQuery_def query_pairs_def map_concat comp_def Let_def)

lemma query_get_canonical:
  assumes "query_pairs q \<noteq> []"
  shows "query_get k (canonicalQuery q) = map_of (query_pairs q) k"
proof -
  let ?f = "\<lambda>(k, v). sigEscape k @ ''='' @ sigEscape v"
  have "split_on (CHR ''&'') (canonicalQuery q) = map ?f (query_pairs q)"
    unfolding canonicalQuery_pairs using assms field_no_amp by (intro split_on_join) auto
  moreover have "List.map_filter query_field (map ?f ps) = ps" for ps
    by (induction ps) (auto simp: map_filter_simps query_field_escape [simplified])
  ultimately show ?thesis by (simp add: query_get_def)
qed

lemma map_of_concat_pairs:
  "distinct ks \<Longrightarrow> map_of (concat (map (\<lambda>k. map (Pair k) (g k)) ks)) k =
    (if k \<in> set ks then (case g k of [] \<Rightarrow> None | v # _ \<Rightarrow> Some v) else None)"
proof (induction ks)
  case (Cons a ks)
  have h: "map_of (map (Pair a) l) k = (if k = a then (case l of [] \<Rightarrow> None | v # _ \<Rightarrow> Some v) else None)" for l
    by (induction l) auto
  show ?case
    using Cons by (cases "k = a"; cases "g a") (simp_all add: map_add_def h split: option.split)
qed simp

lemma map_of_query_pairs:
  assumes "distinct (map fst q)"
  shows "map_of (query_pairs q) k = (case map_of q k of Some (v # _) \<Rightarrow> Some v | _ \<Rightarrow> None)"
proof -
  have d: "distinct (sort (map fst q))" using assms by simp
  have s: "set (sort (map fst q)) = dom (map_of q)" by (simp add: dom_map_of_conv_image_fst)
  show ?thesis
    unfolding query_pairs_def map_of_concat_pairs [OF d] s
    by (auto split: option.splits list.splits)
qed

lemma map_of_filter_neq: "map_of (filter (\<lambda>p. fst p \<noteq> k) l) = (map_of l)(k := None)"
  by (induction l) auto

lemma values_set_simps [simp]:
  "map_of (values_set k v q) = (map_of q)(k \<mapsto> [v])"
  "distinct (map fst q) \<Longrightarrow> distinct (map fst (values_set k v q))"
proof -
  show "map_of (values_set k v q) = (map_of q)(k \<mapsto> [v])" by (simp add: values_set_def map_of_filter_neq)
  show "distinct (map fst (values_set k v q))" if "distinct (map fst q)"
    using that by (auto simp: values_set_def distinct_map_filter)
qed

text \<open>So what a server reads of a field is what was set.\<close>

lemma query_get_set:
  assumes "distinct (map fst q)" and "map_of q k0 = Some [v0]" and "\<forall>vs \<in> snd ` set q. \<exists>v. vs = [v]"
  shows "query_get k (canonicalQuery q) = (case map_of q k of Some (v # _) \<Rightarrow> Some v | _ \<Rightarrow> None)"
proof -
  have "map_of (query_pairs q) k0 = Some v0" using map_of_query_pairs [OF assms(1)] assms(2) by simp
  then have "query_pairs q \<noteq> []" by auto
  from query_get_canonical [OF this] show ?thesis using map_of_query_pairs [OF assms(1)] by simp
qed

subsection \<open>Segment names\<close>

definition segmentName :: "WALSegmentInfo \<Rightarrow> string" where
  "segmentName sg = fmt_016x (s_Index sg) @ ''-'' @ fmt_016x (s_Offset sg) @ ''-'' @
     fmt_016x (s_CreatedAt sg) @ ''.seg.gz''"

text \<open>
  \<open>fmt.Sscanf(s, "%x %x %x", ...)\<close> into three \<open>int64\<close>, on ASCII text: a verb skips spaces (a
  newline is an error), takes a sign and the hexadecimal digits that follow, and reads them with
  \<open>ParseInt\<close>; a space of the format needs a space of the input or its end; what follows the
  last number is not looked at.
\<close>

fun skip_space :: "string \<Rightarrow> string option" where
  "skip_space [] = Some []"
| "skip_space (c # cs) =
     (if c = CHR 0x0A then None else if is_space c then skip_space cs else Some (c # cs))"

definition is_hex :: "char \<Rightarrow> bool" where
  "is_hex c = (case digit_val c of None \<Rightarrow> False | Some d \<Rightarrow> d < 16)"

definition scan_sign :: "string \<Rightarrow> string \<times> string" where
  "scan_sign s =
     (case s of
        [] \<Rightarrow> ([], [])
      | c # cs \<Rightarrow> if c = CHR ''+'' \<or> c = CHR ''-'' then ([c], cs) else ([], c # cs))"

definition scan_x :: "string \<Rightarrow> (int \<times> string) option" where
  "scan_x s =
     (case skip_space s of
        None \<Rightarrow> None
      | Some s \<Rightarrow>
          (case scan_sign s of (sg, r) \<Rightarrow>
             let ds = takeWhile is_hex r in
             if ds = [] then None
             else (case parse_int (sg @ ds) 16 of Inl _ \<Rightarrow> None | Inr n \<Rightarrow> Some (n, dropWhile is_hex r))))"

definition match_space :: "string \<Rightarrow> string option" where
  "match_space s =
     (case s of [] \<Rightarrow> Some [] | c # cs \<Rightarrow> if is_space c \<and> c \<noteq> CHR 0x0A then Some cs else None)"

definition sscanf_xxx :: "string \<Rightarrow> (int \<times> int \<times> int) option" where
  "sscanf_xxx s =
     (case scan_x s of None \<Rightarrow> None | Some (a, s) \<Rightarrow>
      case match_space s of None \<Rightarrow> None | Some s \<Rightarrow>
      case scan_x s of None \<Rightarrow> None | Some (b, s) \<Rightarrow>
      case match_space s of None \<Rightarrow> None | Some s \<Rightarrow>
      case scan_x s of None \<Rightarrow> None | Some (c, s) \<Rightarrow> Some (a, b, c))"

definition parseSegmentName :: "string \<Rightarrow> WALSegmentInfo result" where
  "parseSegmentName name =
     (let (base, ok) = cut_suffix name ''.seg.gz'';
          bad = Inl (ErrText (''s3: bad segment name '' @ go_quote name)) in
      if \<not> ok then bad
      else case split_on (CHR ''-'') base of
             [p0, p1, p2] \<Rightarrow>
               (case sscanf_xxx (p0 @ '' '' @ p1 @ '' '' @ p2) of
                  None \<Rightarrow> bad
                | Some (idx, off, ts) \<Rightarrow>
                    Inr \<lparr> s_Index = idx, s_Offset = off, s_Size = 0, s_CreatedAt = ts \<rparr>)
           | _ \<Rightarrow> bad)"

text \<open>A number \<open>ParseInt\<close> reads is read by \<open>%x\<close>, up to the next space or the end.\<close>

lemma parse_uint_hex: "parse_uint_from 16 n s = Inr u \<Longrightarrow> c \<in> set s \<Longrightarrow> is_hex c"
proof (induction s arbitrary: n)
  case (Cons a s)
  then show ?case by (cases "digit_val a") (auto simp: is_hex_def split: if_splits)
qed simp

lemma parse_int_shape:
  assumes "parse_int p 16 = Inr x"
  obtains sg ds where "p = sg @ ds" "sg \<in> {[], ''+'', ''-''}" "ds \<noteq> []" "\<forall>c \<in> set ds. is_hex c"
proof -
  define q where "q = (case p of c # cs \<Rightarrow> if c = CHR ''-'' \<or> c = CHR ''+'' then cs else p | [] \<Rightarrow> [])"
  obtain u where u: "parse_uint q 16 = Inr u"
    using assms by (auto simp: parse_int_def Let_def bind_res_Inr_iff q_def)
  then have "q \<noteq> []" "\<forall>c \<in> set q. is_hex c"
    using parse_uint_hex [of 0 q u] by (auto simp: parse_uint_def split: if_splits)
  moreover have "p = take (length p - length q) p @ q" "take (length p - length q) p \<in> {[], ''+'', ''-''}"
    by (auto simp: q_def split: list.split)
  ultimately show thesis using that by blast
qed

lemma not_space:
  "is_hex c \<Longrightarrow> \<not> is_space c \<and> c \<noteq> CHR 0x0A \<and> c \<noteq> CHR ''+'' \<and> c \<noteq> CHR ''-''"
  by (auto simp: is_hex_def is_space_def digit_val_def Let_def char_code_def split: if_splits)

lemma scan_x_number:
  assumes "parse_int p 16 = Inr x" and "t = [] \<or> hd t = CHR '' ''"
  shows "scan_x (p @ t) = Some (x, t)"
proof -
  from parse_int_shape [OF assms(1)] obtain sg ds where
    p: "p = sg @ ds" "sg \<in> {[], ''+'', ''-''}" "ds \<noteq> []" "\<forall>c \<in> set ds. is_hex c" .
  have s: "is_space (CHR ''+'') = False" "is_space (CHR ''-'') = False" "\<not> is_hex (CHR '' '')"
    by (simp_all add: is_space_def char_code_def is_hex_def digit_val_def)
  obtain d r where d: "ds = d # r" using p(3) by (cases ds) auto
  have dh: "is_hex d" using p(4) d by simp
  have k: "skip_space (p @ t) = Some (p @ t)" "scan_sign (p @ t) = (sg, ds @ t)"
    using p(1,2) not_space [OF dh] d s by (auto simp: scan_sign_def)
  have "takeWhile is_hex t = [] \<and> dropWhile is_hex t = t"
    using assms(2) s(3) by (cases t) auto
  then have "takeWhile is_hex (ds @ t) = ds" "dropWhile is_hex (ds @ t) = t"
    using p(4) by simp_all
  then show ?thesis using k p(1,3) assms(1) by (simp add: scan_x_def Let_def)
qed

lemma sscanf_numbers:
  assumes "parse_int a 16 = Inr x" and "parse_int b 16 = Inr y" and "parse_int c 16 = Inr z"
  shows "sscanf_xxx (a @ '' '' @ b @ '' '' @ c) = Some (x, y, z)"
proof -
  have m: "match_space (CHR '' '' # s) = Some s" for s
    by (simp add: match_space_def is_space_def char_code_def)
  show ?thesis
    using scan_x_number [OF assms(1), of "'' '' @ b @ '' '' @ c"] scan_x_number [OF assms(2), of "'' '' @ c"]
      scan_x_number [OF assms(3), of "[]"]
    by (simp add: sscanf_xxx_def m)
qed

lemma parseSegmentName_agrees:
  assumes "has_suffix name seg_suffix" and "parseSegmentKey name = Inr sg"
  shows "parseSegmentName name = Inr sg"
proof -
  have c: "cut_suffix name ''.seg.gz'' = (trim_suffix name seg_suffix, True)"
    using assms(1) by (simp add: cut_suffix_def trim_suffix_def seg_suffix_def)
  from assms(2) show ?thesis
    by (auto simp: parseSegmentKey_def parseSegmentName_def Let_def c sscanf_numbers [simplified]
        split: list.splits sum.splits)
qed

lemma segmentName_key: "segmentName sg = segmentKey sg"
  by (simp add: segmentName_def segmentKey_def seg_suffix_def)

lemma segment_name_key:
  assumes "seg_ok sg"
  shows "parseSegmentName (segmentKey sg) = Inr (sg\<lparr>s_Size := 0\<rparr>)"
proof (rule parseSegmentName_agrees)
  show "has_suffix (segmentKey sg) seg_suffix"
    using has_suffix_append [of "fmt_016x (s_Index sg) @ ''-'' @ fmt_016x (s_Offset sg) @ ''-'' @
      fmt_016x (s_CreatedAt sg)" seg_suffix] by (simp add: segmentKey_def)
qed (rule parse_segmentKey [OF assms])

text \<open>C23. The S3 backend names segments as the engine does, and every name with the suffix that the
  engine's parser accepts is read by the S3 parser as the same segment; so a segment written
  under its name is read back. A name without the suffix is refused, also where the engine's parser
  takes it.\<close>

theorem segment_names_agree:
  "segmentName sg = segmentKey sg \<and>
   (has_suffix name ''.seg.gz'' \<longrightarrow> parseSegmentKey name = Inr t \<longrightarrow> parseSegmentName name = Inr t) \<and>
   (seg_ok sg \<longrightarrow> parseSegmentName (segmentName sg) = Inr (sg\<lparr>s_Size := 0\<rparr>)) \<and>
   (\<not> has_suffix name ''.seg.gz'' \<longrightarrow> (\<exists>e. parseSegmentName name = Inl e))"
proof -
  have "\<not> has_suffix name ''.seg.gz'' \<longrightarrow> (\<exists>e. parseSegmentName name = Inl e)"
    by (auto simp: parseSegmentName_def cut_suffix_def Let_def)
  then show ?thesis
    using segmentName_key [of sg] segment_name_key [of sg] parseSegmentName_agrees [of name t]
    by (simp add: seg_suffix_def)
qed

theorem segment_names_agree_witness:
  "parseSegmentName (segmentName seg_ex) = Inr (seg_ex\<lparr>s_Size := 0\<rparr>) \<and>
   (\<exists>e. parseSegmentName ''0-0-1'' = Inl e)"
proof -
  have "\<not> has_suffix ''0-0-1'' ''.seg.gz''" by (simp add: has_suffix_def)
  then show ?thesis using segment_names_agree [of seg_ex "''0-0-1''"] seg_ok_ex by blast
qed

text \<open>The converse fails: trailing text after the third number is not looked at.\<close>

lemma parseSegmentName_lenient:
  "parseSegmentName ''0-0-1.tmp.seg.gz'' = Inr \<lparr> s_Index = 0, s_Offset = 0, s_Size = 0, s_CreatedAt = 1 \<rparr>"
  "\<not> is_ok (parseSegmentKey ''0-0-1.tmp.seg.gz'')"
  "is_ok (parseSegmentKey ''0-0-1'')"
  by (simp_all add: parseSegmentName_def cut_suffix_def has_suffix_def sscanf_xxx_def scan_x_def scan_sign_def
      match_space_def is_space_def char_code_def is_hex_def digit_val_def parse_int_def parse_uint_def
      parseSegmentKey_def trim_suffix_def seg_suffix_def Let_def is_ok_def)

subsection \<open>Hashes and messages\<close>

definition bytes_of :: "string \<Rightarrow> bytes" where
  "bytes_of s = map of_char s"

definition string_of :: "bytes \<Rightarrow> string" where
  "string_of bs = map (\<lambda>x. char_of (unat x)) bs"

definition hexSHA256 :: "bytes \<Rightarrow> string" where
  "hexSHA256 dat = hex_encode (sha256 dat)"

definition hmacSHA256 :: "bytes \<Rightarrow> string \<Rightarrow> bytes" where
  "hmacSHA256 key msg = hmac_sha256 key (bytes_of msg)"

definition truncate :: "string \<Rightarrow> nat \<Rightarrow> string" where
  "truncate s n = (if length s \<le> n then s else take n s @ ''...'')"

text \<open>Percent-encoding loses nothing: decoding gives every key and query value back, whatever
  its bytes, and an encoded key holds nothing but unreserved characters, escapes and its own
  slashes, so it is read as one path.\<close>

theorem escapeKey_roundtrip:
  "pct_decode (escapeKey k) = Some k \<and> pct_decode (sigEscape k) = Some k \<and>
   (\<forall>c \<in> set (escapeKey k). is_unreserved c \<or> c \<in> {CHR 0x25, CHR ''/''}) \<and>
   (\<forall>c \<in> set (sigEscape k). is_unreserved c \<or> c = CHR 0x25)"
  using pct_decode_escapeKey pct_decode_sigEscape escapeKey_chars sigEscape_chars by blast

end
