(* ===== verification/S3_Backend.thy ===== *)
theory S3_Backend
  imports S3_Text Go_Time Backend
begin

text \<open>
  The S3 backend (\<open>backup/s3/s3.go\<close>): its configuration, object keys, the requests it makes with
  their SigV4 signature, the paging of listings, and the operations of \<open>BackupBackend\<close>.

  The world is a state \<open>'n\<close> that only the HTTP client touches. What is outside the program is the
  record \<open>s3_env\<close>: the client (\<open>http.Client.Do\<close>, with the body of the response as read to its end,
  or the error reading it ends with), the clock, what \<open>net/url\<close> says of a URL, and the decoding of
  a listing by \<open>encoding/xml\<close>. A body that fails while it is read is an error of the call that
  returned it; in the source the reader of the body meets that error.
\<close>

subsection \<open>Configuration\<close>

record s3_Config =
  c3_Endpoint :: string
  c3_Bucket :: string
  c3_Prefix :: string
  c3_Region :: string
  c3_AccessKey :: string
  c3_SecretKey :: string
  c3_HTTPClient :: bool

text \<open>Whether a client is given, and the client of the backend by its timeout: \<open>None\<close> is the given
  one.\<close>

record s3_Backend =
  b3_host :: string
  b3_prefix :: string
  b3_region :: string
  b3_access :: string
  b3_secret :: string
  b3_timeout :: "duration option"

fun contains_str :: "string \<Rightarrow> string \<Rightarrow> bool" where
  "contains_str [] p = (p = [])"
| "contains_str (c # cs) p = (has_prefix (c # cs) p \<or> contains_str cs p)"

text \<open>\<open>url_Parse ep\<close> is the \<open>Host\<close> of the parsed endpoint.\<close>

definition NewBackend :: "(string \<Rightarrow> string result) \<Rightarrow> s3_Config \<Rightarrow> s3_Backend result" where
  "NewBackend url_Parse cfg =
     (if c3_Endpoint cfg = [] \<or> c3_Bucket cfg = [] \<or> c3_AccessKey cfg = [] \<or> c3_SecretKey cfg = []
      then Inl (ErrText ''s3: Endpoint, Bucket, AccessKey and SecretKey are required'')
      else
        let ep = c3_Endpoint cfg;
            ep = (if \<not> contains_str ep ''://'' then ''https://'' @ ep else ep)
        in case url_Parse ep of
             Inl err \<Rightarrow> Inl (Wrapped ''s3: bad endpoint'' err)
           | Inr u_Host \<Rightarrow>
               let region = c3_Region cfg;
                   region = (if region = [] then ''auto'' else region);
                   client = (if c3_HTTPClient cfg then None else Some (60 * second))
               in Inr \<lparr> b3_host = c3_Bucket cfg @ ''.'' @ u_Host, b3_prefix = trim_byte (CHR ''/'') (c3_Prefix cfg),
                        b3_region = region, b3_access = c3_AccessKey cfg, b3_secret = c3_SecretKey cfg,
                        b3_timeout = client \<rparr>)"

definition s3_key :: "s3_Backend \<Rightarrow> string list \<Rightarrow> string" where
  "s3_key b parts =
     (let all = parts; all = (if b3_prefix b \<noteq> [] then b3_prefix b # all else all) in join ''/'' all)"

subsection \<open>Requests\<close>

record http_request =
  q_method :: string
  q_host :: string
  q_path :: string
  q_query :: string
  q_headers :: "(string \<times> string) list"
  q_body :: bytes

record http_response =
  r_status :: int
  r_body :: "bytes result"

record listedObject =
  lo_Key :: string
  lo_Size :: int

record ListBucketResult =
  IsTruncated :: bool
  NextContinuationToken :: string
  Contents :: "listedObject list"
  CommonPrefixes :: "string list"

record 'n s3_env =
  h_now :: "'n \<Rightarrow> instant"
  h_url :: "string \<Rightarrow> error option"
  h_do :: "http_request \<Rightarrow> 'n \<Rightarrow> http_response result \<times> 'n"
  h_xml :: "bytes \<Rightarrow> ListBucketResult result"

text \<open>\<open>http.NewRequestWithContext\<close> with the URL \<open>https://<host><path>\<close> and a query: its path is
  escaped, and \<open>URL.EscapedPath\<close> gives it back as it is.\<close>

definition NewRequest ::
  "'n s3_env \<Rightarrow> string \<Rightarrow> string \<Rightarrow> string \<Rightarrow> string \<Rightarrow> bytes \<Rightarrow> http_request result" where
  "NewRequest E meth host path query body =
     (case h_url E (''https://'' @ host @ path @ (if query = [] then [] else ''?'' @ query)) of
        Some e \<Rightarrow> Inl e
      | None \<Rightarrow> Inr \<lparr> q_method = meth, q_host = host, q_path = path, q_query = query,
                      q_headers = [], q_body = body \<rparr>)"

definition header_set :: "string \<Rightarrow> string \<Rightarrow> (string \<times> string) list \<Rightarrow> (string \<times> string) list" where
  "header_set k v hs = (k, v) # filter (\<lambda>h. fst h \<noteq> k) hs"

definition header_get :: "string \<Rightarrow> (string \<times> string) list \<Rightarrow> string" where
  "header_get k hs = (case map_of hs k of None \<Rightarrow> [] | Some v \<Rightarrow> v)"

subsection \<open>The signature\<close>

definition dateStamp_of :: "instant \<Rightarrow> string" where
  "dateStamp_of now =
     (case t_Date (\<lambda>_. 0) now of (y, m, d) \<Rightarrow> pad_num 4 y @ pad_num 2 m @ pad_num 2 d)"

definition amzDate_of :: "instant \<Rightarrow> string" where
  "amzDate_of now =
     dateStamp_of now @ ''T'' @ pad_num 2 (t_Hour (\<lambda>_. 0) now) @ pad_num 2 (t_Minute (\<lambda>_. 0) now) @
     pad_num 2 (wall_secs (\<lambda>_. 0) now mod 60) @ ''Z''"

definition canon_headers :: "(string \<times> string) list \<Rightarrow> string list \<Rightarrow> string" where
  "canon_headers canon names = concat (map (\<lambda>k. k @ '':'' @ header_get k canon @ [CHR 0x0A]) names)"

definition canonicalRequest :: "http_request \<Rightarrow> string \<Rightarrow> string \<Rightarrow> string \<Rightarrow> string" where
  "canonicalRequest req canonHeaders signedHeaders payloadHash =
     join [CHR 0x0A] [q_method req, q_path req, q_query req, canonHeaders, signedHeaders, payloadHash]"

definition signature_of :: "string \<Rightarrow> string \<Rightarrow> string \<Rightarrow> string \<Rightarrow> string \<Rightarrow> string" where
  "signature_of secret region dateStamp amzDate canonReq =
     (let scope = dateStamp @ ''/'' @ region @ ''/s3/aws4_request'';
          stringToSign = join [CHR 0x0A] [''AWS4-HMAC-SHA256'', amzDate, scope, hexSHA256 (bytes_of canonReq)];
          k = hmacSHA256 (bytes_of (''AWS4'' @ secret)) dateStamp;
          k = hmacSHA256 k region;
          k = hmacSHA256 k ''s3'';
          k = hmacSHA256 k ''aws4_request''
      in hex_encode (hmacSHA256 k stringToSign))"

definition sign :: "s3_Backend \<Rightarrow> instant \<Rightarrow> string \<Rightarrow> http_request \<Rightarrow> http_request" where
  "sign b now payloadHash req =
     (let amzDate = amzDate_of now;
          dateStamp = dateStamp_of now;
          hs = header_set ''X-Amz-Date'' amzDate (q_headers req);
          hs = header_set ''X-Amz-Content-Sha256'' payloadHash hs;
          canon = [(''host'', b3_host b), (''x-amz-content-sha256'', payloadHash), (''x-amz-date'', amzDate)];
          ct = header_get ''Content-Type'' hs;
          canon = (if ct \<noteq> [] then header_set ''content-type'' ct canon else canon);
          names = sort (map fst canon);
          signedHeaders = join '';'' names;
          canonReq = canonicalRequest req (canon_headers canon names) signedHeaders payloadHash;
          scope = dateStamp @ ''/'' @ b3_region b @ ''/s3/aws4_request'';
          signature = signature_of (b3_secret b) (b3_region b) dateStamp amzDate canonReq;
          hs = header_set ''Authorization''
                 (''AWS4-HMAC-SHA256 Credential='' @ b3_access b @ ''/'' @ scope @ '', SignedHeaders='' @ signedHeaders @
                  '', Signature='' @ signature) hs
      in req\<lparr>q_headers := hs\<rparr>)"

definition emptyPayloadHash :: string where
  "emptyPayloadHash = ''e3b0c44298fc1c149afbf4c8996fb92427ae41e4649b934ca495991b7852b855''"

subsection \<open>put, get, delete\<close>

definition s3_put :: "'n s3_env \<Rightarrow> s3_Backend \<Rightarrow> string \<Rightarrow> bytes \<Rightarrow> 'n \<Rightarrow> error option \<times> 'n" where
  "s3_put E b key dat n =
     (case NewRequest E ''PUT'' (b3_host b) (''/'' @ escapeKey key) [] dat of
        Inl err \<Rightarrow> (Some err, n)
      | Inr req \<Rightarrow>
          (let req = req\<lparr>q_headers := header_set ''Content-Type'' ''application/octet-stream'' (q_headers req)\<rparr>;
               req = sign b (h_now E n) (hexSHA256 dat) req in
           case h_do E req n of
             (Inl err, n) \<Rightarrow> (Some err, n)
           | (Inr resp, n) \<Rightarrow>
               if r_status resp \<noteq> 200
               then (Some (ErrText (''s3: put '' @ key @ '': status '' @ fmt_d (r_status resp))), n)
               else (None, n)))"

definition s3_get :: "'n s3_env \<Rightarrow> s3_Backend \<Rightarrow> string \<Rightarrow> 'n \<Rightarrow> bytes result \<times> 'n" where
  "s3_get E b key n =
     (case NewRequest E ''GET'' (b3_host b) (''/'' @ escapeKey key) [] [] of
        Inl err \<Rightarrow> (Inl err, n)
      | Inr req \<Rightarrow>
          (case h_do E (sign b (h_now E n) emptyPayloadHash req) n of
             (Inl err, n) \<Rightarrow> (Inl err, n)
           | (Inr resp, n) \<Rightarrow>
               if r_status resp \<noteq> 200
               then (Inl (ErrText (''s3: get '' @ key @ '': status '' @ fmt_d (r_status resp))), n)
               else (r_body resp, n)))"

definition s3_delete :: "'n s3_env \<Rightarrow> s3_Backend \<Rightarrow> string \<Rightarrow> 'n \<Rightarrow> error option \<times> 'n" where
  "s3_delete E b key n =
     (case NewRequest E ''DELETE'' (b3_host b) (''/'' @ escapeKey key) [] [] of
        Inl err \<Rightarrow> (Some err, n)
      | Inr req \<Rightarrow>
          (case h_do E (sign b (h_now E n) emptyPayloadHash req) n of
             (Inl err, n) \<Rightarrow> (Some err, n)
           | (Inr resp, n) \<Rightarrow>
               if r_status resp \<noteq> 204 \<and> r_status resp \<noteq> 200 \<and> r_status resp \<noteq> 404
               then (Some (ErrText (''s3: delete '' @ key @ '': status '' @ fmt_d (r_status resp))), n)
               else (None, n)))"

subsection \<open>Listings\<close>

definition list_query :: "string \<Rightarrow> string \<Rightarrow> string \<Rightarrow> url_values" where
  "list_query prefix delimiter token =
     (let q = values_set ''list-type'' ''2'' [];
          q = values_set ''prefix'' prefix q;
          q = (if delimiter \<noteq> [] then values_set ''delimiter'' delimiter q else q)
      in if token \<noteq> [] then values_set ''continuation-token'' token q else q)"

text \<open>One turn of the loop of \<open>listAll\<close>, up to the decoded page.\<close>

definition list_page ::
  "'n s3_env \<Rightarrow> s3_Backend \<Rightarrow> string \<Rightarrow> string \<Rightarrow> string \<Rightarrow> 'n \<Rightarrow> ListBucketResult result \<times> 'n" where
  "list_page E b prefix delimiter token n =
     (case NewRequest E ''GET'' (b3_host b) ''/'' (canonicalQuery (list_query prefix delimiter token)) [] of
        Inl err \<Rightarrow> (Inl err, n)
      | Inr req \<Rightarrow>
          (case h_do E (sign b (h_now E n) emptyPayloadHash req) n of
             (Inl err, n) \<Rightarrow> (Inl err, n)
           | (Inr resp, n) \<Rightarrow>
               (case r_body resp of
                  Inl err \<Rightarrow> (Inl err, n)
                | Inr body \<Rightarrow>
                    if r_status resp \<noteq> 200
                    then (Inl (ErrText (''s3: list '' @ prefix @ '': status '' @ fmt_d (r_status resp) @ '': '' @
                            S3_Text.truncate (string_of body) 200)), n)
                    else (case h_xml E body of
                            Inl err \<Rightarrow> (Inl (Wrapped ''s3: list decode'' err), n)
                          | Inr parsed \<Rightarrow> (Inr parsed, n)))))"

text \<open>The loop; \<open>None\<close> is a listing that never ends.\<close>

partial_function (option) listAll_from ::
  "'n s3_env \<Rightarrow> s3_Backend \<Rightarrow> string \<Rightarrow> string \<Rightarrow> string \<Rightarrow> string list \<Rightarrow> listedObject list \<Rightarrow> 'n \<Rightarrow>
   ((string list \<times> listedObject list) result \<times> 'n) option" where
  "listAll_from E b prefix delimiter token dirs objs n =
     (case list_page E b prefix delimiter token n of
        (r, n) \<Rightarrow>
          (case r of
             Inl err \<Rightarrow> Some (Inl err, n)
           | Inr parsed \<Rightarrow>
               if \<not> IsTruncated parsed \<or> NextContinuationToken parsed = []
               then Some (Inr (dirs @ CommonPrefixes parsed, objs @ Contents parsed), n)
               else listAll_from E b prefix delimiter (NextContinuationToken parsed)
                      (dirs @ CommonPrefixes parsed) (objs @ Contents parsed) n))"

definition listAll ::
  "'n s3_env \<Rightarrow> s3_Backend \<Rightarrow> string \<Rightarrow> string \<Rightarrow> 'n \<Rightarrow>
   ((string list \<times> listedObject list) result \<times> 'n) option" where
  "listAll E b prefix delimiter n = listAll_from E b prefix delimiter [] [] [] n"

subsection \<open>The operations of \<open>BackupBackend\<close>\<close>

definition s3_WriteSnapshot ::
  "'n s3_env \<Rightarrow> s3_Backend \<Rightarrow> string \<Rightarrow> bytes \<Rightarrow> 'n \<Rightarrow> error option \<times> 'n" where
  "s3_WriteSnapshot E b generation r n = s3_put E b (s3_key b [''generations'', generation, ''snapshot.db.gz'']) r n"

definition s3_WriteWALSegment ::
  "'n s3_env \<Rightarrow> s3_Backend \<Rightarrow> string \<Rightarrow> WALSegmentInfo \<Rightarrow> bytes \<Rightarrow> 'n \<Rightarrow> error option \<times> 'n" where
  "s3_WriteWALSegment E b generation sg r n =
     s3_put E b (s3_key b [''generations'', generation, ''wal'', segmentName sg]) r n"

text \<open>The ids of the listed directories; what does not parse is skipped.\<close>

fun gens_of :: "string \<Rightarrow> string list \<Rightarrow> Generation list" where
  "gens_of prefix [] = []"
| "gens_of prefix (d # ds) =
     (let gid = trim_suffix (trim_prefix d prefix) ''/'' in
      case ParseGenerationID gid of
        Inl err \<Rightarrow> gens_of prefix ds
      | Inr ts \<Rightarrow> \<lparr>g_ID = gid, g_CreatedAt = ts\<rparr> # gens_of prefix ds)"

definition s3_Generations ::
  "'n s3_env \<Rightarrow> s3_Backend \<Rightarrow> 'n \<Rightarrow> (Generation list result \<times> 'n) option" where
  "s3_Generations E b n =
     (let prefix = s3_key b [''generations''] @ ''/'' in
      case listAll E b prefix ''/'' n of
        None \<Rightarrow> None
      | Some (Inl err, n) \<Rightarrow> Some (Inl err, n)
      | Some (Inr (dirs, _), n) \<Rightarrow> Some (Inr (go_sort gen_lt (gens_of prefix dirs)), n))"

fun segs_of :: "string \<Rightarrow> listedObject list \<Rightarrow> WALSegmentInfo list" where
  "segs_of prefix [] = []"
| "segs_of prefix (x # xs) =
     (case parseSegmentName (trim_prefix (lo_Key x) prefix) of
        Inl err \<Rightarrow> segs_of prefix xs
      | Inr sg \<Rightarrow> sg\<lparr>s_Size := lo_Size x\<rparr> # segs_of prefix xs)"

definition s3_WALSegments ::
  "'n s3_env \<Rightarrow> s3_Backend \<Rightarrow> string \<Rightarrow> 'n \<Rightarrow> (WALSegmentInfo list result \<times> 'n) option" where
  "s3_WALSegments E b generation n =
     (let prefix = s3_key b [''generations'', generation, ''wal''] @ ''/'' in
      case listAll E b prefix [] n of
        None \<Rightarrow> None
      | Some (Inl err, n) \<Rightarrow> Some (Inl err, n)
      | Some (Inr (_, objs), n) \<Rightarrow> Some (Inr (go_sort seg_lt (segs_of prefix objs)), n))"

definition s3_ReadSnapshot :: "'n s3_env \<Rightarrow> s3_Backend \<Rightarrow> string \<Rightarrow> 'n \<Rightarrow> bytes result \<times> 'n" where
  "s3_ReadSnapshot E b generation n = s3_get E b (s3_key b [''generations'', generation, ''snapshot.db.gz'']) n"

definition s3_ReadWALSegment ::
  "'n s3_env \<Rightarrow> s3_Backend \<Rightarrow> string \<Rightarrow> WALSegmentInfo \<Rightarrow> 'n \<Rightarrow> bytes result \<times> 'n" where
  "s3_ReadWALSegment E b generation sg n =
     s3_get E b (s3_key b [''generations'', generation, ''wal'', segmentName sg]) n"

fun delete_each :: "'n s3_env \<Rightarrow> s3_Backend \<Rightarrow> listedObject list \<Rightarrow> 'n \<Rightarrow> error option \<times> 'n" where
  "delete_each E b [] n = (None, n)"
| "delete_each E b (x # xs) n =
     (case s3_delete E b (lo_Key x) n of
        (Some err, n) \<Rightarrow> (Some err, n)
      | (None, n) \<Rightarrow> delete_each E b xs n)"

definition s3_DeleteGeneration ::
  "'n s3_env \<Rightarrow> s3_Backend \<Rightarrow> string \<Rightarrow> 'n \<Rightarrow> (error option \<times> 'n) option" where
  "s3_DeleteGeneration E b generation n =
     (let prefix = s3_key b [''generations'', generation] @ ''/'' in
      case listAll E b prefix [] n of
        None \<Rightarrow> None
      | Some (Inl err, n) \<Rightarrow> Some (Some err, n)
      | Some (Inr (_, objs), n) \<Rightarrow> Some (delete_each E b objs n))"

text \<open>The interface. Its calls return; a listing that never ends, which is \<open>None\<close> above and does not
  arise with a service that pages as documented (\<open>listAll_complete\<close> in the theory \<open>S3_Service\<close>),
  stands here as an error.\<close>

definition endless :: error where "endless = ErrText ''listing does not end''"

definition s3_ops :: "'n s3_env \<Rightarrow> s3_Backend \<Rightarrow> 'n backend_ops" where
  "s3_ops E b =
     \<lparr> WriteSnapshot = s3_WriteSnapshot E b,
       WriteWALSegment = s3_WriteWALSegment E b,
       Generations = (\<lambda>n. case s3_Generations E b n of None \<Rightarrow> (Inl endless, n) | Some r \<Rightarrow> r),
       WALSegments = (\<lambda>g n. case s3_WALSegments E b g n of None \<Rightarrow> (Inl endless, n) | Some r \<Rightarrow> r),
       ReadSnapshot = s3_ReadSnapshot E b,
       ReadWALSegment = s3_ReadWALSegment E b,
       DeleteGeneration = (\<lambda>g n. case s3_DeleteGeneration E b g n of None \<Rightarrow> (Some endless, n) | Some r \<Rightarrow> r) \<rparr>"

end
