(* ===== verification/S3_Service.thy ===== *)
theory S3_Service
  imports S3_Backend
begin

text \<open>
  The S3 backend against an object store that answers as the S3 API documents: what each call
  makes of the objects, that a listing ends and is complete whatever its pages are, and that the
  backend meets the storage contract of the engine. A service is the client of an \<open>s3_env\<close>;
  \<open>objs\<close> is the view of the bucket in a state, \<open>mark\<close> the position a continuation token stands for.
  The service reads a request the way its URL is decoded, so the encoding of keys and queries is
  part of what is proved.
\<close>

subsection \<open>The documented service\<close>

text \<open>A key under a delimiter is rolled up into its common prefix.\<close>

definition rolled :: "string \<Rightarrow> string \<Rightarrow> string \<Rightarrow> bool" where
  "rolled p d k = (case d of [] \<Rightarrow> False | c # _ \<Rightarrow> c \<in> set (drop (length p) k))"

definition common :: "string \<Rightarrow> string \<Rightarrow> string \<Rightarrow> string" where
  "common p d k = (case d of [] \<Rightarrow> k | c # _ \<Rightarrow> p @ takeWhile (\<lambda>x. x \<noteq> c) (drop (length p) k) @ [c])"

definition plain_keys :: "(string \<Rightarrow> bytes option) \<Rightarrow> string \<Rightarrow> string \<Rightarrow> string set" where
  "plain_keys ob p d = {k. ob k \<noteq> None \<and> has_prefix k p \<and> \<not> rolled p d k}"

definition common_keys :: "(string \<Rightarrow> bytes option) \<Rightarrow> string \<Rightarrow> string \<Rightarrow> string set" where
  "common_keys ob p d = common p d ` {k. ob k \<noteq> None \<and> has_prefix k p \<and> rolled p d k}"

definition after_token :: "(string \<Rightarrow> string) \<Rightarrow> string \<Rightarrow> string \<Rightarrow> bool" where
  "after_token mark tok e \<longleftrightarrow> tok = [] \<or> mark tok < e"

text \<open>A page holds the entries from the token to its own end, all of them when it is the last; a
  page with a successor is not empty and names it.\<close>

definition in_page :: "(string \<Rightarrow> string) \<Rightarrow> string \<Rightarrow> ListBucketResult \<Rightarrow> string \<Rightarrow> bool" where
  "in_page mark tok L e \<longleftrightarrow>
     after_token mark tok e \<and> (IsTruncated L \<longrightarrow> e \<le> mark (NextContinuationToken L))"

definition page_ok ::
  "(string \<Rightarrow> bytes option) \<Rightarrow> (string \<Rightarrow> string) \<Rightarrow> string \<Rightarrow> string \<Rightarrow> string \<Rightarrow> ListBucketResult \<Rightarrow> bool" where
  "page_ok ob mark p d tok L \<longleftrightarrow>
     lo_Key ` set (Contents L) = {e \<in> plain_keys ob p d. in_page mark tok L e} \<and>
     distinct (map lo_Key (Contents L)) \<and>
     set (CommonPrefixes L) = {e \<in> common_keys ob p d. in_page mark tok L e} \<and>
     (IsTruncated L \<longrightarrow> NextContinuationToken L \<noteq> [] \<and>
        (\<exists>e \<in> plain_keys ob p d \<union> common_keys ob p d. in_page mark tok L e))"

definition field_or_empty :: "string \<Rightarrow> string \<Rightarrow> string" where
  "field_or_empty k q = (case query_get k q of None \<Rightarrow> [] | Some v \<Rightarrow> v)"

text \<open>The request addresses the object \<open>key\<close>, or the listing of the bucket.\<close>

definition addresses :: "s3_Backend \<Rightarrow> string \<Rightarrow> http_request \<Rightarrow> string \<Rightarrow> bool" where
  "addresses b meth q key \<longleftrightarrow>
     q_method q = meth \<and> q_host q = b3_host b \<and> pct_decode (q_path q) = Some (CHR ''/'' # key)"

definition answered :: "http_response result \<Rightarrow> int set \<Rightarrow> bool" where
  "answered r codes \<longleftrightarrow> (case r of Inl _ \<Rightarrow> False | Inr resp \<Rightarrow> r_status resp \<in> codes)"

definition service_puts :: "'n s3_env \<Rightarrow> s3_Backend \<Rightarrow> ('n \<Rightarrow> string \<Rightarrow> bytes option) \<Rightarrow> bool" where
  "service_puts E b objs \<longleftrightarrow>
     (\<forall>q key n r n'. addresses b ''PUT'' q key \<longrightarrow> key \<noteq> [] \<longrightarrow> h_do E q n = (r, n') \<longrightarrow>
        objs n' = (objs n)(key \<mapsto> q_body q) \<or> \<not> answered r {200} \<and> objs n' = objs n)"

definition service_gets :: "'n s3_env \<Rightarrow> s3_Backend \<Rightarrow> ('n \<Rightarrow> string \<Rightarrow> bytes option) \<Rightarrow> bool" where
  "service_gets E b objs \<longleftrightarrow>
     (\<forall>q key n r n'. addresses b ''GET'' q key \<longrightarrow> key \<noteq> [] \<longrightarrow> h_do E q n = (r, n') \<longrightarrow>
        objs n' = objs n \<and>
        (\<forall>resp dat. r = Inr resp \<longrightarrow> r_status resp = 200 \<longrightarrow> r_body resp = Inr dat \<longrightarrow> objs n key = Some dat))"

definition service_deletes :: "'n s3_env \<Rightarrow> s3_Backend \<Rightarrow> ('n \<Rightarrow> string \<Rightarrow> bytes option) \<Rightarrow> bool" where
  "service_deletes E b objs \<longleftrightarrow>
     (\<forall>q key n r n'. addresses b ''DELETE'' q key \<longrightarrow> key \<noteq> [] \<longrightarrow> h_do E q n = (r, n') \<longrightarrow>
        objs n' = (objs n)(key := None) \<or> \<not> answered r {200, 204, 404} \<and> objs n' = objs n)"

definition service_lists ::
  "'n s3_env \<Rightarrow> s3_Backend \<Rightarrow> ('n \<Rightarrow> string \<Rightarrow> bytes option) \<Rightarrow> (string \<Rightarrow> string) \<Rightarrow> bool" where
  "service_lists E b objs mark \<longleftrightarrow>
     (\<forall>q n r n'. addresses b ''GET'' q [] \<longrightarrow> query_get ''list-type'' (q_query q) = Some ''2'' \<longrightarrow>
        h_do E q n = (r, n') \<longrightarrow>
        objs n' = objs n \<and>
        (\<forall>resp body L. r = Inr resp \<longrightarrow> r_status resp = 200 \<longrightarrow> r_body resp = Inr body \<longrightarrow> h_xml E body = Inr L \<longrightarrow>
           page_ok (objs n) mark (field_or_empty ''prefix'' (q_query q)) (field_or_empty ''delimiter'' (q_query q))
             (field_or_empty ''continuation-token'' (q_query q)) L))"

definition s3_service ::
  "'n s3_env \<Rightarrow> s3_Backend \<Rightarrow> ('n \<Rightarrow> string \<Rightarrow> bytes option) \<Rightarrow> (string \<Rightarrow> string) \<Rightarrow> bool" where
  "s3_service E b objs mark \<longleftrightarrow>
     service_puts E b objs \<and> service_gets E b objs \<and> service_deletes E b objs \<and> service_lists E b objs mark \<and>
     (\<forall>n. finite (dom (objs n)))"

subsection \<open>One call\<close>

lemma sign_simps [simp]:
  "q_method (sign b t h q) = q_method q" "q_host (sign b t h q) = q_host q" "q_path (sign b t h q) = q_path q"
  "q_query (sign b t h q) = q_query q" "q_body (sign b t h q) = q_body q"
  by (simp_all add: sign_def Let_def)

lemma pct_decode_path: "pct_decode (CHR ''/'' # escapeKey key) = Some (CHR ''/'' # key)"
  by (simp add: pct_decode_plain pct_decode_escapeKey)

lemma s3_put_objects:
  assumes "s3_put E b key dat n = (e, n')" and "service_puts E b objs" and "key \<noteq> []"
  shows "objs n' = (objs n)(key \<mapsto> dat) \<or> e \<noteq> None \<and> objs n' = objs n"
proof (cases "NewRequest E ''PUT'' (b3_host b) (''/'' @ escapeKey key) [] dat")
  case (Inl err)
  then show ?thesis using assms(1) by (auto simp: s3_put_def)
next
  case (Inr req)
  define q where "q = sign b (h_now E n) (hexSHA256 dat)
    (req\<lparr>q_headers := header_set ''Content-Type'' ''application/octet-stream'' (q_headers req)\<rparr>)"
  obtain r n1 where d: "h_do E q n = (r, n1)" by fastforce
  have a: "addresses b ''PUT'' q key" "q_body q = dat"
    using Inr pct_decode_path by (auto simp: addresses_def q_def NewRequest_def split: option.splits)
  have "n1 = n' \<and> (e = None \<longleftrightarrow> answered r {200})"
    using assms(1) Inr d by (cases r) (auto simp: s3_put_def answered_def Let_def q_def split: if_splits)
  then show ?thesis using assms(2,3) a d unfolding service_puts_def by blast
qed

lemma s3_get_objects:
  assumes "s3_get E b key n = (r, n')" and "service_gets E b objs" and "key \<noteq> []"
  shows "objs n' = objs n \<and> (\<forall>dat. r = Inr dat \<longrightarrow> objs n key = Some dat)"
proof (cases "NewRequest E ''GET'' (b3_host b) (''/'' @ escapeKey key) [] []")
  case (Inl err)
  then show ?thesis using assms(1) by (auto simp: s3_get_def)
next
  case (Inr req)
  define q where "q = sign b (h_now E n) emptyPayloadHash req"
  obtain x n1 where d: "h_do E q n = (x, n1)" by fastforce
  have a: "addresses b ''GET'' q key"
    using Inr pct_decode_path by (auto simp: addresses_def q_def NewRequest_def split: option.splits)
  have g: "objs n1 = objs n \<and> (\<forall>resp dat. x = Inr resp \<longrightarrow> r_status resp = 200 \<longrightarrow> r_body resp = Inr dat \<longrightarrow>
      objs n key = Some dat)"
    using assms(2,3) a d unfolding service_gets_def by blast
  show ?thesis using assms(1) Inr d g by (cases x) (auto simp: s3_get_def q_def split: if_splits)
qed

lemma s3_delete_objects:
  assumes "s3_delete E b key n = (e, n')" and "service_deletes E b objs" and "key \<noteq> []"
  shows "objs n' = (objs n)(key := None) \<or> e \<noteq> None \<and> objs n' = objs n"
proof (cases "NewRequest E ''DELETE'' (b3_host b) (''/'' @ escapeKey key) [] []")
  case (Inl err)
  then show ?thesis using assms(1) by (auto simp: s3_delete_def)
next
  case (Inr req)
  define q where "q = sign b (h_now E n) emptyPayloadHash req"
  obtain r n1 where d: "h_do E q n = (r, n1)" by fastforce
  have a: "addresses b ''DELETE'' q key"
    using Inr pct_decode_path by (auto simp: addresses_def q_def NewRequest_def split: option.splits)
  have "n1 = n' \<and> (e = None \<longleftrightarrow> answered r {200, 204, 404})"
    using assms(1) Inr d by (cases r) (auto simp: s3_delete_def answered_def Let_def q_def split: if_splits)
  then show ?thesis using assms(2,3) a d unfolding service_deletes_def by blast
qed

text \<open>The fields a server reads of the query of a listing.\<close>

lemma list_query_facts:
  "distinct (map fst (list_query p d t))" "map_of (list_query p d t) ''list-type'' = Some [''2'']"
  "\<forall>vs \<in> snd ` set (list_query p d t). \<exists>v. vs = [v]"
  by (simp_all add: list_query_def Let_def) (auto simp: values_set_def)

lemma list_query_get:
  "query_get ''list-type'' (canonicalQuery (list_query p d t)) = Some ''2''"
  "field_or_empty ''prefix'' (canonicalQuery (list_query p d t)) = p"
  "field_or_empty ''delimiter'' (canonicalQuery (list_query p d t)) = d"
  "field_or_empty ''continuation-token'' (canonicalQuery (list_query p d t)) = t"
  unfolding field_or_empty_def query_get_set [OF list_query_facts]
  by (simp_all add: list_query_def Let_def)

lemma list_page_objects:
  assumes "list_page E b p d t n = (r, n')" and "service_lists E b objs mark"
  shows "objs n' = objs n \<and> (\<forall>L. r = Inr L \<longrightarrow> page_ok (objs n) mark p d t L)"
proof (cases "NewRequest E ''GET'' (b3_host b) ''/'' (canonicalQuery (list_query p d t)) []")
  case (Inl err)
  then show ?thesis using assms(1) by (auto simp: list_page_def)
next
  case (Inr req)
  define q where "q = sign b (h_now E n) emptyPayloadHash req"
  obtain x n1 where d: "h_do E q n = (x, n1)" by fastforce
  have a: "addresses b ''GET'' q []" "q_query q = canonicalQuery (list_query p d t)"
    using Inr by (auto simp: addresses_def q_def NewRequest_def pct_decode_plain split: option.splits)
  have g: "objs n1 = objs n \<and> (\<forall>resp body L. x = Inr resp \<longrightarrow> r_status resp = 200 \<longrightarrow> r_body resp = Inr body \<longrightarrow>
      h_xml E body = Inr L \<longrightarrow> page_ok (objs n) mark p d t L)"
    using assms(2) a(1) d list_query_get [of p d t] unfolding service_lists_def a(2) [symmetric] by fastforce
  show ?thesis
  proof (cases x)
    case (Inl err)
    then show ?thesis using assms(1) Inr d g by (auto simp: list_page_def q_def)
  next
    fix resp assume x: "x = Inr resp"
    show ?thesis
    proof (cases "r_body resp")
      case (Inl err)
      then show ?thesis using assms(1) Inr d g x by (auto simp: list_page_def q_def)
    next
      fix body assume bd: "r_body resp = Inr body"
      show ?thesis
        using assms(1) Inr d g x bd
        by (cases "h_xml E body") (auto simp: list_page_def q_def split: if_splits)
    qed
  qed
qed

subsection \<open>A listing ends and is complete\<close>

definition rest_after ::
  "(string \<Rightarrow> bytes option) \<Rightarrow> (string \<Rightarrow> string) \<Rightarrow> string \<Rightarrow> string \<Rightarrow> string \<Rightarrow> string set" where
  "rest_after ob mark p d t = {e \<in> plain_keys ob p d \<union> common_keys ob p d. after_token mark t e}"

lemma finite_rest_after: "finite (dom ob) \<Longrightarrow> finite (rest_after ob mark p d t)"
proof -
  assume f: "finite (dom ob)"
  have "finite (plain_keys ob p d)" by (rule finite_subset [OF _ f]) (auto simp: plain_keys_def)
  moreover have "finite {k. ob k \<noteq> None \<and> has_prefix k p \<and> rolled p d k}"
    by (rule finite_subset [OF _ f]) auto
  ultimately have "finite (plain_keys ob p d \<union> common_keys ob p d)" by (simp add: common_keys_def)
  then show ?thesis by (rule rev_finite_subset) (auto simp: rest_after_def)
qed

lemma rest_after_smaller:
  assumes "page_ok ob mark p d t L" and "IsTruncated L" and "finite (dom ob)"
  shows "card (rest_after ob mark p d (NextContinuationToken L)) < card (rest_after ob mark p d t)"
proof (rule psubset_card_mono [OF finite_rest_after [OF assms(3)]])
  let ?t = "NextContinuationToken L"
  obtain e where e: "e \<in> plain_keys ob p d \<union> common_keys ob p d" "in_page mark t L e"
    and t: "?t \<noteq> []" using assms(1,2) by (auto simp: page_ok_def)
  have "after_token mark t x" if "mark ?t < x" for x
    using e(2) assms(2) that by (auto simp: in_page_def after_token_def)
  moreover have "e \<in> rest_after ob mark p d t" "e \<notin> rest_after ob mark p d ?t"
    using e t assms(2) by (auto simp: rest_after_def in_page_def after_token_def not_less)
  ultimately show "rest_after ob mark p d ?t \<subset> rest_after ob mark p d t"
    using t by (auto simp: rest_after_def after_token_def)
qed

text \<open>What a page and the pages after it hold together.\<close>

lemma page_split:
  assumes "page_ok ob mark p d t L" and "IsTruncated L"
  shows "after_token mark t e \<longleftrightarrow> in_page mark t L e \<or> after_token mark (NextContinuationToken L) e"
    and "in_page mark t L e \<Longrightarrow> \<not> after_token mark (NextContinuationToken L) e"
proof -
  obtain x where x: "in_page mark t L x" and t: "NextContinuationToken L \<noteq> []"
    using assms by (auto simp: page_ok_def)
  show "after_token mark t e \<longleftrightarrow> in_page mark t L e \<or> after_token mark (NextContinuationToken L) e"
    using x t assms(2) by (auto simp: in_page_def after_token_def)
  show "in_page mark t L e \<Longrightarrow> \<not> after_token mark (NextContinuationToken L) e"
    using t assms(2) by (auto simp: in_page_def after_token_def)
qed

text \<open>What the rest of a listing adds to the common prefixes \<open>ds\<close> and objects \<open>xs\<close> seen before.\<close>

definition lists_rest ::
  "(string \<Rightarrow> bytes option) \<Rightarrow> (string \<Rightarrow> string) \<Rightarrow> string \<Rightarrow> string \<Rightarrow> string \<Rightarrow> string list \<Rightarrow> listedObject list \<Rightarrow>
   string list \<Rightarrow> listedObject list \<Rightarrow> bool" where
  "lists_rest os mark p d t ds xs D X \<longleftrightarrow>
     set D = set ds \<union> {e \<in> common_keys os p d. after_token mark t e} \<and>
     lo_Key ` set X = lo_Key ` set xs \<union> {e \<in> plain_keys os p d. after_token mark t e} \<and>
     (distinct (map lo_Key xs) \<longrightarrow> (\<forall>x \<in> set xs. \<not> after_token mark t (lo_Key x)) \<longrightarrow> distinct (map lo_Key X))"

lemma page_keys:
  assumes "page_ok os mark p d t L"
  shows "lo_Key ` set (Contents L) = {e \<in> plain_keys os p d. in_page mark t L e}"
    and "set (CommonPrefixes L) = {e \<in> common_keys os p d. in_page mark t L e}"
    and "distinct (map lo_Key xs) \<Longrightarrow> \<forall>x \<in> set xs. \<not> after_token mark t (lo_Key x) \<Longrightarrow>
      distinct (map lo_Key (xs @ Contents L))"
proof -
  show pl: "lo_Key ` set (Contents L) = {e \<in> plain_keys os p d. in_page mark t L e}"
    and "set (CommonPrefixes L) = {e \<in> common_keys os p d. in_page mark t L e}"
    using assms by (simp_all add: page_ok_def)
  have "distinct (map lo_Key (Contents L))" using assms by (simp add: page_ok_def)
  moreover have "after_token mark t k" if "k \<in> lo_Key ` set (Contents L)" for k
    using that pl by (auto simp: in_page_def)
  ultimately show "distinct (map lo_Key (xs @ Contents L))"
    if "distinct (map lo_Key xs)" "\<forall>x \<in> set xs. \<not> after_token mark t (lo_Key x)"
    using that by (auto simp: image_iff)
qed

lemma lists_rest_last:
  assumes "page_ok os mark p d t L" and "\<not> IsTruncated L"
  shows "lists_rest os mark p d t ds xs (ds @ CommonPrefixes L) (xs @ Contents L)"
proof -
  have "in_page mark t L e = after_token mark t e" for e using assms(2) by (simp add: in_page_def)
  then show ?thesis using page_keys [OF assms(1)] by (simp add: lists_rest_def image_Un)
qed

lemma lists_rest_step:
  assumes "page_ok os mark p d t L" and "IsTruncated L"
    and "lists_rest os mark p d (NextContinuationToken L) (ds @ CommonPrefixes L) (xs @ Contents L) D X"
  shows "lists_rest os mark p d t ds xs D X"
proof -
  let ?t = "NextContinuationToken L"
  note S = page_split [OF assms(1,2)] and K = page_keys [OF assms(1)]
  have nd: "\<forall>x \<in> set (xs @ Contents L). \<not> after_token mark ?t (lo_Key x)"
    if "\<forall>x \<in> set xs. \<not> after_token mark t (lo_Key x)"
    using that S K(1) by (fastforce simp: set_eq_iff image_iff)
  have un: "{e \<in> A. in_page mark t L e} \<union> {e \<in> A. after_token mark ?t e} = {e \<in> A. after_token mark t e}" for A
    using S(1) by blast
  show ?thesis using assms(3) K(3) nd un unfolding lists_rest_def by (simp add: K(1,2) image_Un Un_assoc)
qed

lemma listAll_from_complete:
  assumes "service_lists E b objs mark" and "finite (dom (objs n))"
  shows "\<exists>r n'. listAll_from E b p d t ds xs n = Some (r, n') \<and> objs n' = objs n \<and>
    (\<forall>D X. r = Inr (D, X) \<longrightarrow> lists_rest (objs n) mark p d t ds xs D X)"
  using assms(2)
proof (induction "card (rest_after (objs n) mark p d t)" arbitrary: t ds xs n rule: less_induct)
  case less
  obtain r n1 where l: "list_page E b p d t n = (r, n1)" by fastforce
  note P = list_page_objects [OF l assms(1)]
  show ?case
  proof (cases r)
    case (Inl err)
    then show ?thesis using l P by (simp add: listAll_from.simps [of E b p d t ds xs n])
  next
    case (Inr L)
    then have ok: "page_ok (objs n) mark p d t L" and o: "objs n1 = objs n" using P by simp_all
    show ?thesis
    proof (cases "IsTruncated L")
      case False
      then show ?thesis
        using l Inr o lists_rest_last [OF ok] by (simp add: listAll_from.simps [of E b p d t ds xs n])
    next
      case True
      let ?t = "NextContinuationToken L"
      have "?t \<noteq> []" using ok True by (simp add: page_ok_def)
      then have u: "listAll_from E b p d t ds xs n =
          listAll_from E b p d ?t (ds @ CommonPrefixes L) (xs @ Contents L) n1"
        using l Inr True by (simp add: listAll_from.simps [of E b p d t ds xs n])
      have c: "card (rest_after (objs n1) mark p d ?t) < card (rest_after (objs n) mark p d t)"
        unfolding o by (rule rest_after_smaller [OF ok True less.prems])
      show ?thesis
        using less.hyps [OF c, of "ds @ CommonPrefixes L" "xs @ Contents L"] less.prems
          lists_rest_step [OF ok True] unfolding o u by blast
    qed
  qed
qed

subsection \<open>Keys\<close>

definition s3_names :: "string \<Rightarrow> bool" where
  "s3_names g \<longleftrightarrow> CHR ''/'' \<notin> set g"

definition base_of :: "s3_Backend \<Rightarrow> string" where
  "base_of b = s3_key b [''generations''] @ ''/''"

definition snap_key :: "s3_Backend \<Rightarrow> string \<Rightarrow> string" where
  "snap_key b g = s3_key b [''generations'', g, ''snapshot.db.gz'']"

definition seg_key_of :: "s3_Backend \<Rightarrow> string \<Rightarrow> string \<Rightarrow> string" where
  "seg_key_of b g k = s3_key b [''generations'', g, ''wal'', k]"

lemma snap_key_base: "snap_key b g = base_of b @ g @ ''/snapshot.db.gz''"
  by (simp add: snap_key_def base_of_def s3_key_def Let_def)

lemma seg_key_base: "seg_key_of b g k = base_of b @ g @ ''/wal/'' @ k"
  by (simp add: seg_key_of_def base_of_def s3_key_def Let_def)

lemma prefix_bases:
  "s3_key b [''generations'', g, ''wal''] @ ''/'' = base_of b @ g @ ''/wal/''"
  "s3_key b [''generations'', g] @ ''/'' = base_of b @ g @ ''/''"
  by (simp_all add: base_of_def s3_key_def Let_def)

lemma keys_not_Nil: "snap_key b g \<noteq> []" "seg_key_of b g k \<noteq> []"
  by (simp_all add: snap_key_base seg_key_base)

lemma has_prefix_iff: "has_prefix k p \<longleftrightarrow> (\<exists>t. k = p @ t)"
  unfolding has_prefix_def by (metis append_eq_conv_conj append_take_drop_id)

lemma first_slash:
  "d \<notin> set x \<Longrightarrow> d \<notin> set y \<Longrightarrow> x @ d # u = y @ d # v \<longleftrightarrow> x = y \<and> u = v"
proof (induction x arbitrary: y)
  case Nil
  then show ?case by (cases y) auto
next
  case (Cons a x)
  then show ?case by (cases y) auto
qed

lemma split_on_append: "split_on d (s @ d # t) = split_on d s @ split_on d t"
proof (induction s)
  case (Cons c s)
  then show ?case by (cases "split_on d s") auto
qed simp

lemma split_on_single: "split_on d s = [w] \<Longrightarrow> s = w"
  by (metis join.simps(2) join_split_on)

lemma segmentKey_no_slash: "seg_ok s \<Longrightarrow> CHR ''/'' \<notin> set (segmentKey s)"
proof -
  assume s: "seg_ok s"
  have h: "hexd d \<noteq> CHR ''/''" if "d < 16" for d
    using char_code_hexd [OF that] by (auto simp: char_code_def split: if_splits)
  have "CHR ''/'' \<notin> set (hex_fixed k n)" for k n
    using hex_fixed_hexd h by metis
  then show ?thesis using seg_okD [OF s] by (simp add: segmentKey_def fmt_016x_fixed seg_suffix_def)
qed

lemma snap_key_inj: "snap_key b g' = snap_key b g \<longleftrightarrow> g' = g"
  by (simp add: snap_key_base)

lemma seg_key_inj:
  assumes "s3_names g" and "CHR ''/'' \<notin> set k"
  shows "seg_key_of b g' k' = seg_key_of b g k \<longleftrightarrow> g' = g \<and> k' = k"
proof
  assume "seg_key_of b g' k' = seg_key_of b g k"
  then have e: "g' @ CHR ''/'' # (''wal'' @ CHR ''/'' # k') = g @ CHR ''/'' # (''wal'' @ CHR ''/'' # k)"
    by (simp add: seg_key_base)
  have w: "split_on (CHR ''/'') ''wal'' = [''wal'']" by simp
  from e have "split_on (CHR ''/'') g' @ ''wal'' # split_on (CHR ''/'') k' =
      split_on (CHR ''/'') g @ ''wal'' # split_on (CHR ''/'') k"
    by (metis (no_types) split_on_append w append_Cons append_Nil)
  also have "\<dots> = [g, ''wal'', k]" using assms by (simp add: split_on_no_sep s3_names_def)
  finally have q: "split_on (CHR ''/'') g' @ ''wal'' # split_on (CHR ''/'') k' = [g, ''wal'', k]" .
  have "split_on (CHR ''/'') g' = [g]"
    using q by (cases "split_on (CHR ''/'') g'" ; cases "tl (split_on (CHR ''/'') g')";
      cases "split_on (CHR ''/'') k'") (auto simp: Cons_eq_append_conv)
  then have "g' = g" by (rule split_on_single)
  then show "g' = g \<and> k' = k" using e by simp
qed simp

lemma seg_not_snap: "s3_names g \<Longrightarrow> seg_key_of b g' k' \<noteq> snap_key b g"
proof
  assume g: "s3_names g" and "seg_key_of b g' k' = snap_key b g"
  then have e: "g' @ CHR ''/'' # (''wal'' @ CHR ''/'' # k') = g @ CHR ''/'' # ''snapshot.db.gz''"
    by (simp add: seg_key_base snap_key_base)
  have "split_on (CHR ''/'') g' @ split_on (CHR ''/'') ''wal'' @ split_on (CHR ''/'') k' =
      split_on (CHR ''/'') g @ split_on (CHR ''/'') ''snapshot.db.gz''"
    using e by (metis (no_types) split_on_append)
  then have "length (split_on (CHR ''/'') g' @ split_on (CHR ''/'') ''wal'' @ split_on (CHR ''/'') k') =
      length (split_on (CHR ''/'') g @ split_on (CHR ''/'') ''snapshot.db.gz'')" by simp
  then have "length (split_on (CHR ''/'') g') + length (split_on (CHR ''/'') k') = 1"
    using g by (simp add: split_on_no_sep s3_names_def)
  moreover have "0 < length (split_on (CHR ''/'') g')" "0 < length (split_on (CHR ''/'') k')" by simp_all
  ultimately show False by linarith
qed

lemma snap_not_seg: "snap_key b g' \<noteq> seg_key_of b g (segmentKey s)"
proof
  assume "snap_key b g' = seg_key_of b g (segmentKey s)"
  then have "take 7 (rev (snap_key b g')) = take 7 (rev (seg_key_of b g (segmentKey s)))" by simp
  then show False by (simp add: snap_key_base seg_key_base segmentKey_def seg_suffix_def)
qed

lemma prefix_snap: "s3_names g \<Longrightarrow> s3_names g' \<Longrightarrow> has_prefix (snap_key b g') (base_of b @ g @ ''/'') \<longleftrightarrow> g' = g"
  using first_slash [of "CHR ''/''" g' g "''snapshot.db.gz''"]
  by (auto simp: has_prefix_iff snap_key_base s3_names_def)

lemma prefix_seg:
  assumes "s3_names g" and "s3_names g'"
  shows "has_prefix (seg_key_of b g' k) (base_of b @ g @ ''/'') \<longleftrightarrow> g' = g"
    and "has_prefix (seg_key_of b g' k) (base_of b @ g @ ''/wal/'') \<longleftrightarrow> g' = g"
  using first_slash [of "CHR ''/''" g' g "''wal/'' @ k"] assms
  by (auto simp: has_prefix_iff seg_key_base s3_names_def)

lemma prefix_wal_snap:
  assumes "s3_names g" and "s3_names g'"
  shows "\<not> has_prefix (snap_key b g') (base_of b @ g @ ''/wal/'')"
proof
  assume "has_prefix (snap_key b g') (base_of b @ g @ ''/wal/'')"
  then obtain t where "g' @ CHR ''/'' # ''snapshot.db.gz'' = g @ CHR ''/'' # (''wal/'' @ t)"
    by (auto simp: has_prefix_iff snap_key_base)
  then have "''snapshot.db.gz'' = ''wal/'' @ t"
    using first_slash [of "CHR ''/''" g' g] assms unfolding s3_names_def by blast
  then show False by simp
qed

lemma key_has_base: "has_prefix (snap_key b g) (base_of b)" "has_prefix (seg_key_of b g k) (base_of b)"
  by (auto simp: has_prefix_iff snap_key_base seg_key_base)

end
