(* ===== verification/S3_Contract.thy ===== *)
theory S3_Contract
  imports S3_Service Backup_Recovery
begin

text \<open>
  The S3 backend meets the storage contract \<open>backup_backend\<close> with every documented service, so what
  the engine and restore prove from the contract holds over S3. It does not meet the stronger
  \<open>atomic_backend\<close>: HTTP may lose the reply to a write that was stored. The objects under the backend's prefix are its
  own (one prefix per database, as \<open>Config.Prefix\<close> asks): snapshots and segments of generations
  whose ids have no slash.
\<close>

definition s3_snap :: "('n \<Rightarrow> string \<Rightarrow> bytes option) \<Rightarrow> s3_Backend \<Rightarrow> 'n \<Rightarrow> string \<Rightarrow> bytes option" where
  "s3_snap objs b n g = objs n (snap_key b g)"

definition s3_seg :: "('n \<Rightarrow> string \<Rightarrow> bytes option) \<Rightarrow> s3_Backend \<Rightarrow> 'n \<Rightarrow> string \<Rightarrow> string \<Rightarrow> bytes option" where
  "s3_seg objs b n g k = objs n (seg_key_of b g k)"

definition own_key :: "s3_Backend \<Rightarrow> string \<Rightarrow> bool" where
  "own_key b k \<longleftrightarrow> (\<exists>g. s3_names g \<and> (k = snap_key b g \<or> (\<exists>s. seg_ok s \<and> k = seg_key_of b g (segmentKey s))))"

definition own_keys :: "s3_Backend \<Rightarrow> (string \<Rightarrow> bytes option) \<Rightarrow> bool" where
  "own_keys b ob \<longleftrightarrow> (\<forall>k. ob k \<noteq> None \<longrightarrow> has_prefix k (base_of b) \<longrightarrow> own_key b k)"

definition s3_inv ::
  "'n s3_env \<Rightarrow> s3_Backend \<Rightarrow> ('n \<Rightarrow> string \<Rightarrow> bytes option) \<Rightarrow> (string \<Rightarrow> string) \<Rightarrow> 'n \<Rightarrow> bool" where
  "s3_inv E b objs mark n \<longleftrightarrow> s3_service E b objs mark \<and> own_keys b (objs n)"

text \<open>Generation ids are hexadecimal digits, dashes and nothing else.\<close>

lemma digits16: "c \<in> set (digits_of 16 n) \<Longrightarrow> \<exists>d < 16. c = hexd d"
proof (induction "16 :: nat" n rule: digits_of.induct)
  case (1 n)
  show ?case
  proof (cases "n < 16")
    case True
    then show ?thesis using 1(2) by (auto simp: digits_of.simps [of 16 n])
  next
    case False
    then have "c \<in> set (digits_of 16 (n div 16)) \<or> c = hexd (n mod 16)"
      using 1(2) by (auto simp: digits_of.simps [of 16 n])
    then show ?thesis using 1(1) False by (auto intro: exI [of _ "n mod 16"])
  qed
qed

lemma hex_encode_chars: "c \<in> set (hex_encode bs) \<Longrightarrow> \<exists>d < 16. c = hexd d"
proof (induction bs)
  case (Cons x bs)
  have "unat x < 256" using unsigned_less [of x, where ?'a = nat] by simp
  then have "unat x div 16 < 16" by simp
  moreover have "unat x mod 16 < 16" by simp
  moreover have "c = hexd (unat x div 16) \<or> c = hexd (unat x mod 16) \<or> c \<in> set (hex_encode bs)"
    using Cons.prems by simp
  ultimately show ?case using Cons.IH by blast
qed simp

lemma s3_names_new: "s3_names (NewGenerationID t r)"
proof -
  have h: "hexd d \<noteq> CHR ''/''" if "d < 16" for d
    using char_code_hexd [OF that] by (auto simp: char_code_def split: if_splits)
  have "CHR ''/'' \<notin> set (digits_of 16 n)" "CHR ''/'' \<notin> set (hex_encode r)" for n
    using digits16 hex_encode_chars h by metis+
  then show ?thesis by (simp add: s3_names_def NewGenerationID_def fmt_016x_def pad0_def)
qed

subsection \<open>The objects under the prefix\<close>

lemma own_snap: "own_key b (snap_key b g) \<longleftrightarrow> s3_names g"
  using snap_not_seg by (auto simp: own_key_def snap_key_inj)

lemma own_seg: "own_key b (seg_key_of b g k) \<longleftrightarrow> s3_names g \<and> (\<exists>s. seg_ok s \<and> k = segmentKey s)"
proof
  assume "own_key b (seg_key_of b g k)"
  then obtain h where h: "s3_names h" and
    c: "seg_key_of b g k = snap_key b h \<or> (\<exists>s. seg_ok s \<and> seg_key_of b g k = seg_key_of b h (segmentKey s))"
    by (auto simp: own_key_def)
  from c obtain s where s: "seg_ok s" "seg_key_of b g k = seg_key_of b h (segmentKey s)"
    using seg_not_snap [OF h] by blast
  then have "g = h \<and> k = segmentKey s"
    using seg_key_inj [OF h segmentKey_no_slash [OF s(1)]] by simp
  then show "s3_names g \<and> (\<exists>s. seg_ok s \<and> k = segmentKey s)" using h s(1) by blast
qed (auto simp: own_key_def)

lemma own_keys_sub:
  "own_keys b ob \<Longrightarrow> (\<And>k. ob' k = ob k \<or> ob' k = None) \<Longrightarrow> own_keys b ob'"
  unfolding own_keys_def
proof (intro allI impI)
  fix k
  assume o: "\<forall>k. ob k \<noteq> None \<longrightarrow> has_prefix k (base_of b) \<longrightarrow> own_key b k"
    and c: "\<And>k. ob' k = ob k \<or> ob' k = None" and k: "ob' k \<noteq> None" "has_prefix k (base_of b)"
  have "ob k \<noteq> None" using c [of k] k(1) by auto
  then show "own_key b k" using o k(2) by simp
qed

lemma own_keys_upd: "own_keys b ob \<Longrightarrow> own_key b k \<Longrightarrow> own_keys b (ob(k \<mapsto> d))"
  by (auto simp: own_keys_def)

text \<open>Which of them a listing below a generation names.\<close>

lemma own_below:
  assumes "own_keys b ob" and "s3_names g"
  shows "ob k \<noteq> None \<and> has_prefix k (base_of b @ g @ ''/'') \<longleftrightarrow>
    ob k \<noteq> None \<and> (k = snap_key b g \<or> (\<exists>s. seg_ok s \<and> k = seg_key_of b g (segmentKey s)))"
proof -
  have "has_prefix k (base_of b)" if "has_prefix k (base_of b @ g @ ''/'')"
    using that by (auto simp: has_prefix_iff)
  then have "own_key b k" if "ob k \<noteq> None" "has_prefix k (base_of b @ g @ ''/'')"
    using that assms(1) by (auto simp: own_keys_def)
  then show ?thesis
    using prefix_snap [OF assms(2)] prefix_seg(1) [OF assms(2)] assms(2) unfolding own_key_def by blast
qed

lemma own_below_wal:
  assumes "own_keys b ob" and "s3_names g"
  shows "ob k \<noteq> None \<and> has_prefix k (base_of b @ g @ ''/wal/'') \<longleftrightarrow>
    ob k \<noteq> None \<and> (\<exists>s. seg_ok s \<and> k = seg_key_of b g (segmentKey s))"
proof -
  have "has_prefix k (base_of b)" if "has_prefix k (base_of b @ g @ ''/wal/'')"
    using that by (auto simp: has_prefix_iff)
  then have "own_key b k" if "ob k \<noteq> None" "has_prefix k (base_of b @ g @ ''/wal/'')"
    using that assms(1) by (auto simp: own_keys_def)
  then show ?thesis
    using prefix_wal_snap [OF assms(2)] prefix_seg(2) [OF assms(2)] assms(2) unfolding own_key_def by blast
qed

lemma plain_keys_flat: "plain_keys ob p [] = {k. ob k \<noteq> None \<and> has_prefix k p}"
  by (simp add: plain_keys_def rolled_def)

lemma rolled_generation:
  assumes "own_keys b ob" and "ob k \<noteq> None" and "has_prefix k (base_of b)"
  obtains g where "s3_names g" "common (base_of b) ''/'' k = base_of b @ g @ ''/''" "rolled (base_of b) ''/'' k"
    "k = snap_key b g \<or> (\<exists>s. seg_ok s \<and> k = seg_key_of b g (segmentKey s))"
proof -
  obtain g where g: "s3_names g" "k = snap_key b g \<or> (\<exists>s. seg_ok s \<and> k = seg_key_of b g (segmentKey s))"
    using assms unfolding own_keys_def own_key_def by blast
  then obtain r where r: "k = base_of b @ g @ CHR ''/'' # r" by (auto simp: snap_key_base seg_key_base)
  have "takeWhile (\<lambda>x. x \<noteq> CHR ''/'') (g @ CHR ''/'' # r) = g"
    using g(1) by (subst takeWhile_append2) (auto simp: s3_names_def)
  then have "common (base_of b) ''/'' k = base_of b @ g @ ''/''" "rolled (base_of b) ''/'' k"
    by (simp_all add: r common_def rolled_def)
  then show thesis using that g by blast
qed

subsection \<open>The calls\<close>

lemma listAll_objects:
  assumes "s3_service E b objs mark"
  obtains r n' where "listAll E b p d n = Some (r, n')" "objs n' = objs n"
    "\<forall>D X. r = Inr (D, X) \<longrightarrow> set D = common_keys (objs n) p d \<and> lo_Key ` set X = plain_keys (objs n) p d \<and>
       distinct (map lo_Key X)"
proof -
  have "service_lists E b objs mark" "finite (dom (objs n))" using assms by (simp_all add: s3_service_def)
  from listAll_from_complete [OF this, of p d "[]" "[]" "[]"] show thesis
    using that by (auto simp: listAll_def lists_rest_def after_token_def)
qed

lemma gens_of_iff:
  "x \<in> set (gens_of p ds) \<longleftrightarrow>
     (\<exists>d \<in> set ds. g_ID x = trim_suffix (trim_prefix d p) ''/'' \<and> ParseGenerationID (g_ID x) = Inr (g_CreatedAt x))"
proof (induction ds)
  case (Cons d ds)
  show ?case
  proof (cases "ParseGenerationID (trim_suffix (trim_prefix d p) ''/'')")
    case (Inl err)
    then show ?thesis using Cons by (auto simp: Let_def)
  next
    case (Inr ts)
    have "x = \<lparr>g_ID = i, g_CreatedAt = t\<rparr> \<longleftrightarrow> g_ID x = i \<and> g_CreatedAt x = t" for i t by (cases x) auto
    with Inr Cons show ?thesis by (auto simp: Let_def)
  qed
qed simp

lemma segs_of_names:
  assumes "\<forall>x \<in> set xs. \<exists>s. seg_ok s \<and> lo_Key x = p @ segmentKey s"
  shows "map (\<lambda>s. p @ segmentKey s) (segs_of p xs) = map lo_Key xs \<and> (\<forall>s \<in> set (segs_of p xs). seg_ok s)"
  using assms
proof (induction xs)
  case (Cons x xs)
  then obtain s where s: "seg_ok s" "lo_Key x = p @ segmentKey s" by auto
  have "parseSegmentName (segmentKey s) = Inr (s\<lparr>s_Size := 0\<rparr>)"
    using segment_name_key [OF s(1)] .
  moreover have "seg_ok (s\<lparr>s_Size := z\<rparr>) = seg_ok s" "segmentKey (s\<lparr>s_Size := z\<rparr>) = segmentKey s" for z
    by (simp_all add: seg_ok_def segmentKey_def)
  ultimately show ?case using Cons s by simp
qed simp

lemma delete_each_objects:
  assumes "delete_each E b xs n = (e, n')" and "service_deletes E b objs" and "\<forall>x \<in> set xs. lo_Key x \<noteq> []"
  shows "(\<forall>k. objs n' k = objs n k \<or> objs n' k = None \<and> k \<in> lo_Key ` set xs) \<and>
    (e = None \<longrightarrow> (\<forall>k \<in> lo_Key ` set xs. objs n' k = None))"
  using assms(1,3)
proof (induction xs arbitrary: n)
  case (Cons x xs)
  obtain e1 n1 where d: "s3_delete E b (lo_Key x) n = (e1, n1)" by fastforce
  note D = s3_delete_objects [OF d assms(2)]
  show ?case
  proof (cases e1)
    case None
    then have o: "objs n1 = (objs n)(lo_Key x := None)" using D Cons.prems(2) by simp
    have "delete_each E b xs n1 = (e, n')" using Cons.prems(1) d None by simp
    from Cons.IH [OF this] Cons.prems(2) show ?thesis unfolding o by (auto split: if_splits)
  next
    case (Some err)
    then have "n' = n1" "e = Some err" using Cons.prems(1) d by simp_all
    then show ?thesis using D Cons.prems(2) Some by auto
  qed
qed simp

subsection \<open>The contract holds\<close>

lemma s3_write_objects:
  assumes "s3_put E b key dat n = (e, n')" and "s3_inv E b objs mark n" and "own_key b key" and "key \<noteq> []"
  shows "s3_inv E b objs mark n' \<and> (objs n' = (objs n)(key \<mapsto> dat) \<or> e \<noteq> None \<and> objs n' = objs n)"
proof -
  have I: "service_puts E b objs" "own_keys b (objs n)" "s3_service E b objs mark"
    using assms(2) by (simp_all add: s3_inv_def s3_service_def)
  have c: "objs n' = (objs n)(key \<mapsto> dat) \<or> e \<noteq> None \<and> objs n' = objs n"
    by (rule s3_put_objects [OF assms(1) I(1) assms(4)])
  have "own_keys b (objs n')" using c own_keys_upd [OF I(2) assms(3)] I(2) by (elim disjE conjE) simp_all
  with c I(3) show ?thesis unfolding s3_inv_def by blast
qed

lemma snap_upd:
  assumes "objs n' = (objs n)(snap_key b g \<mapsto> d)" and "s3_names g"
  shows "s3_snap objs b n' = (s3_snap objs b n)(g := Some d)" and "s3_seg objs b n' = s3_seg objs b n"
  using seg_not_snap [OF assms(2)] by (auto simp: s3_snap_def s3_seg_def assms(1) snap_key_inj fun_eq_iff)

lemma seg_upd:
  assumes "objs n' = (objs n)(seg_key_of b g (segmentKey s) \<mapsto> d)" and "s3_names g" and "seg_ok s"
  shows "s3_snap objs b n' = s3_snap objs b n"
    and "s3_seg objs b n' = (s3_seg objs b n)(g := (s3_seg objs b n g)(segmentKey s := Some d))"
  using snap_not_seg seg_key_inj [OF assms(2) segmentKey_no_slash [OF assms(3)]]
  by (auto simp: s3_snap_def s3_seg_def assms(1) fun_eq_iff)

lemma same_objects:
  "objs n' = objs n \<Longrightarrow> s3_snap objs b n' = s3_snap objs b n \<and> s3_seg objs b n' = s3_seg objs b n \<and>
     s3_inv E b objs mark n' = s3_inv E b objs mark n"
  by (auto simp: s3_snap_def s3_seg_def s3_inv_def intro!: ext)

lemma s3_WriteSnapshot_objects:
  assumes "s3_WriteSnapshot E b g d n = (e, n')" and "s3_inv E b objs mark n" and "s3_names g"
  shows "s3_inv E b objs mark n' \<and> s3_seg objs b n' = s3_seg objs b n \<and>
    (s3_snap objs b n' = (s3_snap objs b n)(g := Some d) \<or> e \<noteq> None \<and> s3_snap objs b n' = s3_snap objs b n)"
proof -
  have p: "s3_put E b (snap_key b g) d n = (e, n')"
    using assms(1) by (simp add: s3_WriteSnapshot_def snap_key_def)
  from s3_write_objects [OF p assms(2)] own_snap [of b g] assms(3) keys_not_Nil(1) have
    o: "s3_inv E b objs mark n'" "objs n' = (objs n)(snap_key b g \<mapsto> d) \<or> e \<noteq> None \<and> objs n' = objs n" by blast+
  show ?thesis using o(2) snap_upd [OF _ assms(3), of objs n' n b d] same_objects [of objs n' n b] o(1) by blast
qed

lemma s3_WriteWALSegment_objects:
  assumes "s3_WriteWALSegment E b g s d n = (e, n')" and "s3_inv E b objs mark n" and "s3_names g" and "seg_ok s"
  shows "s3_inv E b objs mark n' \<and> s3_snap objs b n' = s3_snap objs b n \<and>
    (s3_seg objs b n' = (s3_seg objs b n)(g := (s3_seg objs b n g)(segmentKey s := Some d)) \<or>
     e \<noteq> None \<and> objs n' = objs n)"
proof -
  let ?k = "seg_key_of b g (segmentKey s)"
  have p: "s3_put E b ?k d n = (e, n')"
    using assms(1) by (simp add: s3_WriteWALSegment_def seg_key_of_def segmentName_key)
  have "own_key b ?k" using own_seg assms(3,4) by blast
  from s3_write_objects [OF p assms(2) this keys_not_Nil(2)] have
    o: "s3_inv E b objs mark n'" "objs n' = (objs n)(?k \<mapsto> d) \<or> e \<noteq> None \<and> objs n' = objs n" by blast+
  show ?thesis using o(2) seg_upd [OF _ assms(3,4), of objs n' n b d] same_objects [of objs n' n b] o(1) by blast
qed

lemma s3_Generations_objects:
  assumes "Generations (s3_ops E b) n = (rl, n')" and "s3_inv E b objs mark n"
  shows "objs n' = objs n \<and>
    (\<forall>l. rl = Inr l \<longrightarrow> sorted (map (\<lambda>g. - g_CreatedAt g) l) \<and>
      (\<forall>x \<in> set l. ParseGenerationID (g_ID x) = Inr (g_CreatedAt x) \<and> s3_names (g_ID x)) \<and>
      (\<forall>g t. s3_snap objs b n g \<noteq> None \<longrightarrow> ParseGenerationID g = Inr t \<longrightarrow>
         \<lparr>g_ID = g, g_CreatedAt = t\<rparr> \<in> set l))"
proof -
  have I: "s3_service E b objs mark" "own_keys b (objs n)" using assms(2) by (simp_all add: s3_inv_def)
  from listAll_objects [OF I(1), of "base_of b" "''/''" n] obtain r n1 where
    r: "listAll E b (base_of b) ''/'' n = Some (r, n1)" "objs n1 = objs n"
    "\<forall>D X. r = Inr (D, X) \<longrightarrow> set D = common_keys (objs n) (base_of b) ''/''" by metis
  note u = assms(1)[unfolded s3_ops_def s3_Generations_def Let_def base_of_def [symmetric]]
  show ?thesis
  proof (cases r)
    case (Inl err)
    then show ?thesis using u r(1,2) by auto
  next
    case (Inr DX)
    obtain D X where DX: "DX = (D, X)" by fastforce
    have l: "rl = Inr (go_sort gen_lt (gens_of (base_of b) D))" "n' = n1" using u r(1) Inr DX by simp_all
    have D: "set D = common_keys (objs n) (base_of b) ''/''" using r(3) Inr DX by simp
    have tr: "trim_suffix (trim_prefix (base_of b @ g @ ''/'') (base_of b)) ''/'' = g" for g
      using trim_suffix_append [of g "''/''"] trim_prefix_append [of "base_of b" "g @ ''/''"] by simp
    have nm: "s3_names (trim_suffix (trim_prefix d (base_of b)) ''/'')" if dD: "d \<in> set D" for d
    proof -
      obtain k where k: "objs n k \<noteq> None" "has_prefix k (base_of b)" "d = common (base_of b) ''/'' k"
        using dD unfolding D common_keys_def by blast
      from rolled_generation [OF I(2) k(1,2)] obtain g where "s3_names g" "d = base_of b @ g @ ''/''"
        using k(3) by metis
      then show ?thesis using tr by simp
    qed
    have mem: "\<lparr>g_ID = g, g_CreatedAt = t\<rparr> \<in> set (gens_of (base_of b) D)"
      if "s3_snap objs b n g \<noteq> None" "ParseGenerationID g = Inr t" for g t
    proof -
      have k: "objs n (snap_key b g) \<noteq> None" using that(1) by (simp add: s3_snap_def)
      from rolled_generation [OF I(2) this key_has_base(1)] obtain h where h: "s3_names h"
        "common (base_of b) ''/'' (snap_key b g) = base_of b @ h @ ''/''" "rolled (base_of b) ''/'' (snap_key b g)"
        "snap_key b g = snap_key b h \<or> (\<exists>s. seg_ok s \<and> snap_key b g = seg_key_of b h (segmentKey s))" by metis
      then have "h = g" using snap_not_seg snap_key_inj by metis
      then have "base_of b @ g @ ''/'' \<in> set D"
        unfolding D common_keys_def using h(2,3) k key_has_base(1) by (auto intro!: image_eqI [of _ _ "snap_key b g"])
      then show ?thesis using that(2) tr by (auto simp: gens_of_iff intro!: bexI [of _ "base_of b @ g @ ''/''"])
    qed
    show ?thesis
      using l r(2) nm mem gen_order.sorted_go_sort by (auto simp: gens_of_iff)
  qed
qed

lemma s3_WALSegments_objects:
  assumes "WALSegments (s3_ops E b) g n = (rw, n')" and "s3_inv E b objs mark n" and "s3_names g"
  shows "objs n' = objs n \<and>
    (\<forall>sl. rw = Inr sl \<longrightarrow> sorted (map seg_key sl) \<and> distinct (map segmentKey sl) \<and> (\<forall>x \<in> set sl. seg_ok x) \<and>
      (\<forall>s. seg_ok s \<longrightarrow> (segmentKey s \<in> segmentKey ` set sl) = (s3_seg objs b n g (segmentKey s) \<noteq> None)))"
proof -
  have I: "s3_service E b objs mark" "own_keys b (objs n)" using assms(2) by (simp_all add: s3_inv_def)
  let ?p = "base_of b @ g @ ''/wal/''"
  from listAll_objects [OF I(1), of ?p "[]" n] obtain r n1 where
    r: "listAll E b ?p [] n = Some (r, n1)" "objs n1 = objs n"
    "\<forall>D X. r = Inr (D, X) \<longrightarrow> lo_Key ` set X = plain_keys (objs n) ?p [] \<and> distinct (map lo_Key X)" by metis
  note u = assms(1)[unfolded s3_ops_def s3_WALSegments_def Let_def prefix_bases]
  show ?thesis
  proof (cases r)
    case (Inl err)
    then show ?thesis using u r(1,2) by auto
  next
    case (Inr DX)
    obtain D X where DX: "DX = (D, X)" by fastforce
    have l: "rw = Inr (go_sort seg_lt (segs_of ?p X))" "n' = n1" using u r(1) Inr DX by simp_all
    have keys: "lo_Key ` set X = {k. objs n k \<noteq> None \<and> (\<exists>s. seg_ok s \<and> k = seg_key_of b g (segmentKey s))}"
      and d: "distinct (map lo_Key X)"
      using r(3) Inr DX own_below_wal [OF I(2) assms(3)] by (simp_all add: plain_keys_flat)
    have "\<forall>x \<in> set X. \<exists>s. seg_ok s \<and> lo_Key x = ?p @ segmentKey s"
      using keys by (auto simp: seg_key_base set_eq_iff image_iff)
    from segs_of_names [OF this] have S: "map (\<lambda>s. ?p @ segmentKey s) (segs_of ?p X) = map lo_Key X"
      "\<forall>s \<in> set (segs_of ?p X). seg_ok s" by simp_all
    have m: "map (\<lambda>s. ?p @ segmentKey s) l = map ((@) ?p) (map segmentKey l)" for l by simp
    have "distinct (map segmentKey (segs_of ?p X))"
      using d unfolding S(1) [symmetric] m distinct_map [of "(@) ?p"] by blast
    moreover have "mset (map segmentKey (go_sort seg_lt (segs_of ?p X))) = mset (map segmentKey (segs_of ?p X))" by simp
    ultimately have ds: "distinct (map segmentKey (go_sort seg_lt (segs_of ?p X)))"
      by (metis mset_eq_imp_distinct_iff)
    have im: "((@) ?p) ` segmentKey ` set (segs_of ?p X) = lo_Key ` set X"
      using arg_cong [OF S(1), of set] by (simp add: image_image)
    have "(segmentKey s \<in> segmentKey ` set (segs_of ?p X)) = (s3_seg objs b n g (segmentKey s) \<noteq> None)" if "seg_ok s" for s
    proof -
      have "(segmentKey s \<in> segmentKey ` set (segs_of ?p X)) = (?p @ segmentKey s \<in> lo_Key ` set X)"
        unfolding im [symmetric] by (simp add: image_iff)
      also have "\<dots> = (objs n (seg_key_of b g (segmentKey s)) \<noteq> None)"
        unfolding keys using that by (auto simp: seg_key_base)
      finally show ?thesis by (simp add: s3_seg_def)
    qed
    then show ?thesis using l r(2) ds S(2) seg_order.sorted_go_sort by simp
  qed
qed

lemma s3_DeleteGeneration_objects:
  assumes "DeleteGeneration (s3_ops E b) g n = (e, n')" and "s3_inv E b objs mark n" and "s3_names g"
  shows "s3_inv E b objs mark n' \<and>
    (\<forall>h. s3_snap objs b n' h = s3_snap objs b n h \<or> h = g \<and> s3_snap objs b n' h = None) \<and>
    (\<forall>h. h \<noteq> g \<longrightarrow> s3_seg objs b n' h = s3_seg objs b n h) \<and>
    (e = None \<longrightarrow> s3_snap objs b n' g = None \<and> s3_seg objs b n' g = (\<lambda>_. None))"
proof -
  have I: "s3_service E b objs mark" "own_keys b (objs n)" "service_deletes E b objs"
    using assms(2) by (simp_all add: s3_inv_def s3_service_def)
  let ?p = "base_of b @ g @ ''/''"
  from listAll_objects [OF I(1), of ?p "[]" n] obtain r n1 where
    r: "listAll E b ?p [] n = Some (r, n1)" "objs n1 = objs n"
    "\<forall>D X. r = Inr (D, X) \<longrightarrow> lo_Key ` set X = plain_keys (objs n) ?p []" by metis
  note u = assms(1)[unfolded s3_ops_def s3_DeleteGeneration_def Let_def prefix_bases]
  show ?thesis
  proof (cases r)
    case (Inl err)
    then have "n' = n1" "e \<noteq> None" using u r(1) by auto
    then show ?thesis using same_objects [OF r(2), of b E mark] assms(2) by auto
  next
    case (Inr DX)
    obtain D X where DX: "DX = (D, X)" by fastforce
    have l: "delete_each E b X n1 = (e, n')" using u r(1) Inr DX by simp
    have keys: "lo_Key ` set X = {k. objs n k \<noteq> None \<and> (k = snap_key b g \<or> (\<exists>s. seg_ok s \<and> k = seg_key_of b g (segmentKey s)))}"
      using r(3) Inr DX own_below [OF I(2) assms(3)] by (simp add: plain_keys_flat)
    have "k \<noteq> []" if "k \<in> lo_Key ` set X" for k
      using that unfolding keys by (auto simp: snap_key_base seg_key_base)
    then have ne: "\<forall>x \<in> set X. lo_Key x \<noteq> []" by blast
    note del = delete_each_objects [OF l I(3) ne, unfolded r(2)]
    have "objs n' k = objs n k \<or> objs n' k = None" for k using del by (elim conjE allE [of _ k]) auto
    then have "own_keys b (objs n')" by (rule own_keys_sub [OF I(2)])
    then have inv: "s3_inv E b objs mark n'" using I(1) by (simp add: s3_inv_def)
    have sn: "snap_key b h \<in> lo_Key ` set X \<longrightarrow> h = g" for h
      unfolding keys using snap_not_seg snap_key_inj by auto
    have sg: "seg_key_of b h k \<in> lo_Key ` set X \<longrightarrow> h = g" for h k
    proof
      assume "seg_key_of b h k \<in> lo_Key ` set X"
      then obtain s where s: "seg_ok s" "seg_key_of b h k = seg_key_of b g (segmentKey s)"
        unfolding keys using seg_not_snap [OF assms(3)] by auto
      then show "h = g" using seg_key_inj [OF assms(3) segmentKey_no_slash [OF s(1)]] by simp
    qed
    have gone: "s3_snap objs b n' g = None \<and> s3_seg objs b n' g = (\<lambda>_. None)" if e: "e = None"
    proof -
      have z: "objs n' k = None" if "objs n k = None \<or> k \<in> lo_Key ` set X" for k
        using that del e by (metis (no_types, lifting))
      have "objs n (snap_key b g) = None \<or> snap_key b g \<in> lo_Key ` set X" unfolding keys by auto
      moreover have "objs n (seg_key_of b g k) = None \<or> seg_key_of b g k \<in> lo_Key ` set X" for k
      proof (cases "objs n (seg_key_of b g k) = None")
        case False
        then have "own_key b (seg_key_of b g k)" using I(2) key_has_base(2) by (auto simp: own_keys_def)
        then obtain s where "seg_ok s" "k = segmentKey s" by (auto simp: own_seg)
        then show ?thesis unfolding keys using False by auto
      qed simp
      ultimately show ?thesis using z by (simp add: s3_snap_def s3_seg_def fun_eq_iff)
    qed
    have "s3_snap objs b n' h = s3_snap objs b n h \<or> h = g \<and> s3_snap objs b n' h = None" for h
      using del sn unfolding s3_snap_def by blast
    moreover have "s3_seg objs b n' h = s3_seg objs b n h" if "h \<noteq> g" for h
      using del sg that unfolding s3_seg_def by (intro ext) blast
    ultimately show ?thesis using inv gone by blast
  qed
qed

text \<open>With any documented service, for any bucket contents.\<close>

interpretation s3: backup_backend "s3_ops E b" "s3_snap objs b" "s3_seg objs b" "s3_inv E b objs mark" s3_names
  for E :: "'n s3_env" and b objs mark
proof (unfold_locales, goal_cases)
  case (1 t rnd)
  show ?case by (rule s3_names_new)
next
  case (2 n g)
  then show ?case
    using own_snap [of b g] key_has_base(1) [of b g] by (auto simp: s3_inv_def own_keys_def s3_snap_def)
next
  case (3 n g d n')
  then show ?case using s3_WriteSnapshot_objects [of E b g d n None n' objs mark] by (simp add: s3_ops_def)
next
  case (4 n g d e n')
  then show ?case using s3_WriteSnapshot_objects [of E b g d n "Some e" n' objs mark] by (auto simp: s3_ops_def)
next
  case (5 n s g d n')
  then show ?case using s3_WriteWALSegment_objects [of E b g s d n None n' objs mark] by (simp add: s3_ops_def)
next
  case (6 n s g d e n')
  then show ?case
    using s3_WriteWALSegment_objects [of E b g s d n "Some e" n' objs mark] same_objects [of objs n' n b E mark]
    by (auto simp: s3_ops_def)
next
  case (7 n g r n')
  then have "s3_get E b (snap_key b g) n = (r, n')" "service_gets E b objs"
    by (simp_all add: s3_ops_def s3_ReadSnapshot_def snap_key_def s3_inv_def s3_service_def)
  from s3_get_objects [OF this keys_not_Nil(1)] show ?case
    using 7 same_objects [of objs n' n b E mark] by (auto simp: s3_snap_def)
next
  case (8 n g s r n')
  then have "s3_get E b (seg_key_of b g (segmentKey s)) n = (r, n')" "service_gets E b objs"
    by (simp_all add: s3_ops_def s3_ReadWALSegment_def seg_key_of_def segmentName_key s3_inv_def s3_service_def)
  from s3_get_objects [OF this keys_not_Nil(2)] show ?case
    using 8 same_objects [of objs n' n b E mark] by (auto simp: s3_seg_def)
next
  case (9 n rl n')
  then show ?case using s3_Generations_objects [of E b n rl n' objs mark] same_objects [of objs n' n b E mark] by blast
next
  case (10 n g rw n')
  then show ?case using s3_WALSegments_objects [of E b g n rw n' objs mark] same_objects [of objs n' n b E mark] by blast
next
  case (11 n g n')
  then show ?case using s3_DeleteGeneration_objects [of E b g n None n' objs mark] by (auto simp: fun_eq_iff) 
next
  case (12 n g e n')
  note D = s3_DeleteGeneration_objects [OF 12(2,1,3)]
  then have "s3_snap objs b n g = None \<longrightarrow> s3_snap objs b n' g = None" by (elim conjE) (metis (lifting))
  with D show ?case by blast
qed

end
