(* ===== verification/S3_Example.thy ===== *)
theory S3_Example
  imports Backup_Example S3_Contract
begin

text \<open>
  A concrete object store: a bucket that serves the requests of the backend as the S3 API
  documents, with listings encoded in the body of the response. When it is lossy it may store a
  write and lose the reply. It shows that the hypotheses on the service can be met, and carries
  the run of \<open>Backup_Example\<close> over S3.
\<close>

record sim =
  sb_objs :: "(string \<times> bytes) list"
  sb_lost :: "bool list"

definition sim_view :: "sim \<Rightarrow> string \<Rightarrow> bytes option" where
  "sim_view n = map_of (sb_objs n)"

subsection \<open>Listings on the wire\<close>

definition wire_object :: "listedObject \<Rightarrow> string" where
  "wire_object x = sigEscape (lo_Key x) @ ''='' @ fmt_d (lo_Size x)"

definition wire_items :: "string list \<Rightarrow> string" where
  "wire_items ws = join ''&'' ws"

definition items_wire :: "string \<Rightarrow> string list" where
  "items_wire s = (if s = [] then [] else split_on (CHR ''&'') s)"

definition sim_encode :: "ListBucketResult \<Rightarrow> bytes" where
  "sim_encode L = bytes_of (wire_items (map wire_object (Contents L)) @ ''?'' @
     wire_items (map sigEscape (CommonPrefixes L)))"

definition object_wire :: "string \<Rightarrow> listedObject option" where
  "object_wire s =
     (case cut (CHR ''='') s of (k, z, _) \<Rightarrow>
        (case (pct_decode k, atoi z) of
           (Some k, Inr z) \<Rightarrow> Some \<lparr> lo_Key = k, lo_Size = z \<rparr>
         | _ \<Rightarrow> None))"

definition sim_decode :: "bytes \<Rightarrow> ListBucketResult result" where
  "sim_decode body =
     (case cut (CHR ''?'') (string_of body) of (a, p, _) \<Rightarrow>
        Inr \<lparr> IsTruncated = False, NextContinuationToken = [],
              Contents = List.map_filter object_wire (items_wire a),
              CommonPrefixes = List.map_filter pct_decode (items_wire p) \<rparr>)"

lemma string_of_bytes_of: "string_of (bytes_of s) = s"
proof -
  have "char_of (unat (of_char c :: byte)) = c" for c
  proof -
    have "unat (of_nat m :: byte) = m" if "m < 256" for m using that by (simp add: unat_of_nat)
    from this [OF nat_of_char_less_256 [of c]] have "unat (of_char c :: byte) = of_char c"
      by (simp only: of_nat_of_char)
    then show ?thesis by simp
  qed
  then show ?thesis by (simp add: string_of_def bytes_of_def comp_def)
qed

lemma items_wire_items:
  "\<forall>w \<in> set ws. w \<noteq> [] \<and> CHR ''&'' \<notin> set w \<Longrightarrow> items_wire (wire_items ws) = ws"
  using split_on_join [of ws "CHR ''&''"]
  by (cases ws; cases "tl ws") (auto simp: items_wire_def wire_items_def)

lemma fmt_d_digits: "0 \<le> z \<Longrightarrow> c \<in> set (fmt_d z) \<Longrightarrow> is_unreserved c"
proof -
  assume "0 \<le> z" "c \<in> set (fmt_d z)"
  then obtain d where "d < 10" "c = hexd d" using digits_of_digit by (auto simp: fmt_d_def)
  then show ?thesis using char_code_hexd [of d] by (simp add: is_unreserved_def)
qed

lemma wire_object_chars:
  "0 \<le> lo_Size x \<Longrightarrow> c \<in> {CHR ''&'', CHR ''?''} \<Longrightarrow> c \<notin> set (wire_object x)"
  using sigEscape_special [of c "lo_Key x"] fmt_d_digits [of "lo_Size x" c] unreserved_plain [of c]
  by (auto simp: wire_object_def url_special_def)

lemma object_wire_object:
  assumes "0 \<le> lo_Size x" and "in_i64 (lo_Size x)"
  shows "object_wire (wire_object x) = Some x"
proof -
  have "CHR ''='' \<notin> set (sigEscape (lo_Key x))" by (rule sigEscape_special) (simp add: url_special_def)
  then have "cut (CHR ''='') (wire_object x) = (sigEscape (lo_Key x), fmt_d (lo_Size x), True)"
    using cut_append [of "CHR ''=''" "sigEscape (lo_Key x)" "fmt_d (lo_Size x)"] by (simp add: wire_object_def)
  then show ?thesis using atoi_fmt_d [OF assms] by (simp add: object_wire_def pct_decode_sigEscape)
qed

lemma set_join: "c \<in> set (join sep ws) \<Longrightarrow> c \<in> set sep \<or> (\<exists>w \<in> set ws. c \<in> set w)"
proof (induction ws)
  case (Cons w ws)
  then show ?case by (cases ws) auto
qed simp

text \<open>What is sent is what is read.\<close>

lemma sim_decode_encode:
  assumes "\<forall>x \<in> set xs. 0 \<le> lo_Size x \<and> in_i64 (lo_Size x)" and "\<forall>p \<in> set ps. p \<noteq> []"
  shows "sim_decode (sim_encode \<lparr> IsTruncated = False, NextContinuationToken = [], Contents = xs,
      CommonPrefixes = ps \<rparr>) =
    Inr \<lparr> IsTruncated = False, NextContinuationToken = [], Contents = xs, CommonPrefixes = ps \<rparr>"
proof -
  let ?a = "wire_items (map wire_object xs)" and ?p = "wire_items (map sigEscape ps)"
  have q: "CHR ''?'' \<notin> set ?a"
    using assms(1) wire_object_chars by (auto simp: wire_items_def dest!: set_join)
  have a: "items_wire ?a = map wire_object xs"
    using assms(1) wire_object_chars by (intro items_wire_items) (auto simp: wire_object_def)
  have ne: "sigEscape p \<noteq> []" if "p \<noteq> []" for p
    using that by (cases p) (auto simp: sig_byte_def)
  have p: "items_wire ?p = map sigEscape ps"
    using assms(2) ne sigEscape_special [of "CHR ''&''"]
    by (intro items_wire_items) (auto simp: url_special_def)
  have fa: "List.map_filter object_wire (map wire_object ys) = ys"
    if "\<forall>x \<in> set ys. 0 \<le> lo_Size x \<and> in_i64 (lo_Size x)" for ys
    using that by (induction ys) (auto simp: map_filter_simps object_wire_object)
  have fp: "List.map_filter pct_decode (map sigEscape qs) = qs" for qs
    by (induction qs) (auto simp: map_filter_simps pct_decode_sigEscape)
  show ?thesis
    using cut_append [OF q, of ?p] fa [OF assms(1)] fp [of ps]
    by (simp add: sim_decode_def sim_encode_def string_of_bytes_of a p)
qed

subsection \<open>The store\<close>

definition wire_size :: "bytes \<Rightarrow> int" where
  "wire_size z = int (length z mod 2 ^ 63)"

text \<open>Everything after the token, in one page.\<close>

definition sim_listing :: "sim \<Rightarrow> string \<Rightarrow> string \<Rightarrow> string \<Rightarrow> ListBucketResult" where
  "sim_listing n p d tok =
     (let keys = filter (\<lambda>k. has_prefix k p) (remdups (map fst (sb_objs n)));
          later = after_token (\<lambda>t. t) tok in
      \<lparr> IsTruncated = False, NextContinuationToken = [],
        Contents = map (\<lambda>k. \<lparr> lo_Key = k, lo_Size = (case sim_view n k of None \<Rightarrow> 0 | Some z \<Rightarrow> wire_size z) \<rparr>)
          (filter (\<lambda>k. \<not> rolled p d k \<and> later k) keys),
        CommonPrefixes = filter later (remdups (map (common p d) (filter (rolled p d) keys))) \<rparr>)"

definition status :: "int \<Rightarrow> bytes \<Rightarrow> http_response result" where
  "status c body = Inr \<lparr> r_status = c, r_body = Inr body \<rparr>"

definition sim_put :: "bool \<Rightarrow> string \<Rightarrow> bytes \<Rightarrow> sim \<Rightarrow> http_response result \<times> sim" where
  "sim_put lossy key dat n =
     ((if lossy \<and> sb_lost n \<noteq> [] \<and> hd (sb_lost n) then Inl (ErrEnv ''timeout'') else status 200 []),
      n\<lparr>sb_objs := filter (\<lambda>p. fst p \<noteq> key) (sb_objs n) @ [(key, dat)], sb_lost := tl (sb_lost n)\<rparr>)"

definition sim_get :: "string \<Rightarrow> sim \<Rightarrow> http_response result \<times> sim" where
  "sim_get key n = ((case sim_view n key of None \<Rightarrow> status 404 [] | Some d \<Rightarrow> status 200 d), n)"

definition sim_delete :: "string \<Rightarrow> sim \<Rightarrow> http_response result \<times> sim" where
  "sim_delete key n = (status 204 [], n\<lparr>sb_objs := filter (\<lambda>p. fst p \<noteq> key) (sb_objs n)\<rparr>)"

definition sim_list :: "string \<Rightarrow> sim \<Rightarrow> http_response result \<times> sim" where
  "sim_list q n =
     (status 200 (sim_encode (sim_listing n (field_or_empty ''prefix'' q) (field_or_empty ''delimiter'' q)
        (field_or_empty ''continuation-token'' q))), n)"

definition sim_do :: "bool \<Rightarrow> http_request \<Rightarrow> sim \<Rightarrow> http_response result \<times> sim" where
  "sim_do lossy q n =
     (case pct_decode (q_path q) of
        Some (c # key) \<Rightarrow>
          if c \<noteq> CHR ''/'' then (status 400 [], n)
          else if q_method q = ''PUT'' then sim_put lossy key (q_body q) n
          else if q_method q = ''GET'' then (if key = [] then sim_list (q_query q) n else sim_get key n)
          else sim_delete key n
      | _ \<Rightarrow> (status 400 [], n))"

definition sim_env :: "bool \<Rightarrow> sim s3_env" where
  "sim_env lossy = \<lparr> h_now = (\<lambda>_. 1000000000000000000), h_url = (\<lambda>_. None), h_do = sim_do lossy, h_xml = sim_decode \<rparr>"

lemma wire_size_range: "0 \<le> wire_size z \<and> in_i64 (wire_size z)"
proof -
  have "length z mod 2 ^ 63 < 2 ^ 63" by simp
  then show ?thesis by (simp add: wire_size_def in_i64_def i64_min_def i64_max_def)
qed

lemma sim_listing_decode: "sim_decode (sim_encode (sim_listing n p d t)) = Inr (sim_listing n p d t)"
proof -
  have "common p d k \<noteq> []" if "rolled p d k" for k
    using that by (cases d) (simp_all add: rolled_def common_def)
  then show ?thesis
    using wire_size_range unfolding sim_listing_def Let_def
    by (intro sim_decode_encode) (auto split: option.split simp: in_i64_def i64_min_def i64_max_def)
qed

lemma sim_listing_ok: "page_ok (sim_view n) (\<lambda>t. t) p d t (sim_listing n p d t)"
proof -
  have k: "fst ` set (sb_objs n) = {k. sim_view n k \<noteq> None}"
    by (auto simp: sim_view_def map_of_eq_None_iff)
  have c: "lo_Key ` set (Contents (sim_listing n p d t)) =
      {k \<in> fst ` set (sb_objs n). has_prefix k p \<and> \<not> rolled p d k \<and> after_token (\<lambda>t. t) t k}"
    by (auto simp: sim_listing_def Let_def image_image)
  have q: "set (CommonPrefixes (sim_listing n p d t)) =
      {e \<in> common p d ` {k \<in> fst ` set (sb_objs n). has_prefix k p \<and> rolled p d k}. after_token (\<lambda>t. t) t e}"
    by (auto simp: sim_listing_def Let_def)
  have f: "\<not> IsTruncated (sim_listing n p d t)" "distinct (map lo_Key (Contents (sim_listing n p d t)))"
    by (simp_all add: sim_listing_def Let_def comp_def)
  show ?thesis
    unfolding page_ok_def c q k using f
    by (auto simp: plain_keys_def common_keys_def in_page_def)
qed

text \<open>The store is a documented service, whether it loses replies or not.\<close>

lemma sim_service: "s3_service (sim_env lossy) b sim_view (\<lambda>t. t)"
proof -
  have d: "sim_do lossy q n = sim_put lossy key (q_body q) n" if "addresses b ''PUT'' q key" for q key n
    using that by (simp add: addresses_def sim_do_def)
  have g: "sim_do lossy q n = (if key = [] then sim_list (q_query q) n else sim_get key n)"
    if "addresses b ''GET'' q key" for q key n
    using that by (simp add: addresses_def sim_do_def)
  have x: "sim_do lossy q n = sim_delete key n" if "addresses b ''DELETE'' q key" for q key n
    using that by (simp add: addresses_def sim_do_def)
  have e: "h_do (sim_env lossy) = sim_do lossy" "h_xml (sim_env lossy) = sim_decode" by (simp_all add: sim_env_def)
  have "service_puts (sim_env lossy) b sim_view"
    unfolding service_puts_def e using d by (auto simp: sim_put_def sim_view_def map_of_filter_neq fun_eq_iff map_add_def split: option.splits)
  moreover have "service_gets (sim_env lossy) b sim_view"
    unfolding service_gets_def e using g by (auto simp: sim_get_def status_def split: option.splits)
  moreover have "service_deletes (sim_env lossy) b sim_view"
    unfolding service_deletes_def e using x by (auto simp: sim_delete_def sim_view_def map_of_filter_neq)
  moreover have "service_lists (sim_env lossy) b sim_view (\<lambda>t. t)"
    unfolding service_lists_def e using g sim_listing_ok
    by (auto simp: sim_list_def status_def sim_listing_decode)
  ultimately show ?thesis by (simp add: s3_service_def sim_view_def finite_dom_map_of)
qed

subsection \<open>The calls, evaluated\<close>

definition lost_reply :: "bool \<Rightarrow> sim \<Rightarrow> error option" where
  "lost_reply lossy n = (if lossy \<and> sb_lost n \<noteq> [] \<and> hd (sb_lost n) then Some (ErrEnv ''timeout'') else None)"

lemma s3_put_ex:
  "s3_put (sim_env lossy) b key d n =
     (lost_reply lossy n, n\<lparr>sb_objs := filter (\<lambda>p. fst p \<noteq> key) (sb_objs n) @ [(key, d)], sb_lost := tl (sb_lost n)\<rparr>)"
  by (simp add: s3_put_def NewRequest_def sim_env_def sim_do_def pct_decode_path sim_put_def status_def
      lost_reply_def Let_def)

lemma s3_get_ex:
  "key \<noteq> [] \<Longrightarrow> sim_view n key = Some d \<Longrightarrow> s3_get (sim_env lossy) b key n = (Inr d, n)"
  by (simp add: s3_get_def NewRequest_def sim_env_def sim_do_def pct_decode_path sim_get_def status_def)

lemma listAll_ex:
  "listAll (sim_env lossy) b p d n =
     Some (Inr (CommonPrefixes (sim_listing n p d []), Contents (sim_listing n p d [])), n)"
proof -
  have "list_page (sim_env lossy) b p d [] n = (Inr (sim_listing n p d []), n)"
    by (simp add: list_page_def NewRequest_def sim_env_def sim_do_def sim_list_def status_def list_query_get
        pct_decode_plain sim_listing_decode)
  then show ?thesis
    by (simp add: listAll_def listAll_from.simps [of "sim_env lossy"]) (simp add: sim_listing_def Let_def)
qed

definition b_ex :: s3_Backend where
  "b_ex = \<lparr> b3_host = ''b.s3.test'', b3_prefix = ''app'', b3_region = ''auto'', b3_access = ''a'', b3_secret = ''k'',
     b3_timeout = None \<rparr>"

text \<open>The snapshot \<open>z\<close> of the generation and its segments.\<close>

definition sim_with :: "bool list \<Rightarrow> bytes \<Rightarrow> (string \<times> bytes) list \<Rightarrow> sim" where
  "sim_with plan z l =
     \<lparr> sb_objs = (snap_key b_ex g_ex, z) # map (\<lambda>(k, d). (seg_key_of b_ex g_ex k, d)) l, sb_lost = plan \<rparr>"

lemma g_ex_name: "s3_names g_ex"
  unfolding g_ex_def by (rule s3_names_new)

lemma common_g_ex:
  "common (base_of b) ''/'' (snap_key b g_ex) = base_of b @ g_ex @ ''/''"
  "common (base_of b) ''/'' (seg_key_of b g_ex k) = base_of b @ g_ex @ ''/''"
  "rolled (base_of b) ''/'' (snap_key b g_ex)" "rolled (base_of b) ''/'' (seg_key_of b g_ex k)"
proof -
  have "takeWhile (\<lambda>x. x \<noteq> CHR ''/'') (g_ex @ CHR ''/'' # r) = g_ex" for r
    using g_ex_name by (subst takeWhile_append2) (auto simp: s3_names_def)
  from this [of "''snapshot.db.gz''"] this [of "''wal/'' @ k"] show
    "common (base_of b) ''/'' (snap_key b g_ex) = base_of b @ g_ex @ ''/''"
    "common (base_of b) ''/'' (seg_key_of b g_ex k) = base_of b @ g_ex @ ''/''"
    by (simp_all add: common_def snap_key_base seg_key_base)
qed (simp_all add: rolled_def snap_key_base seg_key_base)

lemma gens_ex: "gens_of (base_of b) [base_of b @ g_ex @ ''/''] = [\<lparr>g_ID = g_ex, g_CreatedAt = 1000\<rparr>]"
proof -
  have "trim_suffix (trim_prefix (base_of b @ g_ex @ ''/'') (base_of b)) ''/'' = g_ex"
    using trim_suffix_append [of g_ex "''/''"] trim_prefix_append [of "base_of b" "g_ex @ ''/''"] by simp
  then show ?thesis by (simp add: Let_def g_ex_parse)
qed

lemma s3_Generations_ex:
  assumes "\<forall>k \<in> fst ` set (sb_objs n). k = snap_key b_ex g_ex \<or> (\<exists>x. k = seg_key_of b_ex g_ex x)" and "sb_objs n \<noteq> []"
  shows "Generations (s3_ops (sim_env lossy) b_ex) n = (Inr [\<lparr>g_ID = g_ex, g_CreatedAt = 1000\<rparr>], n)"
proof -
  let ?b = "base_of b_ex" and ?keys = "remdups (map fst (sb_objs n))"
  have k: "has_prefix k ?b \<and> rolled ?b ''/'' k \<and> common ?b ''/'' k = ?b @ g_ex @ ''/''" if "k \<in> set ?keys" for k
  proof -
    have "k = snap_key b_ex g_ex \<or> (\<exists>x. k = seg_key_of b_ex g_ex x)"
      using that assms(1) unfolding set_remdups set_map by blast
    then show ?thesis by (elim disjE exE) (simp_all only: key_has_base common_g_ex)
  qed
  have f: "filter (\<lambda>k. has_prefix k ?b) ?keys = ?keys" "filter (rolled ?b ''/'') ?keys = ?keys"
    using k by (simp_all add: filter_id_conv)
  have m: "map (common ?b ''/'') ?keys = replicate (length ?keys) (?b @ g_ex @ ''/'')"
    using k by (intro replicate_eqI) auto
  have r: "remdups (replicate (Suc j) x) = [x]" for j and x :: string by (induction j) auto
  have "?keys \<noteq> []" using assms(2) by simp
  then obtain j where "length ?keys = Suc j" by (cases ?keys) auto
  then have "CommonPrefixes (sim_listing n ?b ''/'' []) = [?b @ g_ex @ ''/'']"
    unfolding sim_listing_def Let_def f m by (simp only: r ListBucketResult.simps) (simp add: after_token_def)
  then show ?thesis
    using gens_ex [of b_ex]
    by (simp add: s3_ops_def s3_Generations_def base_of_def [symmetric] listAll_ex go_sort_def Let_def)
qed

lemma seg_key_eq: "seg_key_of b g k = seg_key_of b g k' \<longleftrightarrow> k = k'"
  by (simp add: seg_key_base)

lemma sim_view_with:
  "sim_view (sim_with plan z l) (snap_key b_ex g_ex) = Some z"
  "sim_view (sim_with plan z l) (seg_key_of b_ex g_ex k) = map_of l k"
proof -
  have "map_of (map (\<lambda>(k, d). (seg_key_of b_ex g_ex k, d)) l) (seg_key_of b_ex g_ex k) = map_of l k"
    by (induction l) (auto simp: seg_key_eq)
  then show "sim_view (sim_with plan z l) (seg_key_of b_ex g_ex k) = map_of l k"
    using seg_not_snap [OF g_ex_name, of b_ex g_ex k] by (simp add: sim_view_def sim_with_def)
qed (simp add: sim_view_def sim_with_def)

text \<open>Another segment.\<close>

lemma sim_with_put:
  assumes "k \<notin> fst ` set l"
  shows "s3_put (sim_env lossy) b_ex (seg_key_of b_ex g_ex k) d (sim_with plan z l) =
    (lost_reply lossy (sim_with plan z l), sim_with (tl plan) z (l @ [(k, d)]))"
proof -
  have "filter (\<lambda>p. fst p \<noteq> seg_key_of b_ex g_ex k) (map (\<lambda>(k, d). (seg_key_of b_ex g_ex k, d)) l) =
      map (\<lambda>(k, d). (seg_key_of b_ex g_ex k, d)) l"
    using assms by (auto simp: filter_id_conv seg_key_eq image_iff)
  then show ?thesis
    using seg_not_snap [OF g_ex_name, of b_ex g_ex k] by (simp add: s3_put_ex sim_with_def)
qed

lemma s3_WALSegments_ex:
  assumes "\<forall>x \<in> set l. seg_ok (fst x)" and "distinct (map (segmentKey \<circ> fst) l)"
  shows "WALSegments (s3_ops (sim_env lossy) b_ex) g_ex (sim_with plan z (map (apfst segmentKey) l)) =
    (Inr (go_sort seg_lt (map (\<lambda>(sg, d). sg\<lparr>s_Size := wire_size d\<rparr>) l)), sim_with plan z (map (apfst segmentKey) l))"
proof -
  let ?n = "sim_with plan z (map (apfst segmentKey) l)" and ?p = "base_of b_ex @ g_ex @ ''/wal/''"
  have np: "\<not> has_prefix (snap_key b_ex g_ex) ?p" "has_prefix (seg_key_of b_ex g_ex k) ?p" for k
    using prefix_wal_snap [OF g_ex_name g_ex_name] prefix_seg(2) [OF g_ex_name g_ex_name] by simp_all
  let ?keys = "map (\<lambda>x. seg_key_of b_ex g_ex (segmentKey (fst x))) l"
  have dk: "distinct ?keys"
    using assms(2) by (simp add: distinct_map inj_on_def seg_key_eq)
  have ks: "map fst (sb_objs ?n) = snap_key b_ex g_ex # ?keys"
    by (simp add: sim_with_def comp_def case_prod_beta)
  have sn: "snap_key b_ex g_ex \<notin> set ?keys" using snap_not_seg by auto
  have "filter (\<lambda>k. has_prefix k ?p) (remdups (map fst (sb_objs ?n))) = ?keys"
    unfolding ks using np sn dk by (simp add: filter_id_conv distinct_remdups_id)
  then have c: "Contents (sim_listing ?n ?p [] []) = map (\<lambda>k. \<lparr> lo_Key = k, lo_Size = (case sim_view ?n k of None \<Rightarrow> 0 | Some z \<Rightarrow> wire_size z) \<rparr>) ?keys"
    by (simp add: sim_listing_def rolled_def after_token_def Let_def)
  have v: "sim_view ?n (seg_key_of b_ex g_ex (segmentKey (fst x))) = Some (snd x)" if "x \<in> set l" for x
    unfolding sim_view_with using that assms(2) by (intro map_of_is_SomeI) (auto simp: comp_def intro!: image_eqI [of _ _ x] simp: apfst_def map_prod_def split_beta)
  have t: "trim_prefix (seg_key_of b_ex g_ex k) ?p = k" for k
    using trim_prefix_append [of ?p k] by (simp add: seg_key_base)
  have "segs_of ?p (map (\<lambda>x. \<lparr> lo_Key = seg_key_of b_ex g_ex (segmentKey (fst x)), lo_Size = wire_size (snd x) \<rparr>) ys) =
      map (\<lambda>(sg, d). sg\<lparr>s_Size := wire_size d\<rparr>) ys" if "\<forall>x \<in> set ys. seg_ok (fst x)" for ys
    using that by (induction ys) (auto simp: t segment_name_key Let_def)
  then have "segs_of ?p (Contents (sim_listing ?n ?p [] [])) = map (\<lambda>(sg, d). sg\<lparr>s_Size := wire_size d\<rparr>) l"
    using assms(1) v unfolding c by (simp add: comp_def cong: map_cong)
  then show ?thesis by (simp add: s3_ops_def s3_WALSegments_def prefix_bases listAll_ex Let_def)
qed

lemma sim_reads:
  "ReadSnapshot (s3_ops (sim_env lossy) b_ex) g_ex (sim_with plan z l) = (Inr z, sim_with plan z l)"
  "seg_ok sg \<Longrightarrow> map_of l (segmentKey sg) = Some d \<Longrightarrow>
    ReadWALSegment (s3_ops (sim_env lossy) b_ex) g_ex sg (sim_with plan z l) = (Inr d, sim_with plan z l)"
  using s3_get_ex [OF keys_not_Nil(1) sim_view_with(1)] s3_get_ex [OF keys_not_Nil(2), of "sim_with plan z l" b_ex g_ex "segmentKey sg"]
  by (simp_all add: s3_ops_def s3_ReadSnapshot_def s3_ReadWALSegment_def snap_key_def seg_key_of_def segmentName_key
      sim_view_with(2) [unfolded seg_key_of_def])

lemma sim_WriteSnapshot:
  "WriteSnapshot (s3_ops (sim_env lossy) b_ex) g_ex z \<lparr> sb_objs = [], sb_lost = plan \<rparr> =
     (lost_reply lossy \<lparr> sb_objs = [], sb_lost = plan \<rparr>, sim_with (tl plan) z [])"
  by (simp add: s3_ops_def s3_WriteSnapshot_def s3_put_ex sim_with_def snap_key_def)

lemma sim_WriteWALSegment:
  assumes "segmentKey sg \<notin> fst ` set l"
  shows "WriteWALSegment (s3_ops (sim_env lossy) b_ex) g_ex sg d (sim_with plan z l) =
    (lost_reply lossy (sim_with plan z l), sim_with (tl plan) z (l @ [(segmentKey sg, d)]))"
  using sim_with_put [OF assms] by (simp add: s3_ops_def s3_WriteWALSegment_def seg_key_of_def segmentName_key)

lemma sim_Generations:
  "Generations (s3_ops (sim_env lossy) b_ex) (sim_with plan z l) = (Inr [\<lparr>g_ID = g_ex, g_CreatedAt = 1000\<rparr>], sim_with plan z l)"
  by (rule s3_Generations_ex) (auto simp: sim_with_def)

text \<open>The bucket is empty, whatever replies will be lost.\<close>

abbreviation bucket_ex :: "bool list \<Rightarrow> sim" where
  "bucket_ex plan \<equiv> \<lparr> sb_objs = [], sb_lost = plan \<rparr>"

lemma bucket_inv: "s3_inv (sim_env lossy) b sim_view (\<lambda>t. t) (bucket_ex plan)"
  using sim_service by (simp add: s3_inv_def own_keys_def sim_view_def)

lemma bucket_empty: "s3_snap sim_view b (bucket_ex plan) g = None" "s3_seg sim_view b (bucket_ex plan) g k = None"
  by (simp_all add: s3_snap_def s3_seg_def sim_view_def)

interpretation run_s3: run_backend "s3_ops (sim_env False) b_ex" "s3_snap sim_view b_ex" "s3_seg sim_view b_ex"
  "s3_inv (sim_env False) b_ex sim_view (\<lambda>t. t)" "bucket_ex []" "\<lambda>z. sim_with [] z []" wire_size
  "\<lambda>z k d. sim_with [] z [(k, d)]"
proof (unfold_locales, goal_cases)
  case 1
  show ?case by (rule bucket_inv)
next
  case (4 z)
  show ?case using sim_WriteSnapshot [of False z "[]"] by (simp add: lost_reply_def)
next
  case (5 sg d z)
  show ?case using sim_WriteWALSegment [of sg "[]" False d "[]" z] by (simp add: lost_reply_def)
next
  case (6 sg z d)
  show ?case by (rule sim_Generations)
next
  case (7 z k d)
  show ?case by (rule sim_reads)
next
  case (8 sg z d)
  with s3_WALSegments_ex [of "[(sg, d)]" False "[]" z] show ?case by (simp add: go_sort_def)
next
  case (9 sg z d)
  then show ?case by (intro sim_reads) simp_all
qed (simp_all add: bucket_empty)

text \<open>The lossy store, with a reply to lose.\<close>

interpretation lossy_s3: run_start "s3_ops (sim_env True) b_ex" "s3_snap sim_view b_ex" "s3_seg sim_view b_ex"
  "s3_inv (sim_env True) b_ex sim_view (\<lambda>t. t)" "bucket_ex [False, True]" "\<lambda>z. sim_with [True] z []"
proof (unfold_locales, goal_cases)
  case 1
  show ?case by (rule bucket_inv)
next
  case (4 z)
  show ?case using sim_WriteSnapshot [of True z "[False, True]"] by (simp add: lost_reply_def)
qed (simp_all add: bucket_empty)

end
