(* ===== verification/S3_Recovery.thy ===== *)
theory S3_Recovery
  imports S3_Example
begin

text \<open>
  The properties of the S3 backend: a listing ends and is complete, the engine and the restore
  over a bucket keep the promise of the local backend in executions in which no reply to a stored
  segment is lost, and do not when one is.
\<close>

text \<open>C17. A listing ends, whatever the service's pages are, and leaves the objects alone; when it
  succeeds it has each key below the prefix once, rolled up at the delimiter.\<close>

theorem listAll_complete:
  assumes "s3_service E b objs mark"
  shows "\<exists>r n'. listAll E b p d n = Some (r, n') \<and> objs n' = objs n \<and>
    (\<forall>D X. r = Inr (D, X) \<longrightarrow> set D = common_keys (objs n) p d \<and>
       lo_Key ` set X = plain_keys (objs n) p d \<and> distinct (map lo_Key X))"
  by (rule listAll_objects [OF assms, of p d n]) (intro exI conjI)

theorem listAll_complete_witness:
  "\<exists>D X n'. listAll (sim_env False) b_ex ''a'' [] \<lparr> sb_objs = [(''ab'', [1]), (''c'', [])], sb_lost = [] \<rparr> =
     Some (Inr (D, X), n') \<and> lo_Key ` set X = {''ab''}"
proof -
  let ?n = "\<lparr> sb_objs = [(''ab'', [1]), (''c'', [])], sb_lost = [] \<rparr>"
  have "plain_keys (sim_view ?n) ''a'' [] = {''ab''}"
    by (auto simp: plain_keys_def rolled_def sim_view_def has_prefix_def split: if_splits)
  then show ?thesis
    using listAll_complete [OF sim_service [of False], of b_ex "''a''" "[]" ?n] by (auto simp: listAll_ex)
qed

text \<open>C3. Backup then restore, over a bucket of any documented service: in an execution that satisfies
  the conditions of C1 and in which no sync reported the write of a segment failed that the bucket
  has nevertheless stored (the reply was lost), once a sync reports no error, a restore that reports
  success leaves exactly the committed contents the database had when the sync scanned it.\<close>

theorem s3_backup_restores:
  assumes "run_with fw cd (s3_ops N b) (s3_snap objs b) (s3_seg objs b) (s3_inv N b objs mark)
      (\<lambda>E m w. \<not> lost_write cd (s3_ops N b) (s3_seg objs b) E m w) (\<lambda>_. True) (t, m, w)"
    and "wal_apply_ok fw" and "codec_ok cd" and "sqlite_ok fw q"
    and "sync_env fw E t m (w_files w)"
    and "sync cd (s3_ops N b) E m w = (None, m', w')"
    and "Restore cd (s3_ops N b) q dir [] s (w_backend w') = (None, s', st)" and "fs_wf s"
  shows "node_at s' (dir @ [''default.db'']) = Some (File (db_image fw (w_files w)))"
  by (rule s3.run_then_restore [OF assms(1-3) _ assms(4-8)]) simp

theorem s3_backup_restores_witness:
  "\<exists>s' n. Restore codec_ex (s3_ops (sim_env False) b_ex) sq_ex [''d''] [] l_ex n = (None, s', n) \<and>
     node_at s' [''d'', ''default.db''] = Some (File (drop 32 wal_ex))"
proof -
  obtain b' where s: "sync codec_ex (s3_ops (sim_env False) b_ex) (env_ex 2000) mgr1_ex
      (cycle_ex wal_ex (sim_with [] [1] [])) = (None, b', cycle_ex wal_ex (run_s3.with_segment wal_ex))"
    using run_s3.sync_ex by blast
  obtain s' where r: "Restore codec_ex (s3_ops (sim_env False) b_ex) sq_ex [''d''] [] l_ex (run_s3.with_segment wal_ex) =
      (None, s', run_s3.with_segment wal_ex)"
    using run_s3.Restore_ex [of "[''d'', ''default.db'']" "[]" wal_ex] wal_ex_not_Nil
    by (auto simp: opt_ts_def opt_db_def)
  have "db_image fw_ex (w_files (cycle_ex wal_ex (sim_with [] [1] []))) = drop 32 wal_ex"
    by (simp add: db_image_def cycle_files fw_ex_def wal_ex_committed wal_ex_length)
  then show ?thesis
    using s3_backup_restores [OF run_s3.run_cycle [OF TrueI] wal_apply_ok_ex codec_ok_ex sqlite_ok_ex
        sync_env_ex s, of "[''d'']" l_ex s' "run_s3.with_segment wal_ex"] r l_inv_wf [OF l_inv_ex] by auto
qed

subsection \<open>A lost reply\<close>

text \<open>The two segments of the run: the header of the WAL, whose write is stored but not
  acknowledged, and the same range with the commit that came since.\<close>

abbreviation "early_ex \<equiv> seg0_ex 32 2000"
abbreviation "again_ex \<equiv> seg0_ex 568 3000"

abbreviation lost_ex :: "bool list \<Rightarrow> (WALSegmentInfo \<times> bytes) list \<Rightarrow> sim" where
  "lost_ex plan l \<equiv> sim_with plan [1] (map (apfst segmentKey) l)"

lemma seg_keys_differ: "segmentKey again_ex \<noteq> segmentKey early_ex"
proof
  assume "segmentKey again_ex = segmentKey early_ex"
  then have "s_CreatedAt again_ex = s_CreatedAt early_ex"
    using parse_segmentKey [of again_ex] parse_segmentKey [of early_ex]
    by (simp add: seg0_ok in_i64_def i64_min_def i64_max_def)
      (simp add: seg0_ex_def)
  then show False by (simp add: seg0_ex_def)
qed

lemma two_copies:
  "segmentKey x \<noteq> segmentKey y \<Longrightarrow> distinct (map (segmentKey \<circ> fst) [(x, c), (y, d)])"
  by simp

lemma lost_restore:
  assumes n: "n = lost_ex [] [(early_ex, wal_hdr_ex), (again_ex, wal_ex)]"
  shows "\<exists>s'. Restore codec_ex (s3_ops (sim_env True) b_ex) sq_ex [''d''] [] l_ex n = (None, s', n) \<and>
    node_at s' [''d'', ''default.db''] = Some (File [1])"
proof -
  let ?bk = "s3_ops (sim_env True) b_ex"
  have l: "length wal_hdr_ex = 32" by (simp add: wal_hdr_ex_def)
  have ok: "seg_ok early_ex" "seg_ok again_ex" by (simp_all add: seg0_ok in_i64_def i64_min_def i64_max_def)
  have z: "wire_size wal_hdr_ex = 32" "wire_size wal_ex = 568" by (simp_all add: wire_size_def l wal_ex_length)
  have ls: "WALSegments ?bk g_ex n = (Inr [early_ex, again_ex], n)"
    using s3_WALSegments_ex [of "[(early_ex, wal_hdr_ex), (again_ex, wal_ex)]" True "[]" "[1]"] ok seg_keys_differ
    by (simp add: n) (simp add: z seg0_ex_def go_sort_def seg_lt_def)
  have gr: "group_segs (opt_ts []) (go_sort seg_lt [early_ex, again_ex]) (\<lambda>_. None, []) =
      ([0 \<mapsto> [early_ex, again_ex]], [0])"
    by (simp add: go_sort_def seg_lt_def seg0_ex_def seg_at_def opt_ts_def fun_upd_def cong: if_cong)
  have rd: "ReadWALSegment ?bk g_ex early_ex n = (Inr wal_hdr_ex, n)"
    unfolding n by (rule sim_reads(2) [OF ok(1)]) simp
  have c: "copy_segments codec_ex ?bk g_ex p [early_ex, again_ex] 0 s n =
      (Inr (length wal_hdr_ex), put_node p (File wal_hdr_ex) s, n)"
    if "faults s = []" "node_at s p = Some (File [])" for s p
    using that rd by (simp add: seg0_ex_def codec_ex_def io_Copy_def next_fault_None l)
  have "fw_ex [1] wal_hdr_ex = [1]" by (simp add: fw_ex_def committed_hdr_ex)
  moreover have "\<exists>s'. Restore codec_ex ?bk sq_ex [''d''] [] l_ex n = (None, s', n) \<and>
      node_at s' [''d'', ''default.db''] = Some (File (fw_ex [1] wal_hdr_ex))"
    by (rule Restore_run [OF _ _ _ _ find_g_ex _ ls gr _ c])
      (simp_all add: n sim_Generations sim_reads seg0_ex_def opt_db_def opt_ts_def wal_hdr_ex_def)
  ultimately show ?thesis by simp
qed

text \<open>The first sync stores the header and reports a failure; a transaction commits; the second
  ships the same range again under its own name.\<close>

abbreviation "lost1_ex \<equiv> cycle_ex wal_hdr_ex (lost_ex [] [(early_ex, wal_hdr_ex)])"
abbreviation "lost2_ex \<equiv> lost_ex [] [(early_ex, wal_hdr_ex), (again_ex, wal_ex)]"

lemma lost_first_sync:
  "sync codec_ex (s3_ops (sim_env True) b_ex) (env_ex 2000) mgr1_ex (cycle_ex wal_hdr_ex (lost_ex [True] [])) =
    (Some (Wrapped ''write segment'' (ErrEnv ''timeout'')), track_salts wal_h_ex mgr1_ex, lost1_ex)"
proof -
  let ?w = "cycle_ex wal_hdr_ex (lost_ex [True] [])"
  have l: "length wal_hdr_ex = 32" "wal_hdr_ex \<noteq> []" by (simp_all add: wal_hdr_ex_def)
  have W: "f_wal (w_files (cycle_ex wal_hdr_ex n)) = Some wal_hdr_ex" for n :: sim
    by (simp add: cycle_ex_def world_ex_def new_cycle_def open_file_def committed_hdr_ex)
  have H: "walCommittedSize (Inr wal_hdr_ex) = Inr (wal_h_ex, length wal_hdr_ex)" by (simp add: committed_hdr_ex l)
  have "WriteWALSegment (s3_ops (sim_env True) b_ex) g_ex (seg0_ex (length wal_hdr_ex) 2000) wal_hdr_ex
      (w_backend ?w) = (Some (ErrEnv ''timeout''), lost_ex [] [(early_ex, wal_hdr_ex)])"
    using sim_WriteWALSegment [of early_ex "[]" True wal_hdr_ex "[True]" "[1]"]
    by (simp add: lost_reply_def l sim_with_def)
  from sync_first [OF mgr1_ex_simps W H l(2) this] show ?thesis by (auto simp: cycle_update)
qed

lemma lost_second_sync:
  "\<exists>m2. sync codec_ex (s3_ops (sim_env True) b_ex) (env_ex 3000) (track_salts wal_h_ex mgr1_ex)
     (lost1_ex\<lparr>w_files := w_files (cycle_ex wal_ex (lost_ex [] []))\<rparr>) = (None, m2, cycle_ex wal_ex lost2_ex)"
proof -
  let ?bk = "s3_ops (sim_env True) b_ex" and ?m1 = "track_salts wal_h_ex mgr1_ex"
  have m1: "b_generation ?m1 = g_ex" "b_walIndex ?m1 = 0" "b_walOffset ?m1 = 0" "b_cfg ?m1 = cfg_ex"
    by (simp_all add: track_salts_def mgr1_ex_simps)
  have u: "lost1_ex\<lparr>w_files := w_files (cycle_ex wal_ex (lost_ex [] []))\<rparr> =
      cycle_ex wal_ex (lost_ex [] [(early_ex, wal_hdr_ex)])"
    by (simp add: cycle_ex_def world_ex_def)
  have "WriteWALSegment ?bk g_ex (seg0_ex (length wal_ex) 3000) wal_ex (lost_ex [] [(early_ex, wal_hdr_ex)]) =
      (None, lost2_ex)"
    using sim_WriteWALSegment [of again_ex "map (apfst segmentKey) [(early_ex, wal_hdr_ex)]" True wal_ex "[]" "[1]"]
      seg_keys_differ
    by (simp add: lost_reply_def wal_ex_length sim_with_def)
  then show ?thesis
    using sync_first [OF m1 cycle_files(1) [of "lost_ex [] [(early_ex, wal_hdr_ex)]"] _ wal_ex_not_Nil,
        where bk = ?bk and t = 3000] unfolding u
    by (auto simp: wal_ex_committed wal_ex_length cycle_update)
qed

lemma lost_commit:
  "other_step fw_ex (w_files lost1_ex) (w_files (cycle_ex wal_ex (lost_ex [] [])))"
proof (rule other_step.grow)
  show "wal_grows (w_files lost1_ex) (w_files (cycle_ex wal_ex (lost_ex [] [])))"
    unfolding wal_grows_def
    using committed_hdr_ex wal_ex_committed
    by (intro disjI2 exI [of _ wal_hdr_ex] exI [of _ wal_h_ex] exI [of _ 32] exI [of _ wal_ex] exI [of _ 568])
      (simp add: cycle_ex_def world_ex_def new_cycle_def open_file_def wal_ex_def wal_hdr_ex_def)
qed

text \<open>C19. Without that condition the promise fails: in a reachable state, over a documented service,
  a segment is stored but its reply is lost and the sync fails; a transaction commits, the next
  sync ships the same range again under another name and reports success; a successful restore
  finds two segments at one offset, stops at the second and gives a database without the commit.\<close>

theorem lost_reply_loses_commit:
  "\<exists>m w e m1 w1 f m2 w2 s'.
     reachable fw_ex codec_ex (s3_ops (sim_env True) b_ex) (s3_snap sim_view b_ex) (s3_seg sim_view b_ex)
       (s3_inv (sim_env True) b_ex sim_view (\<lambda>t. t)) (1000, m, w) \<and>
     sync codec_ex (s3_ops (sim_env True) b_ex) (env_ex 2000) m w = (Some e, m1, w1) \<and>
     other_step fw_ex (w_files w1) f \<and>
     sync codec_ex (s3_ops (sim_env True) b_ex) (env_ex 3000) m1 (w1\<lparr>w_files := f\<rparr>) = (None, m2, w2) \<and>
     Restore codec_ex (s3_ops (sim_env True) b_ex) sq_ex [''d''] [] l_ex (w_backend w2) = (None, s', w_backend w2) \<and>
     node_at s' [''d'', ''default.db''] = Some (File [1]) \<and> db_image fw_ex (w_files w2) \<noteq> [1]"
proof -
  obtain s' where r: "Restore codec_ex (s3_ops (sim_env True) b_ex) sq_ex [''d''] [] l_ex lost2_ex = (None, s', lost2_ex)"
    "node_at s' [''d'', ''default.db''] = Some (File [1])"
    using lost_restore [OF refl] by blast
  have "length (db_image fw_ex (w_files (cycle_ex wal_ex lost2_ex))) = 536"
    by (simp add: db_image_def cycle_files fw_ex_def wal_ex_committed wal_ex_length)
  then have "db_image fw_ex (w_files (cycle_ex wal_ex lost2_ex)) \<noteq> [1]" by auto
  moreover have "reachable fw_ex codec_ex (s3_ops (sim_env True) b_ex) (s3_snap sim_view b_ex) (s3_seg sim_view b_ex)
      (s3_inv (sim_env True) b_ex sim_view (\<lambda>t. t)) (1000, mgr1_ex, cycle_ex wal_hdr_ex (lost_ex [True] []))"
    using lossy_s3.reachable_cycle by simp
  moreover obtain m2 where "sync codec_ex (s3_ops (sim_env True) b_ex) (env_ex 3000) (track_salts wal_h_ex mgr1_ex)
      (lost1_ex\<lparr>w_files := w_files (cycle_ex wal_ex (lost_ex [] []))\<rparr>) = (None, m2, cycle_ex wal_ex lost2_ex)"
    using lost_second_sync by blast
  ultimately show ?thesis using lost_first_sync lost_commit r by (auto 0 0 intro!: exI)
qed

end
