(* ===== verification/S3_Success.thy ===== *)
theory S3_Success
  imports Restore_Success S3_Recovery
begin

text \<open>
  When a restore from a bucket succeeds: a documented service that is up, which means that it
  answers the reads of the backend and stays up, and a bucket in which what is left of a
  generation without its snapshot is older than every generation with one. The S3 backend then is
  a \<open>serving_backend\<close>.
\<close>

definition service_up ::
  "'n s3_env \<Rightarrow> s3_Backend \<Rightarrow> ('n \<Rightarrow> string \<Rightarrow> bytes option) \<Rightarrow> ('n \<Rightarrow> bool) \<Rightarrow> bool" where
  "service_up E b objs up \<longleftrightarrow>
     (\<forall>key. h_url E (''https://'' @ b3_host b @ ''/'' @ escapeKey key) = None) \<and>
     (\<forall>p d t. h_url E (''https://'' @ b3_host b @ ''/'' @ ''?'' @ canonicalQuery (list_query p d t)) = None) \<and>
     (\<forall>q key n z. addresses b ''GET'' q key \<longrightarrow> key \<noteq> [] \<longrightarrow> up n \<longrightarrow> objs n key = Some z \<longrightarrow>
        (\<exists>resp n'. h_do E q n = (Inr resp, n') \<and> r_status resp = 200 \<and> r_body resp = Inr z \<and> up n')) \<and>
     (\<forall>q n. addresses b ''GET'' q [] \<longrightarrow> query_get ''list-type'' (q_query q) = Some ''2'' \<longrightarrow> up n \<longrightarrow>
        (\<exists>resp body L n'. h_do E q n = (Inr resp, n') \<and> r_status resp = 200 \<and> r_body resp = Inr body \<and>
           h_xml E body = Inr L \<and> up n'))"

lemma service_up_gets:
  "service_up E b objs up \<Longrightarrow> addresses b ''GET'' q key \<Longrightarrow> key \<noteq> [] \<Longrightarrow> up n \<Longrightarrow> objs n key = Some z \<Longrightarrow>
   \<exists>resp n'. h_do E q n = (Inr resp, n') \<and> r_status resp = 200 \<and> r_body resp = Inr z \<and> up n'"
  by (simp add: service_up_def)

lemma service_up_lists:
  "service_up E b objs up \<Longrightarrow> addresses b ''GET'' q [] \<Longrightarrow> query_get ''list-type'' (q_query q) = Some ''2'' \<Longrightarrow>
   up n \<Longrightarrow> \<exists>resp body L n'. h_do E q n = (Inr resp, n') \<and> r_status resp = 200 \<and> r_body resp = Inr body \<and>
     h_xml E body = Inr L \<and> up n'"
  by (simp add: service_up_def)

lemma s3_get_up:
  assumes "service_up E b objs up" and "up n" and "key \<noteq> []" and "objs n key = Some z"
  shows "\<exists>n'. s3_get E b key n = (Inr z, n') \<and> up n'"
proof -
  obtain req where req: "NewRequest E ''GET'' (b3_host b) (''/'' @ escapeKey key) [] [] = Inr req"
    using assms(1) by (simp add: NewRequest_def service_up_def)
  define q where "q = sign b (h_now E n) emptyPayloadHash req"
  have "addresses b ''GET'' q key"
    using req pct_decode_path by (auto simp: addresses_def q_def NewRequest_def split: option.splits)
  then obtain resp n' where "h_do E q n = (Inr resp, n')" "r_status resp = 200" "r_body resp = Inr z" "up n'"
    using service_up_gets [OF assms(1) _ assms(3,2,4)] by blast
  then show ?thesis using req by (simp add: s3_get_def q_def)
qed

lemma list_page_up:
  assumes "service_up E b objs up" and "up n"
  shows "\<exists>L n'. list_page E b p d t n = (Inr L, n') \<and> up n'"
proof -
  let ?c = "canonicalQuery (list_query p d t)"
  have "query_get ''list-type'' ?c = Some ''2''" by (rule list_query_get)
  moreover have "query_get ''list-type'' [] \<noteq> Some ''2''" by code_simp
  ultimately have ne: "?c \<noteq> []" by metis
  obtain req where req: "NewRequest E ''GET'' (b3_host b) ''/'' ?c [] = Inr req"
    using assms(1) ne by (simp add: NewRequest_def service_up_def)
  define q where "q = sign b (h_now E n) emptyPayloadHash req"
  have a: "addresses b ''GET'' q []" "q_query q = ?c"
    using req by (auto simp: addresses_def q_def NewRequest_def pct_decode_plain split: option.splits)
  have "query_get ''list-type'' (q_query q) = Some ''2''" unfolding a(2) by (rule list_query_get)
  from service_up_lists [OF assms(1) a(1) this assms(2)] obtain resp body L n' where "h_do E q n = (Inr resp, n')" "r_status resp = 200" "r_body resp = Inr body"
    "h_xml E body = Inr L" "up n'" by blast
  then show ?thesis using req by (simp add: list_page_def q_def)
qed

lemma listAll_from_up:
  assumes "service_up E b objs up" and "service_lists E b objs mark" and "finite (dom (objs n))" and "up n"
  shows "\<exists>D X n'. listAll_from E b p d t ds xs n = Some (Inr (D, X), n') \<and> up n'"
  using assms(3,4)
proof (induction "card (rest_after (objs n) mark p d t)" arbitrary: t ds xs n rule: less_induct)
  case less
  obtain L n1 where l: "list_page E b p d t n = (Inr L, n1)" and u1: "up n1"
    using list_page_up [OF assms(1) less.prems(2)] by blast
  have ok: "page_ok (objs n) mark p d t L" and o: "objs n1 = objs n"
    using list_page_objects [OF l assms(2)] by simp_all
  show ?case
  proof (cases "IsTruncated L")
    case False
    then show ?thesis using l u1 by (simp add: listAll_from.simps [of E b p d t ds xs n])
  next
    case True
    let ?t = "NextContinuationToken L"
    have "?t \<noteq> []" using ok True by (simp add: page_ok_def)
    then have u: "listAll_from E b p d t ds xs n =
        listAll_from E b p d ?t (ds @ CommonPrefixes L) (xs @ Contents L) n1"
      using l True by (simp add: listAll_from.simps [of E b p d t ds xs n])
    have "card (rest_after (objs n1) mark p d ?t) < card (rest_after (objs n) mark p d t)"
      unfolding o by (rule rest_after_smaller [OF ok True less.prems(1)])
    from less.hyps [OF this _ u1] show ?thesis using less.prems(1) unfolding o u by blast
  qed
qed

lemma listAll_up:
  assumes "s3_service E b objs mark" and "service_up E b objs up" and "up n"
  obtains D X n' where "listAll E b p d n = Some (Inr (D, X), n')" "up n'" "objs n' = objs n"
    "set D = common_keys (objs n) p d"
proof -
  have "service_lists E b objs mark" "finite (dom (objs n))" using assms(1) by (simp_all add: s3_service_def)
  from listAll_from_up [OF assms(2) this assms(3), of p d "[]" "[]" "[]"] obtain D X n' where
    l: "listAll E b p d n = Some (Inr (D, X), n')" "up n'" by (auto simp: listAll_def)
  from listAll_objects [OF assms(1), of p d n] l show thesis by (auto intro: that)
qed

text \<open>The states in which the backend serves.\<close>

definition s3_serves ::
  "'n s3_env \<Rightarrow> s3_Backend \<Rightarrow> ('n \<Rightarrow> string \<Rightarrow> bytes option) \<Rightarrow> ('n \<Rightarrow> bool) \<Rightarrow> 'n \<Rightarrow> bool" where
  "s3_serves E b objs up n \<longleftrightarrow> service_up E b objs up \<and> up n \<and>
     (\<forall>g k t. s3_seg objs b n g k \<noteq> None \<longrightarrow> ParseGenerationID g = Inr t \<longrightarrow>
        s3_snap objs b n g \<noteq> None \<or> stale (s3_snap objs b n) t)"

lemma s3_serves_same: "s3_serves E b objs up n \<Longrightarrow> objs n' = objs n \<Longrightarrow> up n' \<Longrightarrow> s3_serves E b objs up n'"
  using same_objects [of objs n' n b] by (simp add: s3_serves_def)

lemma s3_serves_gens:
  assumes "s3_serves E b objs up n" and "own_keys b (objs n)" and "set D = common_keys (objs n) (base_of b) ''/''"
    and "x \<in> set (gens_of (base_of b) D)"
  shows "s3_snap objs b n (g_ID x) \<noteq> None \<or> stale (s3_snap objs b n) (g_CreatedAt x)"
proof -
  obtain d where d: "d \<in> set D" "g_ID x = trim_suffix (trim_prefix d (base_of b)) ''/''"
    and pt: "ParseGenerationID (g_ID x) = Inr (g_CreatedAt x)"
    using iffD1 [OF gens_of_iff assms(4)] by blast
  from d(1) obtain k where k: "objs n k \<noteq> None" "has_prefix k (base_of b)" "d = common (base_of b) ''/'' k"
    unfolding assms(3) common_keys_def by blast
  from rolled_generation [OF assms(2) k(1,2)] obtain g where
    g: "common (base_of b) ''/'' k = base_of b @ g @ ''/''"
      "k = snap_key b g \<or> (\<exists>s. seg_ok s \<and> k = seg_key_of b g (segmentKey s))" by metis
  have "trim_suffix (trim_prefix (base_of b @ g @ ''/'') (base_of b)) ''/'' = g"
    using trim_suffix_append [of g "''/''"] trim_prefix_append [of "base_of b" "g @ ''/''"] by simp
  then have gx: "g_ID x = g" using d(2) k(3) g(1) by simp
  from g(2) show ?thesis
  proof (elim disjE exE conjE)
    assume "k = snap_key b g"
    then show ?thesis using k(1) gx by (simp add: s3_snap_def)
  next
    fix s assume "k = seg_key_of b g (segmentKey s)"
    then have "s3_seg objs b n g (segmentKey s) \<noteq> None" using k(1) by (simp add: s3_seg_def)
    then show ?thesis using assms(1) pt gx unfolding s3_serves_def by blast
  qed
qed

text \<open>Whatever predicate \<open>up\<close> the service keeps.\<close>

interpretation s3_serving: serving_backend "s3_ops E b" "s3_snap objs b" "s3_seg objs b" "s3_inv E b objs mark"
    s3_names "s3_serves E b objs up"
  for E :: "'n s3_env" and b objs mark up
proof (unfold_locales, goal_cases)
  case (1 n g z)
  have u: "service_up E b objs up" "up n" using 1(2) by (simp_all add: s3_serves_def)
  have "objs n (snap_key b g) = Some z" using 1(3) by (simp add: s3_snap_def)
  from s3_get_up [where objs = objs, OF u keys_not_Nil(1) this] obtain n' where r: "s3_get E b (snap_key b g) n = (Inr z, n')" "up n'" by blast
  have "service_gets E b objs" using 1(1) by (simp add: s3_inv_def s3_service_def)
  from s3_get_objects [OF r(1) this keys_not_Nil(1)] have "objs n' = objs n" by blast
  then show ?case
    using r s3_serves_same [OF 1(2)] by (simp add: s3_ops_def s3_ReadSnapshot_def snap_key_def)
next
  case (2 n s g z)
  let ?k = "seg_key_of b g (segmentKey s)"
  have u: "service_up E b objs up" "up n" using 2(2) by (simp_all add: s3_serves_def)
  have "objs n ?k = Some z" using 2(4) by (simp add: s3_seg_def)
  from s3_get_up [where objs = objs, OF u keys_not_Nil(2) this] obtain n' where r: "s3_get E b ?k n = (Inr z, n')" "up n'" by blast
  have "service_gets E b objs" using 2(1) by (simp add: s3_inv_def s3_service_def)
  from s3_get_objects [OF r(1) this keys_not_Nil(2)] have "objs n' = objs n" by blast
  then show ?case
    using r s3_serves_same [OF 2(2)]
    by (simp add: s3_ops_def s3_ReadWALSegment_def seg_key_of_def segmentName_key)
next
  case (3 n g)
  have I: "s3_service E b objs mark" "own_keys b (objs n)" using 3(1) by (simp_all add: s3_inv_def)
  have "service_up E b objs up" "up n" using 3(2) by (simp_all add: s3_serves_def)
  from listAll_up [OF I(1) this, of "base_of b" "''/''"] obtain D X n' where
    l: "listAll E b (base_of b) ''/'' n = Some (Inr (D, X), n')" "up n'" "objs n' = objs n"
    "set D = common_keys (objs n) (base_of b) ''/''" by metis
  have "Generations (s3_ops E b) n = (Inr (go_sort gen_lt (gens_of (base_of b) D)), n')"
    using l(1) by (simp add: s3_ops_def s3_Generations_def Let_def base_of_def)
  then show ?case using s3_serves_same [OF 3(2) l(3,2)] s3_serves_gens [OF 3(2) I(2) l(4)] by simp
next
  case (4 n g)
  have I: "s3_service E b objs mark" using 4(1) by (simp add: s3_inv_def)
  have "service_up E b objs up" "up n" using 4(2) by (simp_all add: s3_serves_def)
  from listAll_up [OF I this, of "s3_key b [''generations'', g, ''wal''] @ ''/''" "[]"] obtain D X n' where
    l: "listAll E b (s3_key b [''generations'', g, ''wal''] @ ''/'') [] n = Some (Inr (D, X), n')" "up n'"
    "objs n' = objs n" by metis
  then show ?case using s3_serves_same [OF 4(2) l(3,2)] by (simp add: s3_ops_def s3_WALSegments_def Let_def)
qed

text \<open>C4. Backup then restore over a bucket, totally: in an execution as in C3 in which moreover the main
  file was sound whenever a snapshot copied it and the committed contents were whenever a sync read
  them, once a sync reports no error, with a service that is up during the restore, no generation
  without a snapshot newer than one with, no failing system call and room in the target, the restore
  reports success and leaves exactly the committed contents the sync saw.\<close>

theorem s3_restore_succeeds:
  assumes "run_with fw cd (s3_ops N b) (s3_snap objs b) (s3_seg objs b) (s3_inv N b objs mark)
      (\<lambda>E m w. \<not> lost_write cd (s3_ops N b) (s3_seg objs b) E m w \<and> sound (db_image fw (w_files w))) sound (t, m, w)"
    and "wal_apply_ok fw" and "codec_ok cd" and "sqlite_ok fw q" and "sqlite_serves sound fw q"
    and "sync_env fw E t m (w_files w)" and "sound (db_image fw (w_files w))"
    and "sync cd (s3_ops N b) E m w = (None, m', w')"
    and "s3_serves N b objs up (w_backend w')" and "free_target dir ''default.db'' s"
  shows "\<exists>s' st. Restore cd (s3_ops N b) q dir [] s (w_backend w') = (None, s', st) \<and>
    node_at s' (dir @ [''default.db'']) = Some (File (db_image fw (w_files w)))"
proof -
  from s3.run_with_sync [OF assms(1-3) _ assms(6,8)] assms(7) obtain base ch where
    I: "chain_inv fw cd (s3_snap objs b (w_backend w')) (s3_seg objs b (w_backend w')) m' (w_files w') base ch"
    "s3_inv N b objs mark (w_backend w')" and g: "good_chain fw sound base ch"
    by (auto simp: run_inv_def)
  have z: "opt_ts [] = zero_time" "opt_db [] = ''default''" by (simp_all add: opt_ts_def opt_db_def)
  have "good_chain fw sound base (filter (seg_at (opt_ts []) \<circ> fst) ch)"
    using g by (simp add: z seg_at_def comp_def)
  from s3_serving.Restore_serves [OF I assms(9) this assms(4,5), of dir s] assms(10) obtain s' st where
    r: "Restore cd (s3_ops N b) q dir [] s (w_backend w') = (None, s', st)"
    by (auto simp: z)
  have "fs_wf s" using assms(10) by (simp add: free_target_def)
  from s3.run_then_restore [OF assms(1-3) _ assms(4,6,8) r this] r show ?thesis by auto
qed

lemma sim_up: "service_up (sim_env lossy) b sim_view (\<lambda>_. True)"
proof -
  have g: "sim_do lossy q n = (if key = [] then sim_list (q_query q) n else sim_get key n)"
    if "addresses b ''GET'' q key" for q key n
    using that by (simp add: addresses_def sim_do_def)
  show ?thesis
    unfolding service_up_def
    by (auto simp: sim_env_def g sim_get_def sim_list_def status_def sim_listing_decode)
qed

text \<open>The bucket of the run has one generation, with its snapshot.\<close>

lemma serves_ex: "s3_serves (sim_env lossy) b_ex sim_view (\<lambda>_. True) (sim_with plan z [(segmentKey seg1_ex, d)])"
proof -
  let ?n = "sim_with plan z [(segmentKey seg1_ex, d)]"
  have g: "g = g_ex" if "s3_seg sim_view b_ex ?n g k \<noteq> None" for g k
  proof -
    have "seg_key_of b_ex g k = snap_key b_ex g_ex \<or> seg_key_of b_ex g k = seg_key_of b_ex g_ex (segmentKey seg1_ex)"
      using that by (auto simp: s3_seg_def sim_view_def sim_with_def split: if_splits)
    then show ?thesis
      using seg_not_snap [OF g_ex_name] seg_key_inj [OF g_ex_name segmentKey_no_slash [OF seg1_ok]] by auto
  qed
  have "s3_snap sim_view b_ex ?n g \<noteq> None" if "s3_seg sim_view b_ex ?n g k \<noteq> None" for g k
    unfolding g [OF that] by (simp add: s3_snap_def sim_view_with)
  then show ?thesis using sim_up [of lossy b_ex] unfolding s3_serves_def by blast
qed

theorem s3_restore_succeeds_witness:
  "\<exists>s' st. Restore codec_ex (s3_ops (sim_env False) b_ex) sq_strict [''d''] [] l_ex (run_s3.with_segment wal_ex) =
      (None, s', st) \<and>
     node_at s' [''d'', ''default.db''] = Some (File (db_image fw_ex (w_files (cycle_ex wal_ex (sim_with [] [1] [])))))"
proof -
  obtain b' where s: "sync codec_ex (s3_ops (sim_env False) b_ex) (env_ex 2000) mgr1_ex
      (cycle_ex wal_ex (sim_with [] [1] [])) = (None, b', cycle_ex wal_ex (run_s3.with_segment wal_ex))"
    using run_s3.sync_ex by blast
  from s3_restore_succeeds [OF run_s3.run_cycle [where S = "\<lambda>m. m \<noteq> []", OF list.distinct(2)] wal_apply_ok_ex
      codec_ok_ex sqlite_ok_strict sqlite_serves_strict sync_env_ex sound_cycle s, of "\<lambda>_. True" "[''d'']" l_ex]
  show ?thesis using serves_ex free_target_ex by simp
qed

end
