(* ===== verification/Store.thy ===== *)
theory Store
  imports Go_Fmt
begin

text \<open>
  The stores of a node (\<open>store.go\<close>): a named SQLite database with a writer pool of one connection
  and a read-only pool, opened at most once whatever goroutines ask for it, with a hook that may
  refuse the opening. What \<open>database/sql\<close> and SQLite answer is an environment; the pools that are
  open are a state of their own, so that what is leaked would show.
\<close>

subsection \<open>Pools\<close>

record pool =
  po_dsn :: string
  po_max :: int

record pools =
  po_open :: "(nat \<times> pool) list"
  po_next :: nat

record sql_env =
  e_sql_open :: "string \<Rightarrow> error option"
  e_journal :: "string result"
  e_sql_close :: "nat \<Rightarrow> error option"

definition sql_Open :: "sql_env \<Rightarrow> string \<Rightarrow> pools \<Rightarrow> nat result \<times> pools" where
  "sql_Open E dsn P =
     (case e_sql_open E dsn of
        Some e \<Rightarrow> (Inl e, P)
      | None \<Rightarrow> (Inr (po_next P),
          \<lparr> po_open = (po_next P, \<lparr> po_dsn = dsn, po_max = 0 \<rparr>) # po_open P, po_next = po_next P + 1 \<rparr>))"

definition SetMaxOpenConns :: "nat \<Rightarrow> int \<Rightarrow> pools \<Rightarrow> pools" where
  "SetMaxOpenConns h n P =
     P\<lparr>po_open := map (\<lambda>(i, p). (i, if i = h then p\<lparr>po_max := n\<rparr> else p)) (po_open P)\<rparr>"

text \<open>A pool is closed whatever its connections answer.\<close>

definition pool_Close :: "sql_env \<Rightarrow> nat \<Rightarrow> pools \<Rightarrow> error option \<times> pools" where
  "pool_Close E h P = (e_sql_close E h, P\<lparr>po_open := filter (\<lambda>x. fst x \<noteq> h) (po_open P)\<rparr>)"

subsection \<open>One store\<close>

record store =
  so_dbPath :: string
  so_writer :: nat
  so_reader :: nat
  so_readConns :: int

definition writerDSN :: "string \<Rightarrow> string" where
  "writerDSN dbPath = ''file:'' @ dbPath @
     ''?_pragma=journal_mode(WAL)&_pragma=busy_timeout(5000)&_pragma=synchronous(NORMAL)&_txlock=immediate''"

definition readerDSN :: "string \<Rightarrow> string" where
  "readerDSN dbPath = ''file:'' @ dbPath @ ''?_pragma=journal_mode(WAL)&_pragma=busy_timeout(5000)&mode=ro''"

definition newStoreAt :: "sql_env \<Rightarrow> string \<Rightarrow> int \<Rightarrow> pools \<Rightarrow> store result \<times> pools" where
  "newStoreAt E dbPath readConns P =
     (case sql_Open E (writerDSN dbPath) P of
        (Inl e, P) \<Rightarrow> (Inl (Wrapped ''colmena: open writer'' e), P)
      | (Inr writer, P) \<Rightarrow>
          let P = SetMaxOpenConns writer 1 P in
          (case e_journal E of
             Inl e \<Rightarrow> (Inl (Wrapped ''colmena: check journal_mode'' e), snd (pool_Close E writer P))
           | Inr mode \<Rightarrow>
               if mode \<noteq> ''wal'' then
                 (Inl (ErrText (''colmena: expected WAL mode, got '' @ go_quote mode)), snd (pool_Close E writer P))
               else
                 (case sql_Open E (readerDSN dbPath) P of
                    (Inl e, P) \<Rightarrow> (Inl (Wrapped ''colmena: open reader'' e), snd (pool_Close E writer P))
                  | (Inr reader, P) \<Rightarrow>
                      (Inr \<lparr> so_dbPath = dbPath, so_writer = writer, so_reader = reader, so_readConns = readConns \<rparr>,
                       SetMaxOpenConns reader readConns P))))"

definition store_close :: "sql_env \<Rightarrow> store \<Rightarrow> pools \<Rightarrow> error option \<times> pools" where
  "store_close E s P =
     (let (e1, P) = pool_Close E (so_reader s) P;
          firstErr = e1;
          (e2, P) = pool_Close E (so_writer s) P
      in (if e2 \<noteq> None \<and> firstErr = None then e2 else firstErr, P))"

subsection \<open>The manager\<close>

text \<open>\<open>'s\<close> is the state of the hook \<open>onOpen\<close>.\<close>

type_synonym 's hook = "string \<Rightarrow> store \<Rightarrow> 's \<Rightarrow> error option \<times> 's"

record storeManager =
  sm_stores :: "string \<rightharpoonup> store"
  sm_dataDir :: string
  sm_readConns :: int

definition newStoreManager :: "string \<Rightarrow> int \<Rightarrow> storeManager" where
  "newStoreManager dataDir readConns =
     \<lparr> sm_stores = (\<lambda>_. None), sm_dataDir = dataDir, sm_readConns = readConns \<rparr>"

definition db_path :: "string \<Rightarrow> string \<Rightarrow> string" where
  "db_path dataDir name = filepath_Join [dataDir, name @ ''.db'']"

text \<open>\<open>get\<close> has two critical sections: the look-up under the read lock, and, when it misses, the
  opening under the write lock, which looks again.\<close>

definition get_read :: "string \<Rightarrow> storeManager \<Rightarrow> store option" where
  "get_read name sm = sm_stores sm name"

definition get_write ::
  "'s hook option \<Rightarrow> sql_env \<Rightarrow> string \<Rightarrow> storeManager \<Rightarrow> pools \<Rightarrow> 's \<Rightarrow>
   store result \<times> storeManager \<times> pools \<times> 's" where
  "get_write onOpen E name sm P s =
     (case sm_stores sm name of
        Some st \<Rightarrow> (Inr st, sm, P, s)
      | None \<Rightarrow>
          (case newStoreAt E (db_path (sm_dataDir sm) name) (sm_readConns sm) P of
             (Inl e, P) \<Rightarrow> (Inl (Wrapped (''colmena: open store '' @ go_quote name) e), sm, P, s)
           | (Inr st, P) \<Rightarrow>
               (case onOpen of
                  None \<Rightarrow> (Inr st, sm\<lparr>sm_stores := (sm_stores sm)(name \<mapsto> st)\<rparr>, P, s)
                | Some f \<Rightarrow>
                    (case f name st s of
                       (Some hookErr, s) \<Rightarrow> (Inl hookErr, sm, snd (store_close E st P), s)
                     | (None, s) \<Rightarrow> (Inr st, sm\<lparr>sm_stores := (sm_stores sm)(name \<mapsto> st)\<rparr>, P, s)))))"

text \<open>The whole call, when nothing comes between.\<close>

definition sm_get ::
  "'s hook option \<Rightarrow> sql_env \<Rightarrow> string \<Rightarrow> storeManager \<Rightarrow> pools \<Rightarrow> 's \<Rightarrow>
   store result \<times> storeManager \<times> pools \<times> 's" where
  "sm_get onOpen E name sm P s =
     (case get_read name sm of Some st \<Rightarrow> (Inr st, sm, P, s) | None \<Rightarrow> get_write onOpen E name sm P s)"

text \<open>\<open>close\<close> goes over the stores in an order of the runtime's choice.\<close>

fun close_stores :: "sql_env \<Rightarrow> store list \<Rightarrow> error option \<Rightarrow> pools \<Rightarrow> error option \<times> pools" where
  "close_stores E [] firstErr P = (firstErr, P)"
| "close_stores E (st # sts) firstErr P =
     (case store_close E st P of
        (e, P) \<Rightarrow> close_stores E sts (if e \<noteq> None \<and> firstErr = None then e else firstErr) P)"

definition sm_close :: "sql_env \<Rightarrow> string list \<Rightarrow> storeManager \<Rightarrow> pools \<Rightarrow> error option \<times> pools" where
  "sm_close E order sm P = close_stores E (List.map_filter (sm_stores sm) order) None P"

subsection \<open>Goroutines\<close>

text \<open>Where a goroutine stands in a call of \<open>get\<close>.\<close>

datatype get_pc = Missed string | Got string "store result"

type_synonym 's store_state = "storeManager \<times> pools \<times> 's \<times> (nat \<rightharpoonup> get_pc)"

text \<open>Any number of goroutines call \<open>get\<close>, their critical sections interleaved; \<open>H\<close> are the hooks
  the field \<open>onOpen\<close> may hold, one for each thing their environment can do, and \<open>other\<close> the steps
  other code makes on the hook's state.\<close>

inductive get_step ::
  "('s hook option \<Rightarrow> bool) \<Rightarrow> ('s \<Rightarrow> 's \<Rightarrow> bool) \<Rightarrow> 's store_state \<Rightarrow> 's store_state \<Rightarrow> bool"
  for H other where
  read: "\<nexists>m. pcs g = Some (Missed m) \<Longrightarrow>
    get_step H other (sm, P, s, pcs)
      (sm, P, s, pcs(g \<mapsto> (case get_read name sm of Some st \<Rightarrow> Got name (Inr st) | None \<Rightarrow> Missed name)))"
| wrote: "pcs g = Some (Missed name) \<Longrightarrow> H h \<Longrightarrow> get_write h E name sm P s = (r, sm', P', s') \<Longrightarrow>
    get_step H other (sm, P, s, pcs) (sm', P', s', pcs(g \<mapsto> Got name r))"
| other: "other s s' \<Longrightarrow> get_step H other (sm, P, s, pcs) (sm, P, s', pcs)"

inductive stores_reachable ::
  "('s hook option \<Rightarrow> bool) \<Rightarrow> ('s \<Rightarrow> 's \<Rightarrow> bool) \<Rightarrow> string \<Rightarrow> int \<Rightarrow> 's \<Rightarrow> 's store_state \<Rightarrow> bool"
  for H other dir conns s0 where
  new: "stores_reachable H other dir conns s0 (newStoreManager dir conns, \<lparr> po_open = [], po_next = 0 \<rparr>, s0, \<lambda>_. None)"
| step: "stores_reachable H other dir conns s0 x \<Longrightarrow> get_step H other x y \<Longrightarrow> stores_reachable H other dir conns s0 y"

inductive_cases get_stepE: "get_step H other x y"

subsection \<open>What the pools look like\<close>

text \<open>The open pools are those of the registered stores, each with its limit and data source.\<close>

definition store_pools :: "store \<Rightarrow> (nat \<times> pool) set" where
  "store_pools st =
     {(so_writer st, \<lparr> po_dsn = writerDSN (so_dbPath st), po_max = 1 \<rparr>),
      (so_reader st, \<lparr> po_dsn = readerDSN (so_dbPath st), po_max = so_readConns st \<rparr>)}"

definition store_ok :: "string \<Rightarrow> int \<Rightarrow> nat \<Rightarrow> string \<Rightarrow> store \<Rightarrow> bool" where
  "store_ok dir conns n name st \<longleftrightarrow>
     so_dbPath st = db_path dir name \<and> so_readConns st = conns \<and> so_writer st \<noteq> so_reader st \<and>
     so_writer st < n \<and> so_reader st < n"

definition handles :: "store \<Rightarrow> nat set" where
  "handles st = {so_writer st, so_reader st}"

definition pools_ok :: "storeManager \<Rightarrow> pools \<Rightarrow> bool" where
  "pools_ok sm P \<longleftrightarrow>
     set (po_open P) = (\<Union>st \<in> ran (sm_stores sm). store_pools st) \<and>
     (\<forall>name st. sm_stores sm name = Some st \<longrightarrow> store_ok (sm_dataDir sm) (sm_readConns sm) (po_next P) name st) \<and>
     (\<forall>n m a b. sm_stores sm n = Some a \<longrightarrow> sm_stores sm m = Some b \<longrightarrow> n \<noteq> m \<longrightarrow> handles a \<inter> handles b = {})"

lemma pools_okD:
  assumes "pools_ok sm P"
  shows "set (po_open P) = (\<Union>st \<in> ran (sm_stores sm). store_pools st)"
    "sm_stores sm name = Some st \<Longrightarrow> store_ok (sm_dataDir sm) (sm_readConns sm) (po_next P) name st"
    "sm_stores sm n = Some a \<Longrightarrow> sm_stores sm m = Some b \<Longrightarrow> n \<noteq> m \<Longrightarrow> handles a \<inter> handles b = {}"
  using assms by (auto simp: pools_ok_def)

text \<open>Opening a store adds its two pools, or nothing.\<close>

lemma newStoreAt_pools:
  assumes "newStoreAt E dbp conns P = (r, P')" and "\<forall>x \<in> set (po_open P). fst x < po_next P"
  shows "po_next P \<le> po_next P' \<and>
    (case r of
       Inl _ \<Rightarrow> set (po_open P') = set (po_open P)
     | Inr st \<Rightarrow> set (po_open P') = set (po_open P) \<union> store_pools st \<and> so_dbPath st = dbp \<and> so_readConns st = conns \<and>
         so_writer st \<noteq> so_reader st \<and> handles st \<subseteq> {po_next P..<po_next P'})"
proof -
  have keep: "map (\<lambda>(i, p). (i, if i = h then p\<lparr>po_max := n\<rparr> else p)) l = l" if "\<forall>x \<in> set l. fst x \<noteq> h" for h n l
    using that by (induction l) auto
  have old: "\<forall>x \<in> set (po_open P). fst x \<noteq> po_next P" "\<forall>x \<in> set (po_open P). fst x \<noteq> Suc (po_next P)"
    using assms(2) by auto
  have f: "filter (\<lambda>x. fst x \<noteq> po_next P) (po_open P) = po_open P" using old by (simp add: filter_id_conv)
  show ?thesis
    using assms(1) old f
    by (auto simp: newStoreAt_def sql_Open_def SetMaxOpenConns_def pool_Close_def keep Let_def store_pools_def
        handles_def split: option.splits sum.splits if_splits)
qed

lemma store_close_pools:
  "set (po_open (snd (store_close E st P))) = {x \<in> set (po_open P). fst x \<notin> handles st}"
  "po_next (snd (store_close E st P)) = po_next P"
  by (auto simp: store_close_def pool_Close_def handles_def)

text \<open>One critical section of \<open>get\<close> keeps the pools; it registers at most the store it returns.\<close>

lemma store_ok_mono: "store_ok d c n nm st \<Longrightarrow> n \<le> m \<Longrightarrow> store_ok d c m nm st"
  by (auto simp: store_ok_def)

lemma pools_ok_same:
  "pools_ok sm P \<Longrightarrow> set (po_open Q) = set (po_open P) \<Longrightarrow> po_next P \<le> po_next Q \<Longrightarrow> pools_ok sm Q"
  unfolding pools_ok_def using store_ok_mono by metis

lemma pools_ok_below: "pools_ok sm P \<Longrightarrow> \<forall>x \<in> set (po_open P). fst x < po_next P"
  by (fastforce simp: pools_ok_def store_pools_def store_ok_def ran_def)

text \<open>A new store that is closed again leaves the pools as they were; one that is entered has them
  for itself.\<close>

lemma pools_ok_refused:
  assumes "pools_ok sm P" and "set (po_open P1) = set (po_open P) \<union> store_pools st"
    and "handles st \<subseteq> {po_next P..<po_next P1}" and "po_next P \<le> po_next P1"
  shows "pools_ok sm (snd (store_close E st P1))"
  using assms(1)
proof (rule pools_ok_same)
  have "fst x \<in> handles st" if "x \<in> store_pools st" for x using that by (auto simp: store_pools_def handles_def)
  moreover have "fst x \<notin> handles st" if "x \<in> set (po_open P)" for x
    using that pools_ok_below [OF assms(1)] assms(3) by fastforce
  ultimately show "set (po_open (snd (store_close E st P1))) = set (po_open P)"
    unfolding store_close_pools assms(2) by blast
qed (simp add: store_close_pools assms(4))

lemma pools_ok_registered:
  assumes "pools_ok sm P" and "set (po_open P1) = set (po_open P) \<union> store_pools st"
    and "handles st \<subseteq> {po_next P..<po_next P1}" and "po_next P \<le> po_next P1"
    and "store_ok (sm_dataDir sm) (sm_readConns sm) (po_next P1) name st" and "sm_stores sm name = None"
  shows "pools_ok (sm\<lparr>sm_stores := (sm_stores sm)(name \<mapsto> st)\<rparr>) P1"
proof -
  let ?sm = "sm\<lparr>sm_stores := (sm_stores sm)(name \<mapsto> st)\<rparr>"
  have dj: "handles a \<inter> handles st = {}" if "sm_stores sm m = Some a" for m a
  proof -
    have "handles a \<subseteq> {..<po_next P}"
      using pools_okD(2) [OF assms(1) that] by (simp add: store_ok_def handles_def)
    then show ?thesis using assms(3) by fastforce
  qed
  have "ran ((sm_stores sm)(name \<mapsto> st)) = insert st (ran (sm_stores sm))" using assms(6) by (rule ran_map_upd)
  then have "set (po_open P1) = (\<Union>x \<in> ran (sm_stores ?sm). store_pools x)"
    using assms(2) pools_okD(1) [OF assms(1)] by auto
  moreover have "store_ok (sm_dataDir sm) (sm_readConns sm) (po_next P1) n a"
    if "sm_stores ?sm n = Some a" for n a
    using that assms(5) store_ok_mono [OF pools_okD(2) [OF assms(1)] assms(4)] by (auto split: if_splits)
  moreover have "handles a \<inter> handles b = {}"
    if "sm_stores ?sm n = Some a" "sm_stores ?sm m = Some b" "n \<noteq> m" for n m a b
    using that dj pools_okD(3) [OF assms(1)] by (auto split: if_splits simp: Int_commute)
  ultimately show ?thesis by (simp add: pools_ok_def)
qed

lemma get_write_pools:
  assumes "get_write h E name sm P s = (r, sm', P', s')" and "pools_ok sm P"
  shows "pools_ok sm' P' \<and> sm_dataDir sm' = sm_dataDir sm \<and> sm_readConns sm' = sm_readConns sm \<and>
    (\<forall>n st. sm_stores sm n = Some st \<longrightarrow> sm_stores sm' n = Some st) \<and>
    (\<forall>st. r = Inr st \<longrightarrow> sm_stores sm' name = Some st)"
proof (cases "sm_stores sm name")
  case (Some st)
  then show ?thesis using assms by (auto simp: get_write_def)
next
  case None
  obtain r1 P1 where o: "newStoreAt E (db_path (sm_dataDir sm) name) (sm_readConns sm) P = (r1, P1)" by fastforce
  note N = newStoreAt_pools [OF o pools_ok_below [OF assms(2)]]
  show ?thesis
  proof (cases r1)
    case (Inl e)
    then show ?thesis using assms None o N pools_ok_same [OF assms(2)] by (auto simp: get_write_def)
  next
    case (Inr st)
    have st: "set (po_open P1) = set (po_open P) \<union> store_pools st" "handles st \<subseteq> {po_next P..<po_next P1}"
      "store_ok (sm_dataDir sm) (sm_readConns sm) (po_next P1) name st" "po_next P \<le> po_next P1"
      using N Inr by (auto simp: store_ok_def handles_def)
    note refused = pools_ok_refused [OF assms(2) st(1,2,4), of E]
    note registered = pools_ok_registered [OF assms(2) st(1,2,4,3) None]
    show ?thesis
      using assms(1) None o Inr refused registered
      by (auto simp: get_write_def split: option.splits prod.splits)
  qed
qed

subsection \<open>The contract of the hook\<close>

text \<open>
  \<open>attached s\<close> are the names the hook has attached something to. It attaches on success and not on
  failure; nothing else does. \<open>on\<close> says whether there is a hook.
\<close>

locale store_hook =
  fixes H :: "'s hook option \<Rightarrow> bool" and other :: "'s \<Rightarrow> 's \<Rightarrow> bool" and attached :: "'s \<Rightarrow> string set" and on :: bool
  assumes configured: "H h \<Longrightarrow> (h \<noteq> None) = on"
    and hook_ok: "H (Some f) \<Longrightarrow> f name st s = (None, s') \<Longrightarrow> attached s' = insert name (attached s)"
    and hook_err: "H (Some f) \<Longrightarrow> f name st s = (Some e, s') \<Longrightarrow> attached s' = attached s"
    and other_keeps: "other s s' \<Longrightarrow> attached s' = attached s"
begin

lemma get_write_attached:
  assumes "get_write h E name sm P s = (r, sm', P', s')" and "H h"
    and "attached s = A \<union> (if on then dom (sm_stores sm) else {})"
  shows "attached s' = A \<union> (if on then dom (sm_stores sm') else {})"
proof (cases h)
  case None
  then show ?thesis
    using assms configured [OF assms(2)] by (auto simp: get_write_def split: option.splits prod.splits sum.splits)
next
  case (Some f)
  then show ?thesis
    using assms configured [OF assms(2)] hook_ok [of f] hook_err [of f]
    by (auto simp: get_write_def split: option.splits prod.splits sum.splits)
qed

lemma reachable_ok:
  assumes "stores_reachable H other dir conns s0 x"
  shows "case x of (sm, P, s, pcs) \<Rightarrow>
    pools_ok sm P \<and> sm_dataDir sm = dir \<and> sm_readConns sm = conns \<and>
    (\<forall>g name st. pcs g = Some (Got name (Inr st)) \<longrightarrow> sm_stores sm name = Some st) \<and>
    attached s = attached s0 \<union> (if on then dom (sm_stores sm) else {})"
  using assms
proof induction
  case new
  show ?case by (simp add: pools_ok_def newStoreManager_def)
next
  case (step x y)
  from step.hyps(2) show ?case
  proof cases
    case (read pcs g sm P s name)
    then show ?thesis using step.IH by (auto simp: get_read_def split: option.splits)
  next
    case (wrote pcs g name h E sm P s r sm' P' s')
    note I = step.IH [unfolded wrote(1) prod.case]
    from I have "pools_ok sm P" by blast
    note W = get_write_pools [OF wrote(5) this]
    have "attached s' = attached s0 \<union> (if on then dom (sm_stores sm') else {})"
      using get_write_attached [OF wrote(5,4)] I by blast
    then show ?thesis using W I unfolding wrote(2) by auto
  next
    case (other s s' sm P pcs)
    then show ?thesis using step.IH other_keeps by simp
  qed
qed

end

subsection \<open>Closing\<close>

lemma close_stores_pools:
  "set (po_open (snd (close_stores E sts e P))) = {x \<in> set (po_open P). fst x \<notin> (\<Union>st \<in> set sts. handles st)}"
proof (induction sts arbitrary: e P)
  case (Cons st sts)
  obtain e1 P1 where c: "store_close E st P = (e1, P1)" by fastforce
  then have "set (po_open P1) = {x \<in> set (po_open P). fst x \<notin> handles st}"
    using store_close_pools(1) [of E st P] by simp
  then show ?case using Cons c by auto
qed simp

text \<open>When every store is visited no pool stays open.\<close>

lemma sm_close_all:
  assumes "pools_ok sm P" and "dom (sm_stores sm) \<subseteq> set order"
  shows "po_open (snd (sm_close E order sm P)) = []"
proof -
  have "fst x \<in> (\<Union>st \<in> set (List.map_filter (sm_stores sm) order). handles st)" if "x \<in> set (po_open P)" for x
  proof -
    from that pools_okD(1) [OF assms(1)] obtain n st where st: "sm_stores sm n = Some st" "x \<in> store_pools st"
      by (auto simp: ran_def)
    then have "n \<in> set order" using assms(2) by blast
    then have "st \<in> set (List.map_filter (sm_stores sm) order)" using st(1) by (force simp: map_filter_def)
    moreover have "fst x \<in> handles st" using st(2) by (auto simp: store_pools_def handles_def)
    ultimately show ?thesis by blast
  qed
  then have "set (po_open (snd (sm_close E order sm P))) = {}"
    by (auto simp: sm_close_def close_stores_pools)
  then show ?thesis by simp
qed

subsection \<open>Files\<close>

text \<open>Names without a slash are separate files; another name may be the file of a store that is
  open, and then two writer pools have it open.\<close>

lemma db_path_inj:
  assumes "dir \<noteq> []" and "CHR ''/'' \<notin> set n" and "CHR ''/'' \<notin> set m" and "db_path dir n = db_path dir m"
  shows "n = m"
proof -
  obtain pre where pre: "\<And>x. plain_name x \<Longrightarrow> filepath_Join [dir, x] = pre @ x"
    using filepath_Join_plain [OF assms(1), of thesis] by blast
  have p: "plain_name (x @ ''.db'')" if "CHR ''/'' \<notin> set x" for x
    using that by (cases x) (auto simp: plain_name_def append_eq_Cons_conv)
  show ?thesis using assms(4) pre [OF p [OF assms(2)]] pre [OF p [OF assms(3)]] by (simp add: db_path_def)
qed

lemma db_path_alias: "db_path ''data'' ''./default'' = db_path ''data'' ''default''"
  by (simp add: db_path_def path_Clean_def Let_def)

end
