(* ===== verification/Node.thy ===== *)
theory Node
  imports Store Backup_Example
begin

text \<open>
  The node (\<open>node.go\<close>, \<open>config.go\<close>, \<open>version.go\<close>): the configuration, the hook that attaches a backup engine
  to every store as it opens, and \<open>Close\<close>, which lets every engine run its last sync and closes
  every pool. The two backends' own \<open>Close\<close> do nothing, and their results are not looked at.
\<close>

subsection \<open>Configuration\<close>

datatype ConsistencyLevel = ConsistencyNone | ConsistencyWeak | ConsistencyStrong | ConsistencyLease

datatype writer = Stderr | Writer string

record node_Config =
  cn_DataDir :: string
  cn_SQLiteReadConns :: int
  cn_Backup :: "BackupConfig option"
  cn_LogOutput :: "writer option"
  cn_NodeID :: string
  cn_Bind :: string
  cn_Advertise :: string
  cn_Bootstrap :: bool
  cn_Join :: "string list"
  cn_Consistency :: ConsistencyLevel

definition node_validate :: "node_Config \<Rightarrow> error option" where
  "node_validate c = (if cn_DataDir c = [] then Some (ErrText ''colmena: DataDir is required'') else None)"

definition node_applyDefaults :: "node_Config \<Rightarrow> node_Config" where
  "node_applyDefaults c =
     (let c = (if cn_SQLiteReadConns c \<le> 0 then c\<lparr>cn_SQLiteReadConns := 4\<rparr> else c)
      in if cn_LogOutput c = None then c\<lparr>cn_LogOutput := Some Stderr\<rparr> else c)"

definition LibraryVersion :: string where
  "LibraryVersion = ''2.0.0''"

subsection \<open>Engines\<close>

text \<open>The engine of each database with its backend, the database it works on, and whether it has
  been stopped.\<close>

record 'b engines =
  en_backups :: "string \<rightharpoonup> backupManager \<times> 'b backend_ops"
  en_worlds :: "string \<Rightarrow> 'b world"
  en_stopped :: "string \<Rightarrow> bool"

text \<open>The hook: \<open>nb\<close> is what \<open>cfg.NewBackend\<close> answers, \<open>E\<close> what the engine meets when it starts.\<close>

definition node_hook ::
  "codec \<Rightarrow> BackupConfig \<Rightarrow> (string \<Rightarrow> 'b backend_ops result) \<Rightarrow> env \<Rightarrow> 'b engines hook" where
  "node_hook cd bc nb E name st s =
     (case newBackupManager name bc (nb name) of
        Inl err \<Rightarrow> (Some err, s)
      | Inr (bm, bk) \<Rightarrow>
          (case backup_start cd bk E bm (en_worlds s name) of
             Inl err \<Rightarrow> (Some (Wrapped (''colmena: start backup for '' @ go_quote name) err), s)
           | Inr (page, bm, w) \<Rightarrow>
               (None, s\<lparr>en_backups := (en_backups s)(name \<mapsto> (bm, bk)), en_worlds := (en_worlds s)(name := w)\<rparr>)))"

definition node_onOpen ::
  "codec \<Rightarrow> node_Config \<Rightarrow> (string \<Rightarrow> 'b backend_ops result) \<Rightarrow> env \<Rightarrow> 'b engines hook option" where
  "node_onOpen cd cfg nb E = map_option (\<lambda>bc. node_hook cd bc nb E) (cn_Backup cfg)"

definition engines0 :: "(string \<Rightarrow> 'b world) \<Rightarrow> 'b engines" where
  "engines0 ws = \<lparr> en_backups = (\<lambda>_. None), en_worlds = ws, en_stopped = (\<lambda>_. False) \<rparr>"

text \<open>\<open>New\<close>; \<open>mk\<close> is what \<open>os.MkdirAll\<close> answers.\<close>

definition node_New :: "node_Config \<Rightarrow> error option \<Rightarrow> (node_Config \<times> storeManager) result" where
  "node_New cfg mk =
     (case node_validate cfg of
        Some err \<Rightarrow> Inl err
      | None \<Rightarrow>
          let cfg = node_applyDefaults cfg in
          (case mk of
             Some err \<Rightarrow> Inl (Wrapped ''colmena: create data dir'' err)
           | None \<Rightarrow> Inr (cfg, newStoreManager (cn_DataDir cfg) (cn_SQLiteReadConns cfg))))"

definition node_BackupStatus :: "'b engines \<Rightarrow> (string \<rightharpoonup> BackupStatus)" where
  "node_BackupStatus s name = map_option (\<lambda>x. Backup_Engine.Status (fst x)) (en_backups s name)"

text \<open>A \<open>sql.DB\<close> is a connector of the driver with the name of its database.\<close>

record colmenaConnector =
  co_dbName :: string

definition OpenDB :: "string \<Rightarrow> ConsistencyLevel \<Rightarrow> colmenaConnector" where
  "OpenDB name consistency = \<lparr> co_dbName = name \<rparr>"

definition DB :: colmenaConnector where
  "DB = OpenDB ''default'' ConsistencyNone"

text \<open>What is left of the first version; \<open>IsLeader\<close> is in the theory \<open>Jobs_Loops\<close>, which asks it.\<close>

definition WaitForLeader :: "duration \<Rightarrow> error option" where
  "WaitForLeader timeout = None"

definition NodeID :: "node_Config \<Rightarrow> string" where
  "NodeID cfg = cn_NodeID cfg"

definition Version :: string where
  "Version = LibraryVersion"

text \<open>What goes on beside the opening of stores: the loops of the engines and the connections of the
  databases.\<close>

inductive engine_step :: "codec \<Rightarrow> 'b engines \<Rightarrow> 'b engines \<Rightarrow> bool" for cd where
  loop: "en_backups s name = Some (bm, bk) \<Longrightarrow> run_step cd bk E ev bm (en_worlds s name) = (page, go, bm', w) \<Longrightarrow>
    engine_step cd s (s\<lparr>en_backups := (en_backups s)(name \<mapsto> (bm', bk)), en_worlds := (en_worlds s)(name := w)\<rparr>)"
| conns: "engine_step cd s (s\<lparr>en_worlds := (en_worlds s)(name := (en_worlds s name)\<lparr>w_files := f\<rparr>)\<rparr>)"

lemma node_hook_backups:
  "node_hook cd bc nb E name st s = (None, s') \<Longrightarrow> dom (en_backups s') = insert name (dom (en_backups s))"
  "node_hook cd bc nb E name st s = (Some e, s') \<Longrightarrow> s' = s"
  by (auto simp: node_hook_def split: sum.splits prod.splits)

text \<open>The hooks of a node: one for each behaviour of the backend's constructor and of the start.\<close>

definition node_hooks :: "codec \<Rightarrow> node_Config \<Rightarrow> 'b engines hook option \<Rightarrow> bool" where
  "node_hooks cd cfg h \<longleftrightarrow> (\<exists>nb E. h = node_onOpen cd cfg nb E)"

lemma node_hooks_Some: "node_hooks cd cfg (Some f) \<Longrightarrow> \<exists>bc nb E. f = node_hook cd bc nb E"
  by (cases "cn_Backup cfg") (auto simp: node_hooks_def node_onOpen_def)

interpretation node_engines: store_hook "node_hooks cd cfg" "engine_step cd" "\<lambda>s. dom (en_backups s)" "cn_Backup cfg \<noteq> None"
  for cd and cfg :: node_Config
proof (unfold_locales, goal_cases)
  case (1 h)
  then show ?case by (cases "cn_Backup cfg") (auto simp: node_hooks_def node_onOpen_def)
next
  case (2 f name st s s')
  with node_hooks_Some [OF 2(1)] node_hook_backups(1) show ?case by blast
next
  case (3 f name st s e s')
  with node_hooks_Some [OF 3(1)] node_hook_backups(2) show ?case by blast
next
  case (4 s s')
  then show ?case by (cases rule: engine_step.cases) (auto simp: dom_def)
qed

subsection \<open>Closing\<close>







subsection \<open>An opened node\<close>

definition node_cfg_ex :: node_Config where
  "node_cfg_ex = \<lparr> cn_DataDir = ''data'', cn_SQLiteReadConns = 0, cn_Backup = Some cfg_ex, cn_LogOutput = None,
     cn_NodeID = [], cn_Bind = [], cn_Advertise = [], cn_Bootstrap = False, cn_Join = [],
     cn_Consistency = ConsistencyNone \<rparr>"

definition sql_ex :: sql_env where
  "sql_ex = \<lparr> e_sql_open = (\<lambda>_. None), e_journal = Inr ''wal'', e_sql_close = (\<lambda>_. None) \<rparr>"

definition store_ex :: store where
  "store_ex = \<lparr> so_dbPath = ''data/default.db'', so_writer = 0, so_reader = 1, so_readConns = 4 \<rparr>"

definition pools_ex :: pools where
  "pools_ex = \<lparr> po_open = [(1, \<lparr> po_dsn = readerDSN ''data/default.db'', po_max = 4 \<rparr>),
     (0, \<lparr> po_dsn = writerDSN ''data/default.db'', po_max = 1 \<rparr>)], po_next = 2 \<rparr>"

definition sm_ex :: storeManager where
  "sm_ex = (newStoreManager ''data'' 4)\<lparr>sm_stores := [''default'' \<mapsto> store_ex]\<rparr>"

definition engines_ex :: "backupManager \<Rightarrow> fs world \<Rightarrow> fs engines" where
  "engines_ex bm w = (engines0 (\<lambda>_. world_ex l_ex))\<lparr>en_backups := [''default'' \<mapsto> (bm, local_ops [''b''])],
     en_worlds := (\<lambda>_. world_ex l_ex)(''default'' := w)\<rparr>"

lemma node_New_ex:
  "\<exists>cfg. node_New node_cfg_ex None = Inr (cfg, newStoreManager ''data'' 4) \<and> cn_Backup cfg = Some cfg_ex"
  by (simp add: node_New_def node_validate_def node_applyDefaults_def node_cfg_ex_def)

lemma open_ex:
  "get_write (node_onOpen codec_ex node_cfg_ex (\<lambda>_. Inr (local_ops [''b''])) (env_ex 1000)) sql_ex ''default''
     (newStoreManager ''data'' 4) \<lparr> po_open = [], po_next = 0 \<rparr> (engines0 (\<lambda>_. world_ex l_ex)) =
     (Inr store_ex, sm_ex, pools_ex, engines_ex mgr1_ex (world_ex (snap_tree g_ex [1])))"
proof -
  have d: "db_path ''data'' ''default'' = ''data/default.db''" by (simp add: db_path_def path_Clean_def Let_def)
  have m: "newBackupManager ''default'' cfg_ex (Inr bk) = Inr (mgr_ex, bk)" for bk :: "fs backend_ops"
    by (simp add: newBackupManager_def mgr_ex_def)
  have "backup_start codec_ex (local_ops [''b'']) (env_ex 1000) mgr_ex (world_ex l_ex) =
      Inr (False, mgr1_ex, world_ex (snap_tree g_ex [1]))"
    unfolding backup_start_def run_local.snapshot_ex by (simp add: env_ex_def)
  then have "node_hook codec_ex cfg_ex (\<lambda>_. Inr (local_ops [''b''])) (env_ex 1000) ''default'' store_ex
      (engines0 (\<lambda>_. world_ex l_ex)) = (None, engines_ex mgr1_ex (world_ex (snap_tree g_ex [1])))"
    by (simp add: node_hook_def m engines0_def engines_ex_def)
  then show ?thesis
    by (simp add: get_write_def newStoreManager_def newStoreAt_def sql_Open_def sql_ex_def SetMaxOpenConns_def Let_def d
        node_onOpen_def node_cfg_ex_def store_ex_def pools_ex_def sm_ex_def)
qed

text \<open>Two goroutines miss the store; the first opens it, the second finds it open.\<close>

definition pcs_ex :: "nat \<rightharpoonup> get_pc" where
  "pcs_ex = [0 \<mapsto> Got ''default'' (Inr store_ex), 1 \<mapsto> Got ''default'' (Inr store_ex)]"

lemma stores_reachable_ex:
  "stores_reachable (node_hooks codec_ex node_cfg_ex) (engine_step codec_ex) ''data'' 4 (engines0 (\<lambda>_. world_ex l_ex))
     (sm_ex, pools_ex, engines_ex mgr1_ex (world_ex (snap_tree g_ex [1])), pcs_ex)" (is "?R (_, _, ?s, _)")
proof -
  let ?h = "node_onOpen codec_ex node_cfg_ex (\<lambda>_. Inr (local_ops [''b''])) (env_ex 1000)"
  have H: "node_hooks codec_ex node_cfg_ex ?h" by (auto simp: node_hooks_def)
  have miss: "get_read ''default'' (newStoreManager ''data'' 4) = None" by (simp add: get_read_def newStoreManager_def)
  have "?R (newStoreManager ''data'' 4, \<lparr> po_open = [], po_next = 0 \<rparr>, engines0 (\<lambda>_. world_ex l_ex), [0 \<mapsto> Missed ''default''])"
    using stores_reachable.step [OF stores_reachable.new get_step.read [of _ 0 _ _ _ _ _ "''default''"],
        of "node_hooks codec_ex node_cfg_ex" "engine_step codec_ex" "''data''" 4 "engines0 (\<lambda>_. world_ex l_ex)"] miss by simp
  from stores_reachable.step [OF this get_step.read [of _ 1 _ _ _ _ _ "''default''"]] miss
  have "?R (newStoreManager ''data'' 4, \<lparr> po_open = [], po_next = 0 \<rparr>, engines0 (\<lambda>_. world_ex l_ex),
      [0 \<mapsto> Missed ''default'', 1 \<mapsto> Missed ''default''])" by simp
  from stores_reachable.step [OF this get_step.wrote [where h = ?h and H = "node_hooks codec_ex node_cfg_ex", OF _ H open_ex, of _ 0]]
  have r: "?R (sm_ex, pools_ex, ?s, [0 \<mapsto> Got ''default'' (Inr store_ex), 1 \<mapsto> Missed ''default''])"
    by (simp add: fun_upd_twist)
  have "get_write ?h sql_ex ''default'' sm_ex pools_ex ?s = (Inr store_ex, sm_ex, pools_ex, ?s)"
    by (simp add: get_write_def sm_ex_def)
  from stores_reachable.step [OF r get_step.wrote [where h = ?h and H = "node_hooks codec_ex node_cfg_ex", OF _ H this, of _ 1]] show ?thesis
    by (simp add: pcs_ex_def)
qed

subsection \<open>Properties\<close>

text \<open>C16. However the calls that open databases interleave with each other, with the engines' loops
  and with the connections, the open pools are exactly those of the registered stores, with one
  connection for the writer; everyone who got a database got the same store; and exactly the
  registered stores have a backup engine, when backup is configured, else none.\<close>

theorem node_stores:
  assumes "node_New cfg mk = Inr (cfg', sm0)"
    and "stores_reachable (node_hooks cd cfg') (engine_step cd) (sm_dataDir sm0) (sm_readConns sm0) (engines0 ws)
      (sm, P, s, pcs)"
  shows "set (po_open P) = (\<Union>st \<in> ran (sm_stores sm). store_pools st) \<and>
    (pcs g = Some (Got name (Inr st)) \<and> pcs h = Some (Got name (Inr st')) \<longrightarrow> st = st' \<and> sm_stores sm name = Some st) \<and>
    (sm_stores sm name = Some st \<longrightarrow> so_dbPath st = db_path (cn_DataDir cfg) name) \<and>
    dom (en_backups s) = (if cn_Backup cfg = None then {} else dom (sm_stores sm))"
proof -
  have c: "cn_Backup cfg' = cn_Backup cfg" "sm_dataDir sm0 = cn_DataDir cfg"
    using assms(1)
    by (auto simp: node_New_def node_applyDefaults_def newStoreManager_def Let_def split: option.splits)
  from node_engines.reachable_ok [OF assms(2)] have I: "pools_ok sm P" "sm_dataDir sm = cn_DataDir cfg"
    "\<And>g name st. pcs g = Some (Got name (Inr st)) \<Longrightarrow> sm_stores sm name = Some st"
    "dom (en_backups s) = dom (en_backups (engines0 ws)) \<union> (if cn_Backup cfg' \<noteq> None then dom (sm_stores sm) else {})"
    unfolding c(2) by blast+
  have "st = st' \<and> sm_stores sm name = Some st" if "pcs g = Some (Got name (Inr st)) \<and> pcs h = Some (Got name (Inr st'))"
    using I(3) [of g name st] I(3) [of h name st'] that by simp
  then show ?thesis
    using pools_okD(1,2) [OF I(1)] I(2,4) by (auto simp: engines0_def c store_ok_def)
qed

theorem node_stores_witness:
  "po_open pools_ex \<noteq> [] \<and> set (po_open pools_ex) = store_pools store_ex \<and>
     dom (en_backups (engines_ex mgr1_ex (world_ex (snap_tree g_ex [1])))) = {''default''}"
proof -
  obtain cfg where n: "node_New node_cfg_ex None = Inr (cfg, newStoreManager ''data'' 4)" "cn_Backup cfg = Some cfg_ex"
    using node_New_ex by blast
  have h: "node_hooks codec_ex cfg = node_hooks codec_ex node_cfg_ex"
    using n(2) by (simp add: fun_eq_iff node_hooks_def node_onOpen_def node_cfg_ex_def)
  from node_stores [OF n(1), of codec_ex "\<lambda>_. world_ex l_ex" sm_ex pools_ex _ pcs_ex 0 "''default''" store_ex 1 store_ex]
    stores_reachable_ex show ?thesis
    by (simp add: h newStoreManager_def node_cfg_ex_def sm_ex_def pools_ex_def)
qed




end
