(* ===== verification/Driver.thy ===== *)
theory Driver
  imports Store
begin

text \<open>
  The driver (\<open>driver.go\<close>): \<open>database/sql\<close> connections over the two pools of a store. Statements
  and transactions run on the single writer connection, queries outside a transaction on the
  read-only pool. SQLite is a parameter: what a statement makes of the contents \<open>'d\<close> of the
  database and what it answers; statements that end or begin a transaction themselves are left
  out. \<open>database/sql\<close> is modelled as far as the driver uses it: one writer connection that a
  transaction holds and other writers wait for, and a \<open>sql.Tx\<close> that is done once it is committed,
  rolled back, or rolled back because its context ended. A call that waits for the writer has no
  result (\<open>None\<close>); what else can go wrong in a call is its argument \<open>fault\<close>.
\<close>

subsection \<open>What database/sql gives\<close>

type_synonym sql_result = "int \<times> int"

record 'v rows =
  rw_cols :: "string list result"
  rw_rows :: "'v list list"
  rw_err :: "error option"

record ('d, 'v) engine =
  x_exec :: "string \<Rightarrow> 'v list \<Rightarrow> 'd \<Rightarrow> sql_result result \<times> 'd"
  x_query :: "string \<Rightarrow> 'v list \<Rightarrow> 'd \<Rightarrow> 'v rows result \<times> 'd"
  x_read :: "string \<Rightarrow> 'v list \<Rightarrow> 'd \<Rightarrow> 'v rows result"

text \<open>The committed contents, and the writer's transaction with what it sees.\<close>

record 'd database =
  db_data :: 'd
  db_tx :: "(nat \<times> 'd) option"
  db_next :: nat

definition ErrTxDone :: error where
  "ErrTxDone = ErrText ''sql: transaction has already been committed or rolled back''"

definition EOF :: error where "EOF = ErrText ''EOF''"

definition writer_BeginTx :: "error option \<Rightarrow> 'd database \<Rightarrow> (nat result \<times> 'd database) option" where
  "writer_BeginTx fault D =
     (case fault of
        Some e \<Rightarrow> Some (Inl e, D)
      | None \<Rightarrow>
          if db_tx D \<noteq> None then None
          else Some (Inr (db_next D), D\<lparr>db_tx := Some (db_next D, db_data D), db_next := db_next D + 1\<rparr>))"

text \<open>A call of \<open>sql.Tx\<close> that runs \<open>f\<close> on what the transaction sees.\<close>

definition in_tx ::
  "error option \<Rightarrow> nat \<Rightarrow> ('d \<Rightarrow> 'r result \<times> 'd) \<Rightarrow> 'd database \<Rightarrow> 'r result \<times> 'd database" where
  "in_tx fault t f D =
     (case db_tx D of
        None \<Rightarrow> (Inl ErrTxDone, D)
      | Some (u, d) \<Rightarrow>
          if u \<noteq> t then (Inl ErrTxDone, D)
          else (case fault of
                  Some e \<Rightarrow> (Inl e, D)
                | None \<Rightarrow> (case f d of (r, d) \<Rightarrow> (r, D\<lparr>db_tx := Some (u, d)\<rparr>))))"

definition sqltx_Commit :: "error option \<Rightarrow> nat \<Rightarrow> 'd database \<Rightarrow> error option \<times> 'd database" where
  "sqltx_Commit fault t D =
     (case db_tx D of
        None \<Rightarrow> (Some ErrTxDone, D)
      | Some (u, d) \<Rightarrow>
          if u \<noteq> t then (Some ErrTxDone, D)
          else (case fault of
                  Some e \<Rightarrow> (Some e, D\<lparr>db_tx := None\<rparr>)
                | None \<Rightarrow> (None, D\<lparr>db_data := d, db_tx := None\<rparr>)))"

definition sqltx_Rollback :: "error option \<Rightarrow> nat \<Rightarrow> 'd database \<Rightarrow> error option \<times> 'd database" where
  "sqltx_Rollback fault t D =
     (case db_tx D of
        None \<Rightarrow> (Some ErrTxDone, D)
      | Some (u, d) \<Rightarrow> if u \<noteq> t then (Some ErrTxDone, D) else (fault, D\<lparr>db_tx := None\<rparr>))"

definition writer_Exec ::
  "('d, 'v) engine \<Rightarrow> error option \<Rightarrow> string \<Rightarrow> 'v list \<Rightarrow> 'd database \<Rightarrow>
   (sql_result result \<times> 'd database) option" where
  "writer_Exec X fault query args D =
     (case fault of
        Some e \<Rightarrow> Some (Inl e, D)
      | None \<Rightarrow>
          if db_tx D \<noteq> None then None
          else (case x_exec X query args (db_data D) of (r, d) \<Rightarrow> Some (r, D\<lparr>db_data := d\<rparr>)))"

definition reader_Query ::
  "('d, 'v) engine \<Rightarrow> error option \<Rightarrow> string \<Rightarrow> 'v list \<Rightarrow> 'd database \<Rightarrow> 'v rows result" where
  "reader_Query X fault query args D = (case fault of Some e \<Rightarrow> Inl e | None \<Rightarrow> x_read X query args (db_data D))"

subsection \<open>Arguments and rows\<close>

record 'v NamedValue =
  nv_Name :: string
  nv_Ordinal :: int
  nv_Value :: 'v

definition namedToAny :: "'v NamedValue list \<Rightarrow> 'v list" where
  "namedToAny args = map nv_Value args"

fun valuesToNamed_from :: "nat \<Rightarrow> 'v list \<Rightarrow> 'v NamedValue list" where
  "valuesToNamed_from i [] = []"
| "valuesToNamed_from i (v # vs) =
     \<lparr> nv_Name = [], nv_Ordinal = int i + 1, nv_Value = v \<rparr> # valuesToNamed_from (i + 1) vs"

definition valuesToNamed :: "'v list \<Rightarrow> 'v NamedValue list" where
  "valuesToNamed args = valuesToNamed_from 0 args"

record 'v wrappedRows =
  wr_sqlRows :: "'v rows"
  wr_cols :: "string list"

definition newWrappedRows :: "'v rows \<Rightarrow> 'v wrappedRows result" where
  "newWrappedRows rs =
     (case rw_cols rs of Inl e \<Rightarrow> Inl e | Inr cols \<Rightarrow> Inr \<lparr> wr_sqlRows = rs, wr_cols = cols \<rparr>)"

text \<open>\<open>Next\<close> with a destination of \<open>n\<close> values: the values, or the error.\<close>

definition wrapped_Next :: "nat \<Rightarrow> 'v wrappedRows \<Rightarrow> 'v list result \<times> 'v wrappedRows" where
  "wrapped_Next n r =
     (case rw_rows (wr_sqlRows r) of
        [] \<Rightarrow> (Inl (case rw_err (wr_sqlRows r) of Some e \<Rightarrow> e | None \<Rightarrow> EOF), r)
      | row # rest \<Rightarrow>
          let r = r\<lparr>wr_sqlRows := (wr_sqlRows r)\<lparr>rw_rows := rest\<rparr>\<rparr> in
          if length row \<noteq> n
          then (Inl (ErrText (''sql: expected '' @ fmt_d (int (length row)) @ '' destination arguments in Scan, not '' @
                       fmt_d (int n))), r)
          else (Inr row, r))"

definition wrapped_Columns :: "'v wrappedRows \<Rightarrow> string list" where
  "wrapped_Columns r = wr_cols r"

subsection \<open>Connections\<close>

record colmenaConn =
  cc_store :: store
  cc_activeTx :: "nat option"

text \<open>\<open>Connect\<close> opens the store on first use.\<close>

definition connector_Connect ::
  "'s hook option \<Rightarrow> sql_env \<Rightarrow> string \<Rightarrow> storeManager \<Rightarrow> pools \<Rightarrow> 's \<Rightarrow>
   colmenaConn result \<times> storeManager \<times> pools \<times> 's" where
  "connector_Connect onOpen E dbName sm P s =
     (case sm_get onOpen E dbName sm P s of
        (Inl e, rest) \<Rightarrow> (Inl e, rest)
      | (Inr st, rest) \<Rightarrow> (Inr \<lparr> cc_store = st, cc_activeTx = None \<rparr>, rest))"

definition driver_Open :: "string \<Rightarrow> colmenaConn result" where
  "driver_Open name = Inl (ErrText ''colmena: use Node.DB() or Node.OpenDB() instead of sql.Open'')"

record TxOptions =
  to_Isolation :: int
  to_ReadOnly :: bool

definition conn_BeginTx ::
  "error option \<Rightarrow> TxOptions \<Rightarrow> colmenaConn \<Rightarrow> 'd database \<Rightarrow> (error option \<times> colmenaConn \<times> 'd database) option" where
  "conn_BeginTx fault opts c D =
     (if cc_activeTx c \<noteq> None then Some (Some (ErrText ''colmena: nested transactions not supported''), c, D)
      else
        case writer_BeginTx fault D of
          None \<Rightarrow> None
        | Some (Inl e, D) \<Rightarrow> Some (Some e, c, D)
        | Some (Inr tx, D) \<Rightarrow> Some (None, c\<lparr>cc_activeTx := Some tx\<rparr>, D))"

definition conn_Begin ::
  "error option \<Rightarrow> colmenaConn \<Rightarrow> 'd database \<Rightarrow> (error option \<times> colmenaConn \<times> 'd database) option" where
  "conn_Begin fault c D = conn_BeginTx fault \<lparr> to_Isolation = 0, to_ReadOnly = False \<rparr> c D"

definition conn_ExecContext ::
  "('d, 'v) engine \<Rightarrow> error option \<Rightarrow> string \<Rightarrow> 'v NamedValue list \<Rightarrow> colmenaConn \<Rightarrow> 'd database \<Rightarrow>
   (sql_result result \<times> 'd database) option" where
  "conn_ExecContext X fault query args c D =
     (let iArgs = namedToAny args in
      case cc_activeTx c of
        Some t \<Rightarrow> Some (in_tx fault t (x_exec X query iArgs) D)
      | None \<Rightarrow> writer_Exec X fault query iArgs D)"

definition conn_QueryContext ::
  "('d, 'v) engine \<Rightarrow> error option \<Rightarrow> string \<Rightarrow> 'v NamedValue list \<Rightarrow> colmenaConn \<Rightarrow> 'd database \<Rightarrow>
   'v wrappedRows result \<times> 'd database" where
  "conn_QueryContext X fault query args c D =
     (let iArgs = namedToAny args in
      case (case cc_activeTx c of
              Some t \<Rightarrow> in_tx fault t (x_query X query iArgs) D
            | None \<Rightarrow> (reader_Query X fault query iArgs D, D)) of
        (Inl e, D) \<Rightarrow> (Inl e, D)
      | (Inr rows, D) \<Rightarrow> (newWrappedRows rows, D))"

definition tx_completed :: error where
  "tx_completed = ErrText ''colmena: transaction already completed''"

definition tx_Commit ::
  "error option \<Rightarrow> colmenaConn \<Rightarrow> 'd database \<Rightarrow> error option \<times> colmenaConn \<times> 'd database" where
  "tx_Commit fault c D =
     (case cc_activeTx c of
        None \<Rightarrow> (Some tx_completed, c, D)
      | Some t \<Rightarrow> (case sqltx_Commit fault t D of (err, D) \<Rightarrow> (err, c\<lparr>cc_activeTx := None\<rparr>, D)))"

definition tx_Rollback ::
  "error option \<Rightarrow> colmenaConn \<Rightarrow> 'd database \<Rightarrow> error option \<times> colmenaConn \<times> 'd database" where
  "tx_Rollback fault c D =
     (case cc_activeTx c of
        None \<Rightarrow> (Some tx_completed, c, D)
      | Some t \<Rightarrow> (case sqltx_Rollback fault t D of (err, D) \<Rightarrow> (err, c\<lparr>cc_activeTx := None\<rparr>, D)))"

definition conn_Close :: "error option \<Rightarrow> colmenaConn \<Rightarrow> 'd database \<Rightarrow> colmenaConn \<times> 'd database" where
  "conn_Close fault c D =
     (case cc_activeTx c of
        None \<Rightarrow> (c, D)
      | Some t \<Rightarrow> (c\<lparr>cc_activeTx := None\<rparr>, snd (sqltx_Rollback fault t D)))"

subsection \<open>Statements\<close>

record colmenaStmt =
  cs_conn :: nat
  cs_query :: string

definition conn_Prepare :: "nat \<Rightarrow> string \<Rightarrow> colmenaStmt" where
  "conn_Prepare k query = \<lparr> cs_conn = k, cs_query = query \<rparr>"

definition stmt_Exec ::
  "('d, 'v) engine \<Rightarrow> error option \<Rightarrow> colmenaStmt \<Rightarrow> 'v list \<Rightarrow> (nat \<Rightarrow> colmenaConn) \<Rightarrow> 'd database \<Rightarrow>
   (sql_result result \<times> 'd database) option" where
  "stmt_Exec X fault s args conns D =
     conn_ExecContext X fault (cs_query s) (valuesToNamed args) (conns (cs_conn s)) D"

definition stmt_Query ::
  "('d, 'v) engine \<Rightarrow> error option \<Rightarrow> colmenaStmt \<Rightarrow> 'v list \<Rightarrow> (nat \<Rightarrow> colmenaConn) \<Rightarrow> 'd database \<Rightarrow>
   'v wrappedRows result \<times> 'd database" where
  "stmt_Query X fault s args conns D =
     conn_QueryContext X fault (cs_query s) (valuesToNamed args) (conns (cs_conn s)) D"

definition stmt_NumInput :: int where
  "stmt_NumInput = -1"

text \<open>A statement is the call it stands for: its arguments come through unchanged.\<close>

lemma namedToAny_valuesToNamed [simp]: "namedToAny (valuesToNamed args) = args"
proof -
  have "map nv_Value (valuesToNamed_from i args) = args" for i by (induction args arbitrary: i) simp_all
  then show ?thesis by (simp add: namedToAny_def valuesToNamed_def)
qed

text \<open>Rows come out as they are, in order, then the error of the query or the end.\<close>

fun drain :: "nat \<Rightarrow> 'v wrappedRows \<Rightarrow> nat \<Rightarrow> 'v list list \<times> error option" where
  "drain n r 0 = ([], None)"
| "drain n r (Suc fuel) =
     (case wrapped_Next n r of
        (Inl e, r) \<Rightarrow> ([], Some e)
      | (Inr row, r) \<Rightarrow> (case drain n r fuel of (rows, e) \<Rightarrow> (row # rows, e)))"

lemma drain_rows:
  assumes "\<forall>row \<in> set (rw_rows (wr_sqlRows r)). length row = n" and "length (rw_rows (wr_sqlRows r)) < fuel"
  shows "drain n r fuel =
    (rw_rows (wr_sqlRows r), Some (case rw_err (wr_sqlRows r) of Some e \<Rightarrow> e | None \<Rightarrow> EOF))"
  using assms
proof (induction "rw_rows (wr_sqlRows r)" arbitrary: r fuel)
  case Nil
  then obtain f where "fuel = Suc f" by (cases fuel) auto
  then show ?case using Nil(1) [symmetric] by (simp add: wrapped_Next_def)
next
  case (Cons row rest)
  then obtain f where f: "fuel = Suc f" by (cases fuel) auto
  let ?r = "r\<lparr>wr_sqlRows := (wr_sqlRows r)\<lparr>rw_rows := rest\<rparr>\<rparr>"
  have "drain n ?r f = (rest, Some (case rw_err (wr_sqlRows ?r) of Some e \<Rightarrow> e | None \<Rightarrow> EOF))"
    using Cons(1) [of ?r f] Cons(2) [symmetric] Cons(3,4) f by simp
  then show ?case using Cons(2) [symmetric] Cons(3) f by (simp add: wrapped_Next_def Let_def)
qed

end
