(* ===== verification/Driver_Tx.thy ===== *)
theory Driver_Tx
  imports Driver
begin

text \<open>
  Transactions of the driver: any interleaving of the calls of any number of connections of one
  store. A transaction is atomic and isolated, and each of its calls reports a transaction that
  is over.
\<close>

subsection \<open>Calls\<close>

datatype 'v call =
    CallBegin nat
  | CallExec nat string "'v NamedValue list"
  | CallQuery nat string "'v NamedValue list"
  | CallCommit nat
  | CallRollback nat
  | CallClose nat
  | Expire

datatype 'v answer =
    Done "error option"
  | Execed "sql_result result"
  | Queried "'v wrappedRows result"

type_synonym 'd conns = "(nat \<Rightarrow> colmenaConn) \<times> 'd database"

text \<open>One call with what goes wrong in it; \<open>Expire\<close> is the context of the open transaction ending,
  upon which \<open>database/sql\<close> rolls it back.\<close>

fun call_step ::
  "('d, 'v) engine \<Rightarrow> 'v call \<times> error option \<Rightarrow> 'd conns \<Rightarrow> ('v answer \<times> 'd conns) option" where
  "call_step X (CallBegin k, f) (cs, D) =
     map_option (\<lambda>(e, c, D). (Done e, cs(k := c), D)) (conn_Begin f (cs k) D)"
| "call_step X (CallExec k q args, f) (cs, D) =
     map_option (\<lambda>(r, D). (Execed r, cs, D)) (conn_ExecContext X f q args (cs k) D)"
| "call_step X (CallQuery k q args, f) (cs, D) =
     (case conn_QueryContext X f q args (cs k) D of (r, D) \<Rightarrow> Some (Queried r, cs, D))"
| "call_step X (CallCommit k, f) (cs, D) =
     (case tx_Commit f (cs k) D of (e, c, D) \<Rightarrow> Some (Done e, cs(k := c), D))"
| "call_step X (CallRollback k, f) (cs, D) =
     (case tx_Rollback f (cs k) D of (e, c, D) \<Rightarrow> Some (Done e, cs(k := c), D))"
| "call_step X (CallClose k, f) (cs, D) =
     (case conn_Close f (cs k) D of (c, D) \<Rightarrow> Some (Done None, cs(k := c), D))"
| "call_step X (Expire, f) (cs, D) = Some (Done None, cs, D\<lparr>db_tx := None\<rparr>)"

fun run_calls ::
  "('d, 'v) engine \<Rightarrow> ('v call \<times> error option) list \<Rightarrow> 'd conns \<Rightarrow> ('v answer list \<times> 'd conns) option" where
  "run_calls X [] w = Some ([], w)"
| "run_calls X (c # cs) w =
     (case call_step X c w of
        None \<Rightarrow> None
      | Some (a, w) \<Rightarrow> map_option (\<lambda>(as, w). (a # as, w)) (run_calls X cs w))"

text \<open>A store just opened, with connections nobody has used yet.\<close>

definition fresh_conns :: "store \<Rightarrow> 'd \<Rightarrow> 'd conns" where
  "fresh_conns st d =
     ((\<lambda>_. \<lparr> cc_store = st, cc_activeTx = None \<rparr>), \<lparr> db_data = d, db_tx = None, db_next = 0 \<rparr>)"

subsection \<open>Transactions have names of their own\<close>

text \<open>No two connections hold the same transaction, and none holds one not begun yet.\<close>

definition tx_names :: "'d conns \<Rightarrow> bool" where
  "tx_names w \<longleftrightarrow>
     (\<forall>k t. cc_activeTx (fst w k) = Some t \<longrightarrow> t < db_next (snd w)) \<and>
     (\<forall>j k t. cc_activeTx (fst w j) = Some t \<longrightarrow> cc_activeTx (fst w k) = Some t \<longrightarrow> j = k) \<and>
     (\<forall>t d. db_tx (snd w) = Some (t, d) \<longrightarrow> t < db_next (snd w))"

lemmas driver_defs = conn_Begin_def conn_BeginTx_def writer_BeginTx_def conn_ExecContext_def writer_Exec_def
  conn_QueryContext_def reader_Query_def in_tx_def tx_Commit_def tx_Rollback_def sqltx_Commit_def sqltx_Rollback_def
  conn_Close_def Let_def

lemma tx_names_step:
  assumes "call_step X cf w = Some (a, w')" and "tx_names w"
  shows "tx_names w'"
proof -
  obtain c f cs D where w: "w = (cs, D)" "cf = (c, f)" by (metis prod.exhaust)
  show ?thesis
    using assms unfolding w
    by (cases c) (fastforce simp: driver_defs tx_names_def split: option.splits if_splits prod.splits sum.splits)+
qed

lemma tx_names_run: "run_calls X cs w = Some (as, w') \<Longrightarrow> tx_names w \<Longrightarrow> tx_names w'"
  by (induction cs arbitrary: w as) (auto split: option.splits prod.splits dest: tx_names_step)

lemma tx_names_fresh: "tx_names (fresh_conns st d)"
  by (simp add: tx_names_def fresh_conns_def)

subsection \<open>Inside a transaction\<close>

text \<open>The statements a connection got through, and what they make of the contents.\<close>

fun own_calls :: "nat \<Rightarrow> ('v call \<times> error option) list \<Rightarrow> (bool \<times> string \<times> 'v list) list" where
  "own_calls k [] = []"
| "own_calls k ((CallExec j q args, None) # cs) =
     (if j = k then (False, q, namedToAny args) # own_calls k cs else own_calls k cs)"
| "own_calls k ((CallQuery j q args, None) # cs) =
     (if j = k then (True, q, namedToAny args) # own_calls k cs else own_calls k cs)"
| "own_calls k (c # cs) = own_calls k cs"

definition sql_apply :: "('d, 'v) engine \<Rightarrow> 'd \<Rightarrow> bool \<times> string \<times> 'v list \<Rightarrow> 'd" where
  "sql_apply X d s = (case s of (isQuery, q, args) \<Rightarrow> if isQuery then snd (x_query X q args d) else snd (x_exec X q args d))"

definition stays_open :: "nat \<Rightarrow> ('v call \<times> error option) list \<Rightarrow> bool" where
  "stays_open k cs \<longleftrightarrow> (\<forall>c \<in> fst ` set cs. c \<noteq> CallCommit k \<and> c \<noteq> CallRollback k \<and> c \<noteq> CallClose k \<and> c \<noteq> Expire)"

text \<open>Connection \<open>k\<close> is in the transaction \<open>t\<close>, which sees \<open>d\<close>.\<close>

definition holds_tx :: "nat \<Rightarrow> nat \<Rightarrow> 'd \<Rightarrow> 'd \<Rightarrow> 'd conns \<Rightarrow> bool" where
  "holds_tx k t d0 d w \<longleftrightarrow>
     cc_activeTx (fst w k) = Some t \<and> db_tx (snd w) = Some (t, d) \<and> db_data (snd w) = d0 \<and> tx_names w"

text \<open>Nothing another connection does shows in the committed contents or in the transaction.\<close>

lemma holds_tx_step:
  assumes "call_step X cf w = Some (a, w')" and "holds_tx k t d0 d w" and "stays_open k [cf]"
  shows "holds_tx k t d0 (foldl (sql_apply X) d (own_calls k [cf])) w'"
proof -
  obtain c f cs D where w: "w = (cs, D)" "cf = (c, f)" by (metis prod.exhaust)
  have names: "tx_names w'" using tx_names_step [OF assms(1)] assms(2) by (simp add: holds_tx_def)
  have H: "cc_activeTx (cs k) = Some t" "db_tx D = Some (t, d)" "db_data D = d0"
    "\<And>j. j \<noteq> k \<Longrightarrow> cc_activeTx (cs j) \<noteq> Some t"
    using assms(2) by (auto simp: holds_tx_def tx_names_def w)
  have "cc_activeTx (fst w' k) = Some t \<and> db_tx (snd w') = Some (t, foldl (sql_apply X) d (own_calls k [cf])) \<and>
      db_data (snd w') = d0"
  proof (cases c)
    case (CallBegin j)
    then show ?thesis using assms(1) H unfolding w
      by (cases "j = k"; cases f; cases "cc_activeTx (cs j)") (auto simp: driver_defs split: option.splits if_splits)
  next
    case (CallExec j q args)
    then show ?thesis using assms(1) H unfolding w
      by (cases f; cases "j = k") (auto simp: driver_defs sql_apply_def split: option.splits if_splits prod.splits)
  next
    case (CallQuery j q args)
    then show ?thesis using assms(1) H unfolding w
      by (cases f; cases "j = k") (auto simp: driver_defs sql_apply_def split: option.splits if_splits prod.splits sum.splits)
  next
    case (CallCommit j)
    then have "j \<noteq> k" using assms(3) by (auto simp: stays_open_def w)
    then show ?thesis using CallCommit assms(1) H unfolding w
      by (auto simp: driver_defs split: option.splits if_splits prod.splits)
  next
    case (CallRollback j)
    then have "j \<noteq> k" using assms(3) by (auto simp: stays_open_def w)
    then show ?thesis using CallRollback assms(1) H unfolding w
      by (auto simp: driver_defs split: option.splits if_splits prod.splits)
  next
    case (CallClose j)
    then have "j \<noteq> k" using assms(3) by (auto simp: stays_open_def w)
    then show ?thesis using CallClose assms(1) H unfolding w
      by (auto simp: driver_defs split: option.splits if_splits prod.splits)
  next
    case Expire
    then show ?thesis using assms(3) by (simp add: stays_open_def w)
  qed
  then show ?thesis using names by (simp add: holds_tx_def)
qed

lemma own_calls_Cons: "own_calls k (c # cs) = own_calls k [c] @ own_calls k cs"
  by (cases "(k, [c])" rule: own_calls.cases) auto

lemma holds_tx_run:
  assumes "run_calls X cs w = Some (as, w')" and "holds_tx k t d0 d w" and "stays_open k cs"
  shows "holds_tx k t d0 (foldl (sql_apply X) d (own_calls k cs)) w'"
  using assms
proof (induction cs arbitrary: w as d)
  case (Cons c cs)
  obtain a w1 as1 where s: "call_step X c w = Some (a, w1)" "run_calls X cs w1 = Some (as1, w')"
    using Cons.prems(1) by (auto split: option.splits prod.splits)
  have o: "stays_open k [c]" "stays_open k cs" using Cons.prems(3) by (auto simp: stays_open_def)
  from Cons.IH [OF s(2) holds_tx_step [OF s(1) Cons.prems(2) o(1)] o(2)] show ?case
    by (subst own_calls_Cons) simp
qed simp

text \<open>What a connection without a transaction reads meanwhile.\<close>

definition committed_answer :: "('d, 'v) engine \<Rightarrow> string \<Rightarrow> 'v NamedValue list \<Rightarrow> 'd \<Rightarrow> 'v answer" where
  "committed_answer X q args d =
     Queried (case x_read X q (namedToAny args) d of Inl e \<Rightarrow> Inl e | Inr rows \<Rightarrow> newWrappedRows rows)"

lemma other_query:
  assumes "call_step X (CallQuery j q args, None) w = Some (a, w')" and "holds_tx k t d0 d w" and "j \<noteq> k"
  shows "a = committed_answer X q args d0 \<or> a = Queried (Inl ErrTxDone)"
proof -
  obtain cs D where w: "w = (cs, D)" by fastforce
  have H: "db_tx D = Some (t, d)" "db_data D = d0" "cc_activeTx (cs j) \<noteq> Some t"
    using assms(2,3) by (auto simp: holds_tx_def tx_names_def w)
  show ?thesis
    using assms(1) H unfolding w
    by (cases "cc_activeTx (cs j)") (auto simp: driver_defs committed_answer_def split: sum.splits)
qed

lemma other_queries:
  assumes "run_calls X cs w = Some (as, w')" and "holds_tx k t d0 d w" and "stays_open k cs"
    and "((CallQuery j q args, None), a) \<in> set (zip cs as)" and "j \<noteq> k"
  shows "a = committed_answer X q args d0 \<or> a = Queried (Inl ErrTxDone)"
  using assms(1-4)
proof (induction cs arbitrary: w as d)
  case (Cons c cs)
  obtain b w1 as1 where s: "call_step X c w = Some (b, w1)" "run_calls X cs w1 = Some (as1, w')" "as = b # as1"
    using Cons.prems(1) by (auto split: option.splits prod.splits)
  have o: "stays_open k [c]" "stays_open k cs" using Cons.prems(3) by (auto simp: stays_open_def)
  show ?case
  proof (cases "c = (CallQuery j q args, None) \<and> b = a")
    case True
    then show ?thesis using other_query [OF _ Cons.prems(2) assms(5)] s(1) by blast
  next
    case False
    then show ?thesis
      using Cons.IH [OF s(2) holds_tx_step [OF s(1) Cons.prems(2) o(1)] o(2)] Cons.prems(4) s(3) by auto
  qed
qed simp

subsection \<open>A database to run on\<close>

text \<open>The contents are the statements executed so far; a query answers with one row for each.\<close>

definition eng_ex :: "(string list, string) engine" where
  "eng_ex = \<lparr> x_exec = (\<lambda>q args d. (Inr (0, 1), d @ [q])),
     x_query = (\<lambda>q args d. (Inr \<lparr> rw_cols = Inr [''s''], rw_rows = map (\<lambda>x. [x]) d, rw_err = None \<rparr>, d)),
     x_read = (\<lambda>q args d. Inr \<lparr> rw_cols = Inr [''s''], rw_rows = map (\<lambda>x. [x]) d, rw_err = None \<rparr>) \<rparr>"

definition db_store_ex :: store where
  "db_store_ex = \<lparr> so_dbPath = ''data/default.db'', so_writer = 0, so_reader = 1, so_readConns = 4 \<rparr>"

abbreviation begun_ex :: "string list conns" where
  "begun_ex \<equiv> ((fst (fresh_conns db_store_ex ([] :: string list)))(0 := \<lparr> cc_store = db_store_ex, cc_activeTx = Some 0 \<rparr>),
     \<lparr> db_data = [], db_tx = Some (0, []), db_next = 1 \<rparr>)"

lemma begin_ex: "call_step eng_ex (CallBegin 0, None) (fresh_conns db_store_ex []) = Some (Done None, begun_ex)"
  by (simp add: fresh_conns_def driver_defs)

subsection \<open>Properties\<close>

text \<open>C8. A transaction is atomic and isolated. Once a connection has begun one, in any state that
  calls lead to, whatever calls of any connections come before it ends: the committed contents
  stay; a query of another connection answers from them (or reports a transaction of its own
  that is over); a commit then makes them what the connection's statements, in order, make of
  what it began with, and a rollback, even one that reports an error, leaves them.\<close>

theorem transaction_atomic:
  assumes "run_calls X before (fresh_conns st d) = Some (as0, w)"
    and "call_step X (CallBegin k, None) w = Some (Done None, w0)"
    and "run_calls X cs w0 = Some (as, w1)" and "stays_open k cs"
  shows "db_data (snd w1) = db_data (snd w) \<and>
    (((CallQuery j q args, None), a) \<in> set (zip cs as) \<and> j \<noteq> k \<longrightarrow>
       a = committed_answer X q args (db_data (snd w)) \<or> a = Queried (Inl ErrTxDone)) \<and>
    (\<exists>w2. call_step X (CallCommit k, None) w1 = Some (Done None, w2) \<and>
       db_data (snd w2) = foldl (sql_apply X) (db_data (snd w)) (own_calls k cs)) \<and>
    (\<exists>w2. call_step X (CallRollback k, f) w1 = Some (Done f, w2) \<and> db_data (snd w2) = db_data (snd w))"
proof -
  obtain c0 D0 where w: "w = (c0, D0)" by fastforce
  have "tx_names w0" using tx_names_step [OF assms(2) tx_names_run [OF assms(1) tx_names_fresh]] .
  then obtain t where h: "holds_tx k t (db_data D0) (db_data D0) w0"
    using assms(2) by (auto simp: w holds_tx_def driver_defs split: option.splits if_splits prod.splits)
  note H = holds_tx_run [OF assms(3) h assms(4)]
  obtain c1 D1 where w1: "w1 = (c1, D1)" by fastforce
  show ?thesis
    using H other_queries [OF assms(3) h assms(4)]
    by (auto simp: w w1 holds_tx_def driver_defs)
qed

theorem transaction_atomic_witness:
  "\<exists>as w1 w2. run_calls eng_ex [(CallExec 0 ''a'' [], None), (CallQuery 1 ''q'' [], None), (CallExec 0 ''b'' [], None)]
       begun_ex = Some (as, w1) \<and>
     call_step eng_ex (CallCommit 0, None) w1 = Some (Done None, w2) \<and> db_data (snd w2) = [''a'', ''b'']"
proof -
  let ?cs = "[(CallExec 0 ''a'' [], None), (CallQuery 1 ''q'' [], None), (CallExec 0 ''b'' [], None)]
    :: (string call \<times> error option) list"
  have "\<exists>as w1. run_calls eng_ex ?cs begun_ex = Some (as, w1)"
    by (simp add: fresh_conns_def driver_defs eng_ex_def newWrappedRows_def)
  then obtain as w1 where r: "run_calls eng_ex ?cs begun_ex = Some (as, w1)" by blast
  have "stays_open 0 ?cs" by (simp add: stays_open_def)
  from transaction_atomic [of eng_ex "[]" db_store_ex "[]" "[]" _ 0 _ _ _ _ 1 "''q''" "[]" "Done None" None, OF run_calls.simps(1) begin_ex r this] obtain w2 where
    w2: "call_step eng_ex (CallCommit 0, None) w1 = Some (Done None, w2)"
    "db_data (snd w2) = foldl (sql_apply eng_ex) [] (own_calls 0 ?cs)"
    by (auto simp: fresh_conns_def)
  have "foldl (sql_apply eng_ex) [] (own_calls 0 ?cs) = [''a'', ''b'']" by (simp add: sql_apply_def eng_ex_def)
  with w2(2) have "db_data (snd w2) = [''a'', ''b'']" by (rule trans)
  with r w2(1) show ?thesis by blast
qed

text \<open>C21. The protocol of a transaction, on every state: nesting is refused; once a commit or
  rollback was called, whatever it answered, a second one answers that the transaction is over
  and changes nothing; a transaction whose context ended refuses every statement, and its commit
  fails and leaves the contents.\<close>

theorem transaction_protocol:
  assumes "end_call \<in> {CallCommit k, CallRollback k}" and "end_call' \<in> {CallCommit k, CallRollback k}"
    and "call_step X (end_call, f) w = Some (a, w1)"
  shows "call_step X (end_call', f') w1 = Some (Done (Some tx_completed), w1) \<and>
    (cc_activeTx (fst w k) \<noteq> None \<longrightarrow>
       call_step X (CallBegin k, f) w = Some (Done (Some (ErrText ''colmena: nested transactions not supported'')), w) \<and>
       (\<exists>w2. call_step X (Expire, None) w = Some (Done None, w2) \<and> db_data (snd w2) = db_data (snd w) \<and>
          call_step X (CallExec k q args, f) w2 = Some (Execed (Inl ErrTxDone), w2) \<and>
          call_step X (CallQuery k q args, f) w2 = Some (Queried (Inl ErrTxDone), w2) \<and>
          (\<exists>w3. call_step X (end_call', f) w2 = Some (Done (Some ErrTxDone), w3) \<and> db_data (snd w3) = db_data (snd w))))"
proof -
  obtain cs D where w: "w = (cs, D)" by fastforce
  have "\<exists>D'. w1 = (cs(k := (cs k)\<lparr>cc_activeTx := None\<rparr>), D')"
    using assms(1,3) unfolding w
    by (cases "cc_activeTx (cs k)") (auto simp: driver_defs fun_upd_idem split: option.splits if_splits prod.splits)
  then show ?thesis
    using assms(2) unfolding w by (auto simp: driver_defs)
qed

theorem transaction_protocol_witness:
  "\<exists>w1. call_step eng_ex (CallCommit 0, None) begun_ex = Some (Done None, w1) \<and>
     call_step eng_ex (CallRollback 0, None) w1 = Some (Done (Some tx_completed), w1)"
proof -
  have "\<exists>w1. call_step eng_ex (CallCommit 0, None) begun_ex = Some (Done None, w1)" by (simp add: driver_defs)
  then obtain w1 where c: "call_step eng_ex (CallCommit 0, None) begun_ex = Some (Done None, w1)" by blast
  with transaction_protocol [OF _ _ c, of 0 "CallRollback 0" None] show ?thesis by auto
qed

text \<open>The options of \<open>BeginTx\<close> are not looked at: a transaction asked to be read-only writes.\<close>

lemma read_only_tx_writes:
  "\<exists>c D r D'. conn_BeginTx None \<lparr> to_Isolation = 0, to_ReadOnly = True \<rparr> (fst (fresh_conns db_store_ex []) 0)
       (snd (fresh_conns db_store_ex [])) = Some (None, c, D) \<and>
     conn_ExecContext eng_ex None ''insert'' [] c D = Some (Inr r, D') \<and>
     db_data (snd (snd (tx_Commit None c D'))) = [''insert'']"
  by (simp add: fresh_conns_def driver_defs eng_ex_def)

end
