(* ===== verification/Alert.thy ===== *)
theory Alert
  imports Go_Fmt
begin

text \<open>
  The e-mail alerter (\<open>alert.go\<close>): every engine error is logged, and mailed at most once an hour for
  each database. The clock, the construction of the request and the answer of the mail service
  are the environment of a call; the state is the log and the table of last mails.
\<close>

subsection \<open>JSON\<close>

text \<open>Strings as \<open>json.Marshal\<close> writes them, with the HTML characters escaped.\<close>

definition json_char :: "char \<Rightarrow> string" where
  "json_char c =
     (let n = char_code c; esc = (\<lambda>d. [CHR 0x5C, d]) in
      if n = 0x22 \<or> n = 0x5C then esc c
      else if n = 8 then esc (CHR ''b'')
      else if n = 12 then esc (CHR ''f'')
      else if n = 10 then esc (CHR ''n'')
      else if n = 13 then esc (CHR ''r'')
      else if n = 9 then esc (CHR ''t'')
      else if n < 32 \<or> c = CHR ''<'' \<or> c = CHR ''>'' \<or> c = CHR ''&''
      then esc (CHR ''u'') @ ''00'' @ [hexd (n div 16), hexd (n mod 16)]
      else [c])"

definition json_string :: "string \<Rightarrow> string" where
  "json_string s = [CHR 0x22] @ concat (map json_char s) @ [CHR 0x22]"

text \<open>A map is written with its keys in order; they are given in order here.\<close>

definition json_object :: "(string \<times> string) list \<Rightarrow> string" where
  "json_object kvs = ''{'' @ join '','' (map (\<lambda>(k, v). json_string k @ '':'' @ v) kvs) @ ''}''"

subsection \<open>The alerter\<close>

record alert_config =
  al_apiKey :: string
  al_from :: string
  al_to :: string
  al_service :: string

record alerter =
  al_lastSent :: "string \<Rightarrow> instant"
  al_log :: "string list"

definition NewResendAlerter :: alerter where
  "NewResendAlerter = \<lparr> al_lastSent = (\<lambda>_. zero_time), al_log = [] \<rparr>"

text \<open>The two readings of the clock, the outcome of \<open>http.NewRequest\<close>, and the status answered.\<close>

record alert_env =
  ae_since :: instant
  ae_now :: instant
  ae_req :: "error option"
  ae_resp :: "int result"

record mail =
  ml_method :: string
  ml_url :: string
  ml_headers :: "(string \<times> string) list"
  ml_body :: string

definition hour :: duration where "hour = 3600000000000"

text \<open>\<open>time.Since\<close>, which stops at the ends of a duration.\<close>

definition time_Since :: "instant \<Rightarrow> instant \<Rightarrow> duration" where
  "time_Since now t = max i64_min (min i64_max (now - t))"

definition alert_body :: "alert_config \<Rightarrow> string \<Rightarrow> error \<Rightarrow> string" where
  "alert_body c db err =
     (let nl = [CHR 0x0A] in
      json_object
        [(''from'', json_string (al_from c)),
         (''subject'', json_string (''['' @ al_service c @ ''] backup engine error ('' @ db @ '')'')),
         (''text'', json_string
            (''The continuous backup engine reported an error and will keep retrying.'' @ nl @ nl @
             ''service: '' @ al_service c @ nl @ ''database: '' @ db @ nl @ ''error: '' @ err_text err @ nl @ nl @
             ''Check: journalctl -u '' @ al_service c @ '' | grep -i backup'')),
         (''to'', ''['' @ json_string (al_to c) @ '']'')])"

definition alert_logs :: "string \<Rightarrow> alerter \<Rightarrow> alerter" where
  "alert_logs s a = a\<lparr>al_log := al_log a @ [s]\<rparr>"

text \<open>One error; the mail that is sent, if one is.\<close>

definition alert_error :: "alert_config \<Rightarrow> alert_env \<Rightarrow> string \<Rightarrow> error \<Rightarrow> alerter \<Rightarrow> mail option \<times> alerter" where
  "alert_error c E db err a =
     (let a = alert_logs (al_service c @ '': BACKUP ERROR db='' @ db @ '': '' @ err_text err) a in
      if al_apiKey c = [] \<or> al_to c = [] then (None, a)
      else if time_Since (ae_since E) (al_lastSent a db) < hour then (None, a)
      else
        let a = a\<lparr>al_lastSent := (al_lastSent a)(db := ae_now E)\<rparr>; body = alert_body c db err in
        case ae_req E of
          Some _ \<Rightarrow> (None, a)
        | None \<Rightarrow>
            (Some \<lparr> ml_method = ''POST'', ml_url = ''https://api.resend.com/emails'',
                    ml_headers = [(''Authorization'', ''Bearer '' @ al_apiKey c), (''Content-Type'', ''application/json'')],
                    ml_body = body \<rparr>,
             (case ae_resp E of
                Inl sendErr \<Rightarrow> alert_logs (al_service c @ '': backup alert email failed: '' @ err_text sendErr) a
              | Inr st \<Rightarrow> if 300 \<le> st then alert_logs (al_service c @ '': backup alert email status '' @ fmt_d st) a
                          else a)))"

subsection \<open>A sequence of errors\<close>

record alert_call =
  ac_env :: alert_env
  ac_db :: string
  ac_err :: error
  ac_mail :: "mail option"

fun run_alerts :: "alert_config \<Rightarrow> alert_call list \<Rightarrow> alerter \<Rightarrow> alert_call list \<times> alerter" where
  "run_alerts c [] a = ([], a)"
| "run_alerts c (x # xs) a =
     (case alert_error c (ac_env x) (ac_db x) (ac_err x) a of
        (m, a) \<Rightarrow> (case run_alerts c xs a of (ys, a) \<Rightarrow> (x\<lparr>ac_mail := m\<rparr> # ys, a)))"

lemma since_hour: "time_Since now t < hour \<longleftrightarrow> now - t < hour"
  by (auto simp: time_Since_def hour_def i64_min_def i64_max_def)

lemma hour_pos: "0 < hour"
  by (simp add: hour_def)

lemma alert_logs_simps [simp]:
  "al_lastSent (alert_logs s a) = al_lastSent a" "al_log (alert_logs s a) = al_log a @ [s]"
  by (simp_all add: alert_logs_def)

lemma alert_error_sent:
  assumes "alert_error c E db err a = (m, a')"
  shows "(m \<noteq> None \<longrightarrow> al_lastSent a db + hour \<le> ae_since E \<and> al_lastSent a' db = ae_now E) \<and>
    (ae_since E \<le> ae_now E \<longrightarrow> (\<forall>d. al_lastSent a d \<le> al_lastSent a' d)) \<and>
    al_log a @ [al_service c @ '': BACKUP ERROR db='' @ db @ '': '' @ err_text err] =
      take (Suc (length (al_log a))) (al_log a') \<and>
    (al_apiKey c \<noteq> [] \<longrightarrow> al_to c \<noteq> [] \<longrightarrow> ae_req E = None \<longrightarrow> al_lastSent a db + hour \<le> ae_since E \<longrightarrow> m \<noteq> None)"
  using assms
  using hour_pos
  by (auto simp: alert_error_def Let_def since_hour split: if_splits option.splits sum.splits)

text \<open>What a call does to the times of the last mails.\<close>

lemma alert_error_stamp:
  assumes "alert_error c E db err a = (m, a')" and "ae_req E = None"
  shows "al_lastSent a' d = (if m \<noteq> None \<and> d = db then ae_now E else al_lastSent a d)"
  using assms by (auto simp: alert_error_def Let_def split: if_splits sum.splits)

lemma run_alerts_split:
  assumes "\<forall>x \<in> set xs. ae_since (ac_env x) \<le> ae_now (ac_env x)" and "fst (run_alerts c xs a) = ps @ y # ys"
  shows "(ac_mail y \<noteq> None \<longrightarrow> al_lastSent a (ac_db y) + hour \<le> ae_since (ac_env y) \<and>
      (\<forall>x \<in> set ps. ac_db x = ac_db y \<longrightarrow> ac_mail x \<noteq> None \<longrightarrow> ae_now (ac_env x) + hour \<le> ae_since (ac_env y))) \<and>
    (al_apiKey c \<noteq> [] \<longrightarrow> al_to c \<noteq> [] \<longrightarrow> (\<forall>x \<in> set (ps @ [y]). ae_req (ac_env x) = None) \<longrightarrow>
      al_lastSent a (ac_db y) + hour \<le> ae_since (ac_env y) \<longrightarrow>
      (\<forall>x \<in> set ps. ac_db x = ac_db y \<longrightarrow> ac_mail x \<noteq> None \<longrightarrow> ae_now (ac_env x) + hour \<le> ae_since (ac_env y)) \<longrightarrow>
      ac_mail y \<noteq> None)"
  using assms
proof (induction xs arbitrary: a ps)
  case (Cons x xs)
  obtain m a1 where e: "alert_error c (ac_env x) (ac_db x) (ac_err x) a = (m, a1)" by fastforce
  note S = alert_error_sent [OF e]
  have split: "x\<lparr>ac_mail := m\<rparr> # fst (run_alerts c xs a1) = ps @ y # ys"
    using Cons.prems(2) by (simp add: e split: prod.splits)
  show ?case
  proof (cases ps)
    case Nil
    then have "y = x\<lparr>ac_mail := m\<rparr>" using split by simp
    then show ?thesis using S Nil by auto
  next
    case (Cons z ps')
    then have z: "z = x\<lparr>ac_mail := m\<rparr>" and "fst (run_alerts c xs a1) = ps' @ y # ys" using split by simp_all
    note IH = Cons.IH [OF _ this(2)]
    have le: "al_lastSent a (ac_db y) \<le> al_lastSent a1 (ac_db y)" using S Cons.prems(1) by simp
    have eq: "al_lastSent a1 (ac_db y) = (if m \<noteq> None \<and> ac_db y = ac_db x then ae_now (ac_env x) else al_lastSent a (ac_db y))"
      if "ae_req (ac_env x) = None" using alert_error_stamp [OF e that] .
    have st: "al_lastSent a1 (ac_db y) = ae_now (ac_env x)" if "m \<noteq> None" "ac_db x = ac_db y" using S that by simp
    show ?thesis using IH Cons.prems(1) le st eq unfolding \<open>ps = z # ps'\<close> z by (auto split: if_splits)
  qed
qed simp

text \<open>C24. Mails at most once an hour for each database, and never fewer: in any sequence of errors of any
  databases, with a service key and a recipient, an error is mailed exactly when every earlier mail
  about the same database was stamped at least an hour before; mails about the other databases do
  not matter. (A request that cannot be built stamps the database without a mail, so the part
  that promises a mail is for requests that can be built.)\<close>

theorem alert_hourly:
  assumes "\<forall>x \<in> set xs. 0 \<le> ae_since (ac_env x) \<and> ae_since (ac_env x) \<le> ae_now (ac_env x)"
    and "fst (run_alerts c xs NewResendAlerter) = ps @ y # ys"
  shows "(ac_mail y \<noteq> None \<longrightarrow>
      (\<forall>x \<in> set ps. ac_db x = ac_db y \<and> ac_mail x \<noteq> None \<longrightarrow> ae_now (ac_env x) + hour \<le> ae_since (ac_env y))) \<and>
    (al_apiKey c \<noteq> [] \<and> al_to c \<noteq> [] \<and> (\<forall>x \<in> set (ps @ [y]). ae_req (ac_env x) = None) \<and>
      (\<forall>x \<in> set ps. ac_db x = ac_db y \<and> ac_mail x \<noteq> None \<longrightarrow> ae_now (ac_env x) + hour \<le> ae_since (ac_env y)) \<longrightarrow>
      ac_mail y \<noteq> None)"
proof -
  have "ac_env y \<in> ac_env ` set xs"
  proof -
    have "map ac_env (fst (run_alerts c xs a)) = map ac_env xs" for a
      by (induction xs arbitrary: a) (simp_all split: prod.splits, metis fst_conv)
    from this [of NewResendAlerter] assms(2) show ?thesis
      by (metis (no_types, lifting) image_eqI in_set_conv_decomp list.set_map)
  qed
  then have "al_lastSent NewResendAlerter (ac_db y) + hour \<le> ae_since (ac_env y)"
    using assms(1) by (auto simp: NewResendAlerter_def zero_time_def hour_def)
  then show ?thesis using run_alerts_split [OF _ assms(2)] assms(1) by auto
qed

definition alert_ex :: alert_config where
  "alert_ex = \<lparr> al_apiKey = ''k'', al_from = ''a@x'', al_to = ''b@x'', al_service = ''app'' \<rparr>"

definition call_ex :: "instant \<Rightarrow> alert_call" where
  "call_ex t = \<lparr> ac_env = \<lparr> ae_since = t, ae_now = t, ae_req = None, ae_resp = Inr 200 \<rparr>, ac_db = ''default'',
     ac_err = ErrText ''down'', ac_mail = None \<rparr>"

lemma run_alerts_Cons: "\<exists>m a'. fst (run_alerts c (x # xs) a) = x\<lparr>ac_mail := m\<rparr> # fst (run_alerts c xs a')"
proof -
  obtain m a' where "alert_error c (ac_env x) (ac_db x) (ac_err x) a = (m, a')" by fastforce
  then show ?thesis by (intro exI [of _ m] exI [of _ a']) (simp split: prod.split)
qed

lemma run_alerts_Nil: "fst (run_alerts c [] a) = []"
  by simp

text \<open>The second database's first error is mailed a nanosecond after a mail about the first.\<close>

theorem alert_hourly_witness:
  "map (\<lambda>x. ac_mail x \<noteq> None) (fst (run_alerts alert_ex
     [call_ex 0, call_ex 1, (call_ex 1)\<lparr>ac_db := ''jobs''\<rparr>, call_ex hour] NewResendAlerter)) = [True, False, True, True]"
proof -
  let ?xs = "[call_ex 0, call_ex 1, (call_ex 1)\<lparr>ac_db := ''jobs''\<rparr>, call_ex hour]"
  obtain m1 m2 m3 m4 where r: "fst (run_alerts alert_ex ?xs NewResendAlerter) =
      [(call_ex 0)\<lparr>ac_mail := m1\<rparr>, (call_ex 1)\<lparr>ac_mail := m2\<rparr>, (call_ex 1)\<lparr>ac_db := ''jobs'', ac_mail := m3\<rparr>, (call_ex hour)\<lparr>ac_mail := m4\<rparr>]"
    (is "_ = [?y1, ?y2, ?y3, ?y4]")
  proof -
    obtain m1 a1 where 1: "fst (run_alerts alert_ex ?xs NewResendAlerter) = (call_ex 0)\<lparr>ac_mail := m1\<rparr> #
        fst (run_alerts alert_ex (tl ?xs) a1)" using run_alerts_Cons by (simp only: list.sel) blast
    obtain m2 a2 where 2: "fst (run_alerts alert_ex (tl ?xs) a1) = (call_ex 1)\<lparr>ac_mail := m2\<rparr> #
        fst (run_alerts alert_ex (tl (tl ?xs)) a2)" using run_alerts_Cons by (simp only: list.sel) blast
    obtain m3 a3 where 3: "fst (run_alerts alert_ex (tl (tl ?xs)) a2) = (call_ex 1)\<lparr>ac_db := ''jobs''\<rparr>\<lparr>ac_mail := m3\<rparr> #
        fst (run_alerts alert_ex (tl (tl (tl ?xs))) a3)" using run_alerts_Cons by (simp only: list.sel) blast
    obtain m4 a4 where 4: "fst (run_alerts alert_ex (tl (tl (tl ?xs))) a3) = (call_ex hour)\<lparr>ac_mail := m4\<rparr> #
        fst (run_alerts alert_ex [] a4)" using run_alerts_Cons by (simp only: list.sel) blast
    show thesis using that 1 [unfolded 2 3 4] by simp
  qed
  have e: "\<forall>x \<in> set ?xs. 0 \<le> ae_since (ac_env x) \<and> ae_since (ac_env x) \<le> ae_now (ac_env x)"
    by (simp add: call_ex_def hour_def)
  have f: "ac_env (call_ex t) = \<lparr>ae_since = t, ae_now = t, ae_req = None, ae_resp = Inr 200\<rparr>" "ac_db (call_ex t) = ''default''" for t
    by (simp_all add: call_ex_def)
  note k = alert_ex_def f hour_pos
  have "m1 \<noteq> None" using alert_hourly [OF e, of alert_ex "[]" ?y1 "[?y2, ?y3, ?y4]"] r by (simp add: k)
  moreover have "m2 = None"
    using alert_hourly [OF e, of alert_ex "[?y1]" ?y2 "[?y3, ?y4]"] r \<open>m1 \<noteq> None\<close> by (simp add: k hour_def)
  moreover have "m3 \<noteq> None" using alert_hourly [OF e, of alert_ex "[?y1, ?y2]" ?y3 "[?y4]"] r by (simp add: k)
  moreover have "m4 \<noteq> None"
    using alert_hourly [OF e, of alert_ex "[?y1, ?y2, ?y3]" ?y4 "[]"] r \<open>m2 = None\<close> by (simp add: k)
  ultimately show ?thesis unfolding r by simp
qed

text \<open>A mail that could not be delivered is not tried again within the hour either.\<close>

lemma failed_mail_counts:
  "map (\<lambda>x. ac_mail x \<noteq> None) (fst (run_alerts alert_ex
     [(call_ex 0)\<lparr>ac_env := (ac_env (call_ex 0))\<lparr>ae_resp := Inl (ErrEnv ''no route'')\<rparr>\<rparr>, call_ex (hour - 1)] NewResendAlerter)) =
   [True, False]"
  by (simp add: call_ex_def alert_error_def alert_ex_def time_Since_def i64_min_def i64_max_def NewResendAlerter_def
      zero_time_def hour_def Let_def)

end
