(* ===== verification/Jobs_Id.thy ===== *)
theory Jobs_Id
  imports Wal Go_Text
begin

text \<open>
  Job identifiers (\<open>newID\<close> in \<open>jobs/id.go\<close>): 48 bits of time and 80 random bits, written as 26
  characters of Crockford's base 32. The encoder is kept as the shifts and masks of the code;
  it is proved to be the base-32 expansion of the 128-bit number, from which order and
  uniqueness follow.
\<close>

unbundle bit_operations_syntax

definition crockfordAlphabet :: string where
  "crockfordAlphabet = ''0123456789ABCDEFGHJKMNPQRSTVWXYZ''"

definition enc_char :: "byte \<Rightarrow> char" where
  "enc_char x = crockfordAlphabet ! unat x"

text \<open>\<open>binary.BigEndian.PutUint64\<close>.\<close>

definition be_bytes64 :: "64 word \<Rightarrow> bytes" where
  "be_bytes64 x = map (\<lambda>i. ucast (drop_bit (56 - 8 * i) x)) [0 ..< 8]"

text \<open>The encoding of the 16 bytes \<open>raw\<close>.\<close>

definition id_digits :: "bytes \<Rightarrow> bytes" where
  "id_digits raw =
     [drop_bit 5 (raw ! 0 AND 0xE0),
      raw ! 0 AND 0x1F,
      drop_bit 3 (raw ! 1 AND 0xF8),
      push_bit 2 (raw ! 1 AND 0x07) OR drop_bit 6 (raw ! 2 AND 0xC0),
      drop_bit 1 (raw ! 2 AND 0x3E),
      push_bit 4 (raw ! 2 AND 0x01) OR drop_bit 4 (raw ! 3 AND 0xF0),
      push_bit 1 (raw ! 3 AND 0x0F) OR drop_bit 7 (raw ! 4 AND 0x80),
      drop_bit 2 (raw ! 4 AND 0x7C),
      push_bit 3 (raw ! 4 AND 0x03) OR drop_bit 5 (raw ! 5 AND 0xE0),
      raw ! 5 AND 0x1F,
      drop_bit 3 (raw ! 6 AND 0xF8),
      push_bit 2 (raw ! 6 AND 0x07) OR drop_bit 6 (raw ! 7 AND 0xC0),
      drop_bit 1 (raw ! 7 AND 0x3E),
      push_bit 4 (raw ! 7 AND 0x01) OR drop_bit 4 (raw ! 8 AND 0xF0),
      push_bit 1 (raw ! 8 AND 0x0F) OR drop_bit 7 (raw ! 9 AND 0x80),
      drop_bit 2 (raw ! 9 AND 0x7C),
      push_bit 3 (raw ! 9 AND 0x03) OR drop_bit 5 (raw ! 10 AND 0xE0),
      raw ! 10 AND 0x1F,
      drop_bit 3 (raw ! 11 AND 0xF8),
      push_bit 2 (raw ! 11 AND 0x07) OR drop_bit 6 (raw ! 12 AND 0xC0),
      drop_bit 1 (raw ! 12 AND 0x3E),
      push_bit 4 (raw ! 12 AND 0x01) OR drop_bit 4 (raw ! 13 AND 0xF0),
      push_bit 1 (raw ! 13 AND 0x0F) OR drop_bit 7 (raw ! 14 AND 0x80),
      drop_bit 2 (raw ! 14 AND 0x7C),
      push_bit 3 (raw ! 14 AND 0x03) OR drop_bit 5 (raw ! 15 AND 0xE0),
      raw ! 15 AND 0x1F]"

text \<open>\<open>ms\<close> is the clock in milliseconds, \<open>rnd\<close> the 10 bytes \<open>rand.Read\<close> put into \<open>raw[6:]\<close>.\<close>

definition raw_id :: "64 word \<Rightarrow> bytes \<Rightarrow> bytes" where
  "raw_id ms rnd = take 6 (be_bytes64 (push_bit 16 ms)) @ rnd"

definition newID :: "64 word \<Rightarrow> bytes \<Rightarrow> string" where
  "newID ms rnd = map enc_char (id_digits (raw_id ms rnd))"

subsection \<open>The digits, arithmetically\<close>

lemma and_mask_nat: "unat (x AND mask n) = unat x mod 2 ^ n" for x :: byte
proof -
  have "unat (x AND mask n) = unat (take_bit n x)" by (simp only: take_bit_eq_mask)
  also have "\<dots> = take_bit n (unat x)" by (rule unsigned_take_bit_eq)
  also have "\<dots> = unat x mod 2 ^ n" by (rule take_bit_eq_mod)
  finally show ?thesis .
qed

lemma drop_bit_mask: "drop_bit k (x AND m) = drop_bit k x AND drop_bit k m" for x :: byte
  by (simp add: drop_bit_and)

lemma masks:
  "(0x1F :: byte) = mask 5" "(0x07 :: byte) = mask 3" "(0x01 :: byte) = mask 1" "(0x0F :: byte) = mask 4"
  "(0x03 :: byte) = mask 2" "drop_bit 5 (0xE0 :: byte) = mask 3" "drop_bit 3 (0xF8 :: byte) = mask 5"
  "drop_bit 6 (0xC0 :: byte) = mask 2" "drop_bit 4 (0xF0 :: byte) = mask 4" "drop_bit 7 (0x80 :: byte) = mask 1"
  "drop_bit 1 (0x3E :: byte) = mask 5" "drop_bit 2 (0x7C :: byte) = mask 5"
  by (simp_all add: mask_eq_exp_minus_1)

lemma unat_drop: "unat (drop_bit k x) = unat x div 2 ^ k" for x :: byte
  by (rule trans [OF unat_drop_bit_eq drop_bit_eq_div])

lemma high_bits:
  "unat (drop_bit 5 (x AND 0xE0)) = unat x div 32" "unat (drop_bit 3 (x AND 0xF8)) = unat x div 8"
  "unat (drop_bit 6 (x AND 0xC0)) = unat x div 64" "unat (drop_bit 4 (x AND 0xF0)) = unat x div 16"
  "unat (drop_bit 7 (x AND 0x80)) = unat x div 128" "unat (drop_bit 1 (x AND 0x3E)) = unat x div 2 mod 32"
  "unat (drop_bit 2 (x AND 0x7C)) = unat x div 4 mod 32"
  for x :: byte
proof -
  have l: "unat x < 256" using unsigned_less [of x, where ?'a = nat] by simp
  show "unat (drop_bit 5 (x AND 0xE0)) = unat x div 32" "unat (drop_bit 3 (x AND 0xF8)) = unat x div 8"
  "unat (drop_bit 6 (x AND 0xC0)) = unat x div 64" "unat (drop_bit 4 (x AND 0xF0)) = unat x div 16"
  "unat (drop_bit 7 (x AND 0x80)) = unat x div 128" "unat (drop_bit 1 (x AND 0x3E)) = unat x div 2 mod 32"
  "unat (drop_bit 2 (x AND 0x7C)) = unat x div 4 mod 32"
    unfolding drop_bit_mask masks and_mask_nat unat_drop using l by (simp_all add: div_less_iff_less_mult)
qed

lemma low_bits:
  "unat (x AND 0x1F) = unat x mod 32" "unat (x AND 0x07) = unat x mod 8" "unat (x AND 0x01) = unat x mod 2"
  "unat (x AND 0x0F) = unat x mod 16" "unat (x AND 0x03) = unat x mod 4"
  for x :: byte
  unfolding masks and_mask_nat by simp_all

text \<open>A digit made of the low bits of one byte and the high bits of the next.\<close>

lemma unat_join:
  fixes a b :: byte
  assumes "unat b < 2 ^ j" and "unat a * 2 ^ j < 256"
  shows "unat (push_bit j a OR b) = unat a * 2 ^ j + unat b"
proof -
  have p: "unat (push_bit j a) = unat a * 2 ^ j"
    unfolding unsigned_push_bit_eq using assms(2) by (simp add: push_bit_eq_mult take_bit_nat_eq_self)
  have "unat (push_bit j a OR b) = unat (push_bit j a) OR unat b" by (rule unsigned_or_eq)
  also have "\<dots> = push_bit j (unat a) OR take_bit j (unat b)"
  proof -
    have "take_bit j (unat b) = unat b" using assms(1) by (rule take_bit_nat_eq_self)
    moreover have "push_bit j (unat a) = unat a * 2 ^ j" by (rule push_bit_eq_mult)
    ultimately show ?thesis by (simp only: p)
  qed
  also have "\<dots> = push_bit j (unat a) + take_bit j (unat b)"
    by (rule disjunctive_add_eq_or [symmetric]) (auto simp: bit_eq_iff bit_simps)
  also have "\<dots> = unat a * 2 ^ j + unat b"
    using assms(1) by (simp add: push_bit_eq_mult take_bit_nat_eq_self)
  finally show ?thesis .
qed

lemma joined_bits:
  "unat (push_bit 2 (x AND 0x07) OR drop_bit 6 (y AND 0xC0)) = unat x mod 8 * 4 + unat y div 64"
  "unat (push_bit 4 (x AND 0x01) OR drop_bit 4 (y AND 0xF0)) = unat x mod 2 * 16 + unat y div 16"
  "unat (push_bit 1 (x AND 0x0F) OR drop_bit 7 (y AND 0x80)) = unat x mod 16 * 2 + unat y div 128"
  "unat (push_bit 3 (x AND 0x03) OR drop_bit 5 (y AND 0xE0)) = unat x mod 4 * 8 + unat y div 32"
  for x y :: byte
proof -
  have l: "unat y < 256" using unsigned_less [of y, where ?'a = nat] by simp
  have m: "unat x mod k < k" if "0 < k" for k using that by simp
  show "unat (push_bit 2 (x AND 0x07) OR drop_bit 6 (y AND 0xC0)) = unat x mod 8 * 4 + unat y div 64"
    using unat_join [of "drop_bit 6 (y AND 0xC0)" 2 "x AND 0x07", unfolded high_bits low_bits] l m [of 8]
    by (simp add: div_less_iff_less_mult)
  show "unat (push_bit 4 (x AND 0x01) OR drop_bit 4 (y AND 0xF0)) = unat x mod 2 * 16 + unat y div 16"
    using unat_join [of "drop_bit 4 (y AND 0xF0)" 4 "x AND 0x01", unfolded high_bits low_bits] l m [of 2]
    by (simp add: div_less_iff_less_mult)
  show "unat (push_bit 1 (x AND 0x0F) OR drop_bit 7 (y AND 0x80)) = unat x mod 16 * 2 + unat y div 128"
    using unat_join [of "drop_bit 7 (y AND 0x80)" 1 "x AND 0x0F", unfolded high_bits low_bits] l m [of 16]
    by (simp add: div_less_iff_less_mult)
  show "unat (push_bit 3 (x AND 0x03) OR drop_bit 5 (y AND 0xE0)) = unat x mod 4 * 8 + unat y div 32"
    using unat_join [of "drop_bit 5 (y AND 0xE0)" 3 "x AND 0x03", unfolded high_bits low_bits] l m [of 4]
    by (simp add: div_less_iff_less_mult)
qed

subsection \<open>Values in a base\<close>

definition val :: "nat \<Rightarrow> nat \<Rightarrow> nat list \<Rightarrow> nat" where
  "val B a ds = foldl (\<lambda>acc d. acc * B + d) a ds"

lemma val_simps [simp]: "val B a [] = a" "val B a (d # ds) = val B (a * B + d) ds"
  by (simp_all add: val_def)

lemma val_append: "val B a (xs @ ys) = val B (val B a xs) ys"
  by (simp add: val_def)

lemma val_acc: "val B a ds = a * B ^ length ds + val B 0 ds"
proof (induction ds arbitrary: a)
  case (Cons d ds)
  from Cons [of "a * B + d"] Cons [of d] show ?case by (simp add: algebra_simps)
qed simp

lemma val_bound: "\<forall>d \<in> set ds. d < B \<Longrightarrow> val B 0 ds < B ^ length ds"
proof (induction ds)
  case (Cons d ds)
  then have "val B 0 ds < B ^ length ds" "d + 1 \<le> B" by simp_all
  moreover from this(2) have "(d + 1) * B ^ length ds \<le> B * B ^ length ds" by (rule mult_right_mono) simp
  ultimately show ?case using val_acc [of B d ds] by simp
qed simp

lemma leading_le:
  assumes "u < P" and "v < P" and "x * P + u \<le> y * P + (v :: nat)"
  shows "x \<le> y"
proof (rule ccontr)
  assume "\<not> x \<le> y"
  then have "(y + 1) * P \<le> x * P" by (intro mult_right_mono) simp_all
  with assms show False by simp
qed

text \<open>Digits of the same length compare like their values.\<close>

lemma val_less_lex:
  assumes "length xs = length ys" and "\<forall>d \<in> set xs. d < B" and "\<forall>d \<in> set ys. d < B"
    and "\<And>i j. i < j \<Longrightarrow> j < B \<Longrightarrow> f i < (f j :: char)"
    and "val B 0 xs < val B 0 ys"
  shows "map f xs < map f ys"
  using assms(1-3,5)
proof (induction xs ys rule: list_induct2)
  case (Cons x xs y ys)
  have b: "val B 0 xs < B ^ length xs" "val B 0 ys < B ^ length xs"
    using val_bound [of xs B] val_bound [of ys B] Cons.prems Cons.hyps by simp_all
  have v: "x * B ^ length xs + val B 0 xs < y * B ^ length xs + val B 0 ys"
    using Cons.prems(3) Cons.hyps val_acc [of B x xs] val_acc [of B y ys] by simp
  have "x \<le> y" using leading_le [OF b] v by simp
  then consider "x < y" | "x = y" by linarith
  then show ?case
  proof cases
    case 1
    then show ?thesis using assms(4) [of x y] Cons.prems by simp
  next
    case 2
    then show ?thesis using Cons.IH v Cons.prems by simp
  qed
qed simp

lemma val_inj:
  assumes "length xs = length ys" and "\<forall>d \<in> set xs. d < B" and "\<forall>d \<in> set ys. d < B"
    and "val B 0 xs = val B 0 ys"
  shows "xs = ys"
  using assms
proof (induction xs ys rule: list_induct2)
  case (Cons x xs y ys)
  have b: "val B 0 xs < B ^ length xs" "val B 0 ys < B ^ length xs"
    using val_bound [of xs B] val_bound [of ys B] Cons.prems Cons.hyps by simp_all
  have v: "x * B ^ length xs + val B 0 xs = y * B ^ length xs + val B 0 ys"
    using Cons.prems(3) Cons.hyps val_acc [of B x xs] val_acc [of B y ys] by simp
  have "x \<le> y" by (rule leading_le [OF b]) (use v in simp)
  moreover have "y \<le> x" by (rule leading_le [OF b(2,1)]) (use v in simp)
  ultimately have "x = y" by (rule antisym)
  with v Cons show ?case by simp
qed simp

subsection \<open>The encoder is the base-32 expansion\<close>

lemma group_pieces:
  "(((((((A * 32 + a1) * 32 + (a2 * 4 + b1)) * 32 + b2) * 32 + (b3 * 16 + c1)) * 32 +
     (c2 * 2 + d1)) * 32 + d2) * 32 + (d3 * 8 + e1)) * 32 + e2 =
   ((((A * 256 + (a1 * 8 + a2)) * 256 + (b1 * 64 + b2 * 2 + b3)) * 256 + (c1 * 16 + c2)) * 256 +
     (d1 * 128 + d2 * 4 + d3)) * 256 + (e1 * 32 + e2 :: nat)"
  by (simp add: algebra_simps)

lemma three_pieces: "x div (k * 32) * (k * 32) + x div k mod 32 * k + x mod k = (x :: nat)"
proof -
  have p: "p * (k * 32) + m * k = (p * 32 + m) * k" for p m :: nat by (simp add: algebra_simps)
  show ?thesis unfolding div_mult2_eq [of x k 32] p div_mult_mod_eq ..
qed

lemma group_value:
  "(((((((A * 32 + a div 8) * 32 + (a mod 8 * 4 + b div 64)) * 32 + b div 2 mod 32) * 32 +
     (b mod 2 * 16 + c div 16)) * 32 + (c mod 16 * 2 + d div 128)) * 32 + d div 4 mod 32) * 32 +
     (d mod 4 * 8 + e div 32)) * 32 + e mod 32 =
   ((((A * 256 + a) * 256 + b) * 256 + c) * 256 + d) * 256 + (e :: nat)"
  using three_pieces [of b 2] three_pieces [of d 4] by (simp only: group_pieces div_mult_mod_eq) simp

lemma id_digits_value:
  assumes "length raw = 16"
  shows "val 32 0 (map unat (id_digits raw)) = val 256 0 (map unat raw)"
proof -
  from assms obtain r0 r1 r2 r3 r4 r5 r6 r7 r8 r9 r10 r11 r12 r13 r14 r15 where
    r: "raw = [r0, r1, r2, r3, r4, r5, r6, r7, r8, r9, r10, r11, r12, r13, r14, r15]"
    by (auto simp: length_Suc_conv eval_nat_numeral)
  have n:
    "raw ! 0 = r0" "raw ! 1 = r1" "raw ! 2 = r2" "raw ! 3 = r3"
    "raw ! 4 = r4" "raw ! 5 = r5" "raw ! 6 = r6" "raw ! 7 = r7"
    "raw ! 8 = r8" "raw ! 9 = r9" "raw ! 10 = r10" "raw ! 11 = r11"
    "raw ! 12 = r12" "raw ! 13 = r13" "raw ! 14 = r14" "raw ! 15 = r15"
    by (simp_all add: r)
  have h: "unat r0 div 32 * 32 + unat r0 mod 32 = unat r0" by simp
  show ?thesis
    unfolding id_digits_def n
    by (simp only: r list.map val_simps high_bits low_bits joined_bits mult_0 add_0 h group_value)
qed

lemma id_digits_length: "length (id_digits raw) = 26"
  by (simp add: id_digits_def)

lemma id_digits_small: "\<forall>d \<in> set (map unat (id_digits raw)). d < 32"
proof -
  have y: "unat x div 64 < 4" "unat x div 16 < 16" "unat x div 128 < 2" "unat x div 32 < 8" "unat x div 8 < 32"
    for x :: byte
    using unsigned_less [of x, where ?'a = nat] by (simp_all add: div_less_iff_less_mult)
  have m: "k mod 8 < 8" "k mod 2 < 2" "k mod 16 < 16" "k mod 4 < 4" for k :: nat by simp_all
  have j: "a mod 8 * 4 + unat x div 64 < 32" "a mod 2 * 16 + unat x div 16 < 32"
    "a mod 16 * 2 + unat x div 128 < 32" "a mod 4 * 8 + unat x div 32 < 32" "unat x div 32 < 32"
    for a and x :: byte
    using y [of x] m [of a] by linarith+
  have "list_all (\<lambda>d. d < 32) (map unat (id_digits raw))"
    unfolding id_digits_def
    by (simp only: list.map list.pred_inject high_bits low_bits joined_bits)
      (intro conjI TrueI j y(5) mod_less_divisor zero_less_numeral)
  then show ?thesis by (simp only: list_all_iff)
qed

subsection \<open>The time part\<close>

lemma be_bytes64_take: "take 6 (be_bytes64 x) =
  [ucast (drop_bit 56 x), ucast (drop_bit 48 x), ucast (drop_bit 40 x), ucast (drop_bit 32 x),
   ucast (drop_bit 24 x), ucast (drop_bit 16 x)]"
  by (simp add: be_bytes64_def upt_rec)

lemma unat_byte: "unat (ucast (drop_bit k x) :: byte) = unat x div 2 ^ k mod 256" for x :: "64 word"
proof -
  have "unat (ucast (drop_bit k x) :: byte) = take_bit 8 (unat (drop_bit k x))"
    by (simp only: unsigned_ucast_eq) simp
  also have "unat (drop_bit k x) = unat x div 2 ^ k"
    by (rule trans [OF unat_drop_bit_eq drop_bit_eq_div])
  finally show ?thesis by (simp add: take_bit_eq_mod)
qed

lemma six_bytes:
  assumes "y < 256 ^ 6"
  shows "((((y div 256 ^ 5 mod 256 * 256 + y div 256 ^ 4 mod 256) * 256 + y div 256 ^ 3 mod 256) * 256 +
    y div 256 ^ 2 mod 256) * 256 + y div 256 mod 256) * 256 + y mod 256 = (y :: nat)"
proof -
  define z where "z k = y div 256 ^ k" for k
  have s: "z j * 256 + z k mod 256 = z k" if "j = k + 1" for j k
  proof -
    have "z j = z k div 256"
      unfolding that z_def power_add power_one_right by (rule div_mult2_eq)
    then show ?thesis by (simp only: div_mult_mod_eq)
  qed
  have "y div 256 ^ 5 < 256" using assms by (simp add: div_less_iff_less_mult)
  then have "z 5 mod 256 = z 5" by (simp add: z_def)
  moreover have "z 5 * 256 + z 4 mod 256 = z 4" "z 4 * 256 + z 3 mod 256 = z 3"
    "z 3 * 256 + z 2 mod 256 = z 2" "z 2 * 256 + z 1 mod 256 = z 1" "z 1 * 256 + z 0 mod 256 = z 0"
    by (rule s, simp)+
  ultimately have "((((z 5 mod 256 * 256 + z 4 mod 256) * 256 + z 3 mod 256) * 256 + z 2 mod 256) * 256 +
      z 1 mod 256) * 256 + z 0 mod 256 = z 0"
    by (simp only:)
  then show ?thesis by (simp only: z_def power_0 power_one_right div_by_1)
qed

lemma time_value:
  assumes "unat ms < 2 ^ 48"
  shows "val 256 0 (map unat (take 6 (be_bytes64 (push_bit 16 ms)))) = unat ms"
proof -
  have p: "unat (push_bit 16 ms) = unat ms * 2 ^ 16"
    unfolding unsigned_push_bit_eq using assms by (simp add: push_bit_eq_mult take_bit_nat_eq_self)
  have d: "unat ms * 2 ^ 16 div 2 ^ (16 + k) = unat ms div 2 ^ k" for k
    by (simp add: power_add)
  have "unat (push_bit 16 ms) div 2 ^ 56 = unat ms div 256 ^ 5" "unat (push_bit 16 ms) div 2 ^ 48 = unat ms div 256 ^ 4"
    "unat (push_bit 16 ms) div 2 ^ 40 = unat ms div 256 ^ 3" "unat (push_bit 16 ms) div 2 ^ 32 = unat ms div 256 ^ 2"
    "unat (push_bit 16 ms) div 2 ^ 24 = unat ms div 256" "unat (push_bit 16 ms) div 2 ^ 16 = unat ms"
    unfolding p using d [of 40] d [of 32] d [of 24] d [of 16] d [of 8] d [of 0] by simp_all
  then show ?thesis
    unfolding be_bytes64_take list.map unat_byte val_simps
    using six_bytes [of "unat ms"] assms by simp
qed

subsection \<open>Order and uniqueness\<close>

lemma alphabet_mono:
  assumes "i < j" and "j < 32"
  shows "crockfordAlphabet ! i < crockfordAlphabet ! j"
proof -
  have "sorted_wrt (<) (map of_char crockfordAlphabet :: nat list)" by (simp add: crockfordAlphabet_def)
  then have "sorted_wrt (<) crockfordAlphabet" by (simp add: sorted_wrt_map less_char_def [abs_def])
  then show ?thesis
    by (rule sorted_wrt_nth_less) (use assms in \<open>simp_all add: crockfordAlphabet_def\<close>)
qed

lemma newID_digits: "newID ms rnd = map (nth crockfordAlphabet) (map unat (id_digits (raw_id ms rnd)))"
  by (simp add: newID_def enc_char_def [abs_def])

lemma raw_id_value:
  assumes "unat ms < 2 ^ 48" and "length rnd = 10"
  shows "val 32 0 (map unat (id_digits (raw_id ms rnd))) = unat ms * 256 ^ 10 + val 256 0 (map unat rnd)"
    and "val 256 0 (map unat rnd) < 256 ^ 10"
proof -
  have l: "length (raw_id ms rnd) = 16" using assms(2) by (simp add: raw_id_def be_bytes64_def)
  have "val 256 0 (map unat (raw_id ms rnd)) = val 256 (unat ms) (map unat rnd)"
    unfolding raw_id_def map_append val_append time_value [OF assms(1)] ..
  also have "\<dots> = unat ms * 256 ^ 10 + val 256 0 (map unat rnd)"
    using val_acc [of 256 "unat ms" "map unat rnd"] assms(2) by (simp only: length_map)
  finally show "val 32 0 (map unat (id_digits (raw_id ms rnd))) = unat ms * 256 ^ 10 + val 256 0 (map unat rnd)"
    by (simp only: id_digits_value [OF l])
  have "\<forall>d \<in> set (map unat rnd). d < 256"
    using unsigned_less [where ?'a = nat and ?'b = 8] by auto
  from val_bound [OF this] show "val 256 0 (map unat rnd) < 256 ^ 10" using assms(2) by (simp only: length_map)
qed

lemma newID_length [simp]: "length (newID ms rnd) = 26"
  by (simp add: newID_def id_digits_length)

lemma id_digits_same_length: "length (map unat (id_digits r)) = length (map unat (id_digits s))"
  by (simp add: id_digits_length)

text \<open>Ids of different milliseconds compare as strings the way the clock values compare, so
  ids sort by creation time; the clock must be below \<open>2 ^ 48\<close> ms (the year 10889).\<close>

lemma newID_sortable:
  assumes "ms1 < ms2" and "unat ms2 < 2 ^ 48" and "length r1 = 10" and "length r2 = 10"
  shows "newID ms1 r1 < newID ms2 r2"
proof -
  have lt: "unat ms1 < unat ms2" using assms(1) by (simp add: word_less_nat_alt)
  then have m1: "unat ms1 < 2 ^ 48" using assms(2) by (rule less_trans)
  note v1 = raw_id_value [OF m1 assms(3)] and v2 = raw_id_value [OF assms(2,4)]
  have step: "a * P + u < b * P + w" if "a < b" "u < P" for a b u w P :: nat
  proof -
    have "(a + 1) * P \<le> b * P" using that(1) by (intro mult_right_mono) simp_all
    with that(2) show ?thesis by simp
  qed
  have "val 32 0 (map unat (id_digits (raw_id ms1 r1))) < val 32 0 (map unat (id_digits (raw_id ms2 r2)))"
    unfolding v1(1) v2(1) using lt v1(2) by (rule step)
  then show ?thesis
    unfolding newID_digits
    by (intro val_less_lex [OF id_digits_same_length id_digits_small id_digits_small alphabet_mono])
qed

lemma newID_sortable_witness:
  "newID 1700000000000 (replicate 10 255) < newID 1700000000001 (replicate 10 0)"
  by (rule newID_sortable) simp_all

text \<open>An id determines its millisecond and its 80 random bits: two ids are equal only when
  both were drawn equal, so no entropy is lost by the encoding.\<close>

theorem newID_injective:
  assumes "unat ms1 < 2 ^ 48" and "unat ms2 < 2 ^ 48" and "length r1 = 10" and "length r2 = 10"
  shows "newID ms1 r1 = newID ms2 r2 \<longleftrightarrow> ms1 = ms2 \<and> r1 = r2"
proof (rule iffI)
  assume eq: "newID ms1 r1 = newID ms2 r2"
  note v1 = raw_id_value [OF assms(1,3)] and v2 = raw_id_value [OF assms(2,4)]
  let ?d1 = "map unat (id_digits (raw_id ms1 r1))" and ?d2 = "map unat (id_digits (raw_id ms2 r2))"
  have inj: "inj_on (nth crockfordAlphabet) (set ?d1 \<union> set ?d2)"
  proof (rule inj_onI, rule ccontr)
    fix i j
    assume "i \<in> set ?d1 \<union> set ?d2" "j \<in> set ?d1 \<union> set ?d2"
      and e: "crockfordAlphabet ! i = crockfordAlphabet ! j" and "i \<noteq> j"
    then have "i < 32" "j < 32" "i < j \<or> j < i" using id_digits_small by auto
    with e alphabet_mono [of i j] alphabet_mono [of j i] show False by auto
  qed
  have "?d1 = ?d2" using eq unfolding newID_digits by (simp only: inj_on_map_eq_map [OF inj])
  then have "unat ms1 * 256 ^ 10 + val 256 0 (map unat r1) = unat ms2 * 256 ^ 10 + val 256 0 (map unat r2)"
    using v1(1) v2(1) by (simp only:)
  note eq2 = this
  have "unat ms1 \<le> unat ms2" by (rule leading_le [OF v1(2) v2(2) eq_refl [OF eq2]])
  moreover have "unat ms2 \<le> unat ms1" by (rule leading_le [OF v2(2) v1(2) eq_refl [OF eq2 [symmetric]]])
  ultimately have m: "unat ms1 = unat ms2" by (rule antisym)
  with eq2 have r: "val 256 0 (map unat r1) = val 256 0 (map unat r2)" by (simp only: add_left_cancel)
  have b: "\<forall>d \<in> set (map unat r). d < 256" for r :: bytes
    using unsigned_less [where ?'a = nat and ?'b = 8] by auto
  have "map unat r1 = map unat r2"
    by (rule val_inj [OF _ b b r]) (simp add: assms(3,4))
  then have "r1 = r2" by (rule map_injective) (rule injI, erule unsigned_word_eqI)
  then show "ms1 = ms2 \<and> r1 = r2" using unsigned_word_eqI [OF m] by simp
qed simp

theorem newID_injective_witness:
  "newID 1700000000000 (replicate 10 7) \<noteq> newID 1700000000000 (replicate 10 8)"
  by (subst newID_injective) simp_all

end
