(* ===== verification/Jobs_Retry.thy ===== *)
theory Jobs_Retry
  imports Prelude
begin

text \<open>
  Retry delays (\<open>jobs/retry.go\<close>): exponential backoff with full jitter. Durations are 64-bit
  nanosecond counts, so the multiplication is written with its wrap-around. The random source
  \<open>rand.Int63n\<close> is a parameter; it panics on a bound below 1, which is the result \<open>None\<close>.
\<close>

record Backoff =
  bo_Base :: duration
  bo_Max :: duration

text \<open>\<open>uint(1) << uint(n)\<close>: 0 once the bit is shifted out.\<close>

definition shl1 :: "nat \<Rightarrow> nat" where
  "shl1 n = (if n < 64 then 2 ^ n else 0)"

definition nextBackoff :: "(int \<Rightarrow> int) \<Rightarrow> Backoff \<Rightarrow> int \<Rightarrow> duration option" where
  "nextBackoff Int63n b attempt =
     (let b = (if bo_Base b \<le> 0 then b\<lparr>bo_Base := 5 * 1000000000\<rparr> else b);
          b = (if bo_Max b \<le> 0 then b\<lparr>bo_Max := 3600 * 1000000000\<rparr> else b);
          attempt = (if attempt < 1 then 1 else attempt);
          mult = shl1 (nat (attempt - 1));
          mult = (if mult = 0 \<or> 2 ^ 20 < mult then 2 ^ 20 else mult);
          d = wrap64 (int mult * bo_Base b);
          d = (if bo_Max b < d then bo_Max b else d)
      in if bo_Base b < d then
           let n = wrap64 (d - bo_Base b + 1) in
           if n \<le> 0 then None else Some (wrap64 (bo_Base b + Int63n n))
         else Some d)"

text \<open>\<open>rand.Int63n n\<close> is in \<open>[0, n)\<close>.\<close>

definition Int63n_ok :: "(int \<Rightarrow> int) \<Rightarrow> bool" where
  "Int63n_ok r \<longleftrightarrow> (\<forall>n. 0 < n \<longrightarrow> 0 \<le> r n \<and> r n < n)"

lemma mult_value:
  "(if shl1 n = 0 \<or> 2 ^ 20 < shl1 n then 2 ^ 20 else shl1 n) = 2 ^ min 20 n"
proof (cases "n \<le> 20")
  case True
  then have "(2 :: nat) ^ n \<le> 2 ^ 20" by (intro power_increasing) simp_all
  then show ?thesis using True by (simp add: shl1_def)
next
  case False
  then have "(2 :: nat) ^ 20 < 2 ^ n" by (intro power_strict_increasing) simp_all
  then show ?thesis using False by (simp add: shl1_def)
qed

text \<open>The delay in terms of the base and the maximum after their defaults.\<close>

lemma nextBackoff_eq:
  assumes "base = (if bo_Base b \<le> 0 then 5000000000 else bo_Base b)"
    and "mx = (if bo_Max b \<le> 0 then 3600000000000 else bo_Max b)"
    and "e = min mx (wrap64 (2 ^ min 20 (nat (attempt - 1)) * base))"
  shows "nextBackoff r b attempt = (if base < e then
      (let n = wrap64 (e - base + 1) in if n \<le> 0 then None else Some (wrap64 (base + r n))) else Some e)"
proof -
  have n: "nat ((if attempt < 1 then 1 else attempt) - 1) = nat (attempt - 1)" by simp
  have "min mx x = (if mx < x then mx else x)" for x :: int by (simp add: min_def)
  then show ?thesis unfolding nextBackoff_def Let_def n mult_value by (simp add: assms)
qed

text \<open>C37. For any settings and any attempt a delay is drawn and it never exceeds the maximum (1 hour when
  none is set). Whenever the doubling of the base (5 seconds when none is set), 20 times at most,
  fits in 64 bits, which every base below \<open>2 ^ 43\<close> ns (2 hours 26 minutes) does, the delay is also
  not below the smaller of base and maximum, positive, and not above that doubling.\<close>

theorem nextBackoff_bounds:
  assumes "in_i64 (bo_Max b)" and "Int63n_ok r"
    and "base = (if bo_Base b \<le> 0 then 5000000000 else bo_Base b)"
    and "mx = (if bo_Max b \<le> 0 then 3600000000000 else bo_Max b)"
  shows "\<exists>d. nextBackoff r b attempt = Some d \<and> d \<le> mx \<and>
    (base < 2 ^ 43 \<or> 2 ^ min 20 (nat (attempt - 1)) * base < 2 ^ 63 \<longrightarrow>
       0 < d \<and> min base mx \<le> d \<and> d \<le> 2 ^ min 20 (nat (attempt - 1)) * base)"
proof -
  define P where "P = 2 ^ min 20 (nat (attempt - 1)) * base"
  define e where "e = min mx (wrap64 P)"
  note E = nextBackoff_eq [OF assms(3,4) e_def [unfolded P_def], of r]
  have pos: "0 < base" "0 < mx" "mx < 2 ^ 63" using assms(1) by (simp_all add: assms(3,4) in_i64_def i64_max_def)
  have p: "1 \<le> (2 :: int) ^ min 20 (nat (attempt - 1))" "(2 :: int) ^ min 20 (nat (attempt - 1)) \<le> 2 ^ 20"
    by (simp_all add: power_increasing del: power_numeral)
  have le: "base \<le> P" using mult_right_mono [OF p(1), of base] pos by (simp add: P_def)
  have lt: "P < 2 ^ 63" if "base < 2 ^ 43 \<or> P < 2 ^ 63"
    using mult_mono [OF p(2), of base "2 ^ 43 - 1"] pos that by (auto simp: P_def)
  have eP: "e = min mx P" if "base < 2 ^ 43 \<or> P < 2 ^ 63"
    unfolding e_def using lt [OF that] le pos by (subst wrap64_id) (simp_all add: in_i64_def i64_min_def i64_max_def)
  have e: "e \<le> mx" by (simp add: e_def)
  obtain d where d: "nextBackoff r b attempt = Some d" "d \<le> e" "base < e \<longrightarrow> base \<le> d" "e \<le> base \<longrightarrow> d = e"
  proof (cases "base < e")
    case True
    have k: "wrap64 (e - base + 1) = e - base + 1"
      using True e pos by (intro wrap64_id) (simp add: in_i64_def i64_min_def i64_max_def)
    have r: "0 \<le> r (e - base + 1)" "r (e - base + 1) < e - base + 1"
      using assms(2) [unfolded Int63n_ok_def, rule_format, of "e - base + 1"] True by linarith+
    have "wrap64 (base + r (e - base + 1)) = base + r (e - base + 1)"
      using r e pos by (intro wrap64_id) (simp add: in_i64_def i64_min_def i64_max_def)
    then show thesis using that [of "base + r (e - base + 1)"] E True k r by (simp add: Let_def)
  next
    case False
    then show thesis using that [of e] E by simp
  qed
  have "0 < d \<and> min base mx \<le> d \<and> d \<le> P" if "base < 2 ^ 43 \<or> P < 2 ^ 63"
    using d(2-4) eP [OF that] le pos by (auto simp: min_def split: if_splits)
  then show ?thesis using d(1,2) e unfolding P_def by auto
qed

theorem nextBackoff_bounds_witness:
  "(\<exists>d. nextBackoff (\<lambda>n. n - 1) \<lparr>bo_Base = 1000000000, bo_Max = 60000000000\<rparr> 4 = Some d \<and>
     1000000000 \<le> d \<and> d \<le> 8000000000) \<and>
   (\<exists>d. nextBackoff (\<lambda>n. n - 1) \<lparr>bo_Base = 7200000000000, bo_Max = 0\<rparr> 1 = Some d \<and> d = 3600000000000)"
proof -
  have r: "Int63n_ok (\<lambda>n. n - 1)" by (simp add: Int63n_ok_def)
  show ?thesis
    using nextBackoff_bounds [of "\<lparr>bo_Base = 1000000000, bo_Max = 60000000000\<rparr>", OF _ r refl refl, of 4]
      nextBackoff_bounds [of "\<lparr>bo_Base = 7200000000000, bo_Max = 0\<rparr>", OF _ r refl refl, of 1]
    by (auto simp: in_i64_def i64_min_def i64_max_def)
qed

text \<open>From a base of \<open>2 ^ 43\<close> ns on the product wraps around in spite of the cap on the
  multiplier: at the 21st attempt the delay is negative, so the retry is due at once.\<close>

lemma nextBackoff_overflow:
  "nextBackoff r \<lparr>bo_Base = 2 ^ 43, bo_Max = 2 ^ 44\<rparr> 21 = Some (- (2 ^ 63))"
  by (simp add: nextBackoff_def shl1_def wrap64_def)

end
