(* ===== verification/Jobs_Cron.thy ===== *)
theory Jobs_Cron
  imports Go_Time Go_Fmt
begin

text \<open>
  Cron schedules (\<open>jobs/cron.go\<close>): the parser of the five fields into 64-bit masks and the
  search for the next firing time. A loop that does not return has the value \<open>None\<close>; parsing is
  proved to return always, the search to return in a location of fixed offset, where its result
  is the first firing minute, and to loop for ever across a change of the offset.
\<close>

unbundle bit_operations_syntax

record cronSchedule =
  cs_minute :: "64 word"
  cs_hour :: "64 word"
  cs_dom :: "64 word"
  cs_month :: "64 word"
  cs_dow :: "64 word"
  cs_domStarred :: bool
  cs_dowStarred :: bool

text \<open>\<open>1 << uint(i)\<close>: a negative \<open>i\<close> is a shift by at least \<open>2 ^ 63\<close>, which leaves 0.\<close>

definition bit_at :: "int \<Rightarrow> 64 word" where
  "bit_at i = (if 0 \<le> i \<and> i < 64 then push_bit (nat i) 1 else 0)"

definition has_bit :: "64 word \<Rightarrow> int \<Rightarrow> bool" where
  "has_bit m i \<longleftrightarrow> m AND bit_at i \<noteq> 0"

subsection \<open>Parsing\<close>

text \<open>The loop \<open>for i := rangeLo; i <= rangeHi; i += step\<close>.\<close>

partial_function (option) fill_mask :: "int \<Rightarrow> int \<Rightarrow> int \<Rightarrow> 64 word \<Rightarrow> 64 word option" where
  "fill_mask i hi step msk =
     (if i \<le> hi then fill_mask (wrap64 (i + step)) hi step (msk OR bit_at i) else Some msk)"

definition parse_step :: "string \<Rightarrow> (int \<times> string) result" where
  "parse_step part =
     (case index_byte (CHR ''/'') part of
        None \<Rightarrow> Inr (1, part)
      | Some i \<Rightarrow>
          (case atoi (drop (i + 1) part) of
             Inl _ \<Rightarrow> Inl (ErrText (''bad step '' @ go_quote part))
           | Inr step \<Rightarrow> if step < 1 then Inl (ErrText (''bad step '' @ go_quote part)) else Inr (step, take i part)))"

definition out_of_bounds :: "int \<Rightarrow> int \<Rightarrow> string" where
  "out_of_bounds lo hi = '' out of bounds ['' @ fmt_d lo @ '','' @ fmt_d hi @ '']''"

definition parse_bounds :: "string \<Rightarrow> int \<Rightarrow> int \<Rightarrow> int \<Rightarrow> (int \<times> int) result" where
  "parse_bounds part lo hi step =
     (if part = ''*'' then Inr (lo, hi)
      else case index_byte (CHR ''-'') part of
        Some idx \<Rightarrow>
          (case (atoi (take idx part), atoi (drop (idx + 1) part)) of
             (Inr a, Inr b) \<Rightarrow>
               if a < lo \<or> hi < b \<or> b < a then Inl (ErrText (''range '' @ fmt_d a @ ''-'' @ fmt_d b @ out_of_bounds lo hi)) else Inr (a, b)
           | _ \<Rightarrow> Inl (ErrText (''bad range '' @ go_quote part)))
      | None \<Rightarrow>
          (case atoi part of
             Inl _ \<Rightarrow> Inl (ErrText (''bad value '' @ go_quote part))
           | Inr v \<Rightarrow>
               if v < lo \<or> hi < v then Inl (ErrText (''value '' @ fmt_d v @ out_of_bounds lo hi))
               else if 1 < step then Inr (v, hi) else Inr (v, v)))"

definition parseRange :: "string \<Rightarrow> int \<Rightarrow> int \<Rightarrow> 64 word result option" where
  "parseRange part lo hi =
     (case parse_step part of
        Inl e \<Rightarrow> Some (Inl e)
      | Inr (step, part) \<Rightarrow>
          (case parse_bounds part lo hi step of
             Inl e \<Rightarrow> Some (Inl e)
           | Inr (a, b) \<Rightarrow> map_option Inr (fill_mask a b step 0)))"

fun parse_parts :: "int \<Rightarrow> int \<Rightarrow> 64 word \<Rightarrow> string list \<Rightarrow> 64 word result option" where
  "parse_parts lo hi msk [] = Some (Inr msk)"
| "parse_parts lo hi msk (part # parts) =
     (case parseRange part lo hi of
        None \<Rightarrow> None
      | Some (Inl e) \<Rightarrow> Some (Inl e)
      | Some (Inr bits) \<Rightarrow> parse_parts lo hi (msk OR bits) parts)"

definition parseField :: "string \<Rightarrow> int \<Rightarrow> int \<Rightarrow> 64 word result option" where
  "parseField field lo hi =
     (if field = [] then Some (Inl (ErrText ''empty''))
      else parse_parts lo hi 0 (split_on (CHR '','') field))"

text \<open>One line of the parser: a field is parsed and an error is wrapped with the field's name.\<close>

definition with_field ::
  "string \<Rightarrow> string \<Rightarrow> int \<Rightarrow> int \<Rightarrow> (64 word \<Rightarrow> 'a result option) \<Rightarrow> 'a result option" where
  "with_field name field lo hi k =
     (case parseField field lo hi of
        None \<Rightarrow> None
      | Some (Inl e) \<Rightarrow> Some (Inl (Wrapped name e))
      | Some (Inr m) \<Rightarrow> k m)"

definition parseCron :: "string \<Rightarrow> cronSchedule result option" where
  "parseCron expr =
     (case Go_Text.fields expr of
        [f0, f1, f2, f3, f4] \<Rightarrow>
          with_field ''minute'' f0 0 59 (\<lambda>mi.
          with_field ''hour'' f1 0 23 (\<lambda>h.
          with_field ''day-of-month'' f2 1 31 (\<lambda>dom.
          with_field ''month'' f3 1 12 (\<lambda>mo.
          with_field ''day-of-week'' f4 0 6 (\<lambda>dow.
            Some (Inr \<lparr>cs_minute = mi, cs_hour = h, cs_dom = dom, cs_month = mo, cs_dow = dow,
              cs_domStarred = (f2 = ''*''), cs_dowStarred = (f4 = ''*'')\<rparr>))))))
      | _ \<Rightarrow> Some (Inl (ErrText (''expected 5 fields, got '' @ fmt_d (int (length (Go_Text.fields expr)))))))"

subsection \<open>The next firing time\<close>

definition dayMatches :: "location \<Rightarrow> cronSchedule \<Rightarrow> instant \<Rightarrow> bool" where
  "dayMatches loc s t =
     (let domMatch = has_bit (cs_dom s) (t_Day loc t); dowMatch = has_bit (cs_dow s) (t_Weekday loc t)
      in if cs_domStarred s \<and> cs_dowStarred s then True
         else if cs_domStarred s then dowMatch
         else if cs_dowStarred s then domMatch
         else domMatch \<or> dowMatch)"

partial_function (option) next_loop :: "location \<Rightarrow> cronSchedule \<Rightarrow> instant \<Rightarrow> instant \<Rightarrow> instant option" where
  "next_loop loc s deadline t =
     (if deadline < t then Some deadline
      else case t_Date loc t of (y, m, d) \<Rightarrow>
        if \<not> has_bit (cs_month s) m then next_loop loc s deadline (time_Date loc y (m + 1) 1 0)
        else if \<not> dayMatches loc s t then next_loop loc s deadline (time_Date loc y m (d + 1) 0)
        else if \<not> has_bit (cs_hour s) (t_Hour loc t)
          then next_loop loc s deadline (time_Date loc y m d (t_Hour loc t + 1))
        else if \<not> has_bit (cs_minute s) (t_Minute loc t) then next_loop loc s deadline (t + minute)
        else Some t)"

definition cron_Next :: "location \<Rightarrow> cronSchedule \<Rightarrow> instant \<Rightarrow> instant option" where
  "cron_Next loc s t =
     (let t = trunc_minute (t + minute); deadline = t + 5 * 365 * 24 * 60 * minute
      in next_loop loc s deadline t)"

subsection \<open>Parsing returns\<close>

text \<open>A step so large that the addition wraps around brings the index back below the range;
  a pair of such rounds moves it down, so the loop ends there too.\<close>

lemma fill_small_step:
  assumes "1 \<le> step" and "step < 2 ^ 63 - 63" and "0 \<le> i" and "hi \<le> 63"
  shows "\<exists>m. fill_mask i hi step msk = Some m \<and>
    (\<forall>k. bit m k \<longleftrightarrow> bit msk k \<or> (i \<le> int k \<and> int k \<le> hi \<and> (int k - i) mod step = 0))"
  using assms(3)
proof (induction "nat (64 - i)" arbitrary: i msk rule: less_induct)
  case less
  show ?case
  proof (cases "i \<le> hi")
    case False
    then show ?thesis by (subst fill_mask.simps) auto
  next
    case True
    have i: "0 \<le> i" "i \<le> 63" using True less.prems assms(4) by simp_all
    have w: "wrap64 (i + step) = i + step"
      using i assms(1,2) by (intro wrap64_id) (simp add: in_i64_def i64_min_def i64_max_def)
    obtain m where m: "fill_mask (i + step) hi step (msk OR bit_at i) = Some m"
      and b: "\<And>k. bit m k \<longleftrightarrow> bit (msk OR bit_at i) k \<or>
        (i + step \<le> int k \<and> int k \<le> hi \<and> (int k - (i + step)) mod step = 0)"
      using less.hyps [of "i + step" "msk OR bit_at i"] i assms(1) by auto
    have "bit m k \<longleftrightarrow> bit msk k \<or> (i \<le> int k \<and> int k \<le> hi \<and> (int k - i) mod step = 0)" for k
    proof -
      have bi: "bit (bit_at i) k \<longleftrightarrow> int k = i"
        using i by (auto simp: bit_at_def bit_simps)
      have mm: "(int k - (i + step)) mod step = (int k - i) mod step"
        using mod_diff_right_eq [of "int k - i" step step] by (simp add: diff_diff_eq2 flip: diff_diff_eq)
      have "int k = i \<or> i + step \<le> int k" if "i \<le> int k" "(int k - i) mod step = 0"
      proof (rule ccontr)
        assume "\<not> ?thesis"
        then have "0 < int k - i" "int k - i < step" using that(1) by linarith+
        then show False using that(2) by simp
      qed
      then show ?thesis unfolding b mm bit_or_iff bi using True assms(1) by auto
    qed
    moreover have "fill_mask i hi step msk = Some m"
      by (subst fill_mask.simps) (simp add: True w m)
    ultimately show ?thesis by blast
  qed
qed

lemma fill_large_step:
  assumes "2 ^ 63 - 63 \<le> step" and "step < 2 ^ 63" and "0 \<le> i" and "hi \<le> 63"
  shows "\<exists>m. fill_mask i hi step msk = Some m"
  using assms(3)
proof (induction "nat i" arbitrary: i msk rule: less_induct)
  case less
  define c where "c = 2 ^ 63 - step"
  have c: "1 \<le> c" "c \<le> 63" "step = 2 ^ 63 - c" using assms(1,2) by (simp_all add: c_def)
  have stop: "fill_mask j hi step msk2 = Some msk2" if "hi < j" for j msk2
    using that by (subst fill_mask.simps) simp
  have go: "fill_mask j hi step msk2 = fill_mask (wrap64 (j + step)) hi step (msk2 OR bit_at j)"
    if "j \<le> hi" for j msk2
    using that by (subst fill_mask.simps) simp
  have add: "wrap64 (j + step) = j + step" if "j < c" "- 1000 \<le> j" for j
    using that c by (intro wrap64_id) (simp add: in_i64_def i64_min_def i64_max_def)
  show ?case
  proof (cases "i \<le> hi")
    case False
    then show ?thesis using stop by simp
  next
    case le: True
    then have i: "0 \<le> i" "i \<le> 63" using less.prems assms(4) by simp_all
    show ?thesis
    proof (cases "i < c")
      case True
      then show ?thesis using go [OF le] add [of i] stop [of "i + step"] i c assms(4) by auto
    next
      case False
      have "wrap64 (i + step) = i - c - 2 ^ 63"
        using False i c by (simp add: wrap64_def mod_pos_pos_trivial minus_mod_self2 [symmetric, of "i - c + 2 ^ 64"])
      moreover have "i - c - 2 ^ 63 \<le> hi" using le c by simp
      moreover have "wrap64 (i - c - 2 ^ 63 + step) = i - 2 * c"
        using i c by (subst wrap64_id) (simp_all add: in_i64_def i64_min_def i64_max_def)
      ultimately have e: "\<exists>msk2. fill_mask i hi step msk = fill_mask (i - 2 * c) hi step msk2"
        using go [OF le] go [of "i - c - 2 ^ 63"] by auto
      show ?thesis
      proof (cases "0 \<le> i - 2 * c")
        case True
        then show ?thesis using e less.hyps [of "i - 2 * c"] i c by auto
      next
        case neg: False
        have "hi < i - 2 * c + step" using i c assms(4) by simp
        then show ?thesis
          using e go [of "i - 2 * c"] add [of "i - 2 * c"] stop [of "i - 2 * c + step"] neg i c le False by auto
      qed
    qed
  qed
qed

lemma fill_mask_returns:
  "1 \<le> step \<Longrightarrow> step < 2 ^ 63 \<Longrightarrow> 0 \<le> i \<Longrightarrow> hi \<le> 63 \<Longrightarrow> \<exists>m. fill_mask i hi step msk = Some m"
  using fill_small_step [of step i hi msk] fill_large_step [of step i hi msk] by fastforce

lemma parse_step_range: "parse_step part = Inr (step, p) \<Longrightarrow> 1 \<le> step \<and> step < 2 ^ 63"
proof -
  assume "parse_step part = Inr (step, p)"
  then have "step = 1 \<or> (1 \<le> step \<and> (\<exists>s. atoi s = Inr step))"
    by (auto simp: parse_step_def split: option.splits sum.splits if_splits)
  moreover have "atoi s = Inr step \<Longrightarrow> step < 2 ^ 63" for s
    using parse_int_in_i64 [of s 10 step] by (simp add: atoi_def in_i64_def i64_max_def)
  ultimately show ?thesis by auto
qed

lemma parse_bounds_range: "lo \<le> hi \<Longrightarrow> parse_bounds part lo hi step = Inr (a, b) \<Longrightarrow> lo \<le> a \<and> a \<le> b \<and> b \<le> hi"
  by (auto simp: parse_bounds_def split: option.splits sum.splits if_splits)

lemma parseRange_returns: "0 \<le> lo \<Longrightarrow> lo \<le> hi \<Longrightarrow> hi \<le> 63 \<Longrightarrow> parseRange part lo hi \<noteq> None"
proof -
  assume r: "0 \<le> lo" "lo \<le> hi" "hi \<le> 63"
  show ?thesis
  proof (cases "parse_step part")
    case (Inr sp)
    obtain step p where sp: "sp = (step, p)" by (cases sp)
    note st = parse_step_range [OF Inr [unfolded sp]]
    show ?thesis
    proof (cases "parse_bounds p lo hi step")
      case (Inr ab)
      obtain a b where ab: "ab = (a, b)" by (cases ab)
      have "lo \<le> a \<and> a \<le> b \<and> b \<le> hi" using parse_bounds_range [OF r(2)] Inr ab by blast
      then obtain m where "fill_mask a b step 0 = Some m"
        using fill_mask_returns [of step a b 0] st r by auto
      then show ?thesis
        using \<open>parse_step part = Inr sp\<close> Inr by (simp add: parseRange_def sp ab)
    qed (simp add: parseRange_def \<open>parse_step part = Inr sp\<close> sp)
  qed (simp add: parseRange_def)
qed

lemma parseField_returns: "0 \<le> lo \<Longrightarrow> lo \<le> hi \<Longrightarrow> hi \<le> 63 \<Longrightarrow> parseField f lo hi \<noteq> None"
proof -
  assume r: "0 \<le> lo" "lo \<le> hi" "hi \<le> 63"
  have "parse_parts lo hi msk ps \<noteq> None" for msk ps
  proof (induction ps arbitrary: msk)
    case (Cons p ps)
    obtain x where x: "parseRange p lo hi = Some x" using parseRange_returns [OF r, of p] by blast
    show ?case by (cases x) (simp_all add: x Cons.IH)
  qed simp
  then show ?thesis by (simp add: parseField_def)
qed

lemma with_field_returns:
  "\<lbrakk>0 \<le> lo; lo \<le> hi; hi \<le> 63; \<And>m. k m \<noteq> None\<rbrakk> \<Longrightarrow> with_field name f lo hi k \<noteq> None"
proof -
  assume r: "0 \<le> lo" "lo \<le> hi" "hi \<le> 63" and k: "\<And>m. k m \<noteq> None"
  obtain x where x: "parseField f lo hi = Some x" using parseField_returns [OF r, of f] by blast
  show ?thesis using k by (cases x) (simp_all add: with_field_def x)
qed

text \<open>C31. \<open>parseCron\<close> returns, a schedule or an error, on every text, step sizes whose additions
  wrap around the 64-bit integers included.\<close>

theorem parseCron_returns: "\<exists>r. parseCron expr = Some r"
proof -
  have "parseCron expr \<noteq> None"
    unfolding parseCron_def
    by (simp split: list.splits del: not_None_eq) (intro allI impI with_field_returns, simp_all)
  then show ?thesis by blast
qed

subsection \<open>What a range means\<close>

text \<open>A range as it is written: \<open>a-b/s\<close>.\<close>

definition range_text :: "int \<Rightarrow> int \<Rightarrow> int \<Rightarrow> string" where
  "range_text a b s = fmt_d a @ CHR ''-'' # fmt_d b @ CHR ''/'' # fmt_d s"

text \<open>C32. Printing a range and parsing it gives exactly the arithmetic progression: the text
  \<open>a-b/s\<close> within the bounds of the field sets the bits \<open>a, a + s, a + 2 s, ...\<close> up to \<open>b\<close>
  and no other, for every step below \<open>2 ^ 63 - 63\<close>.\<close>

theorem parseRange_progression:
  assumes "0 \<le> lo" and "lo \<le> a" and "a \<le> b" and "b \<le> hi" and "hi \<le> 63" and "1 \<le> s" and "s < 2 ^ 63 - 63"
  shows "\<exists>m. parseRange (range_text a b s) lo hi = Some (Inr m) \<and>
    (\<forall>k. bit m k \<longleftrightarrow> a \<le> int k \<and> int k \<le> b \<and> (int k - a) mod s = 0)"
proof -
  have pos: "0 \<le> a" "0 \<le> b" "0 \<le> s" "in_i64 a" "in_i64 b" "in_i64 s"
    using assms by (simp_all add: in_i64_def i64_min_def i64_max_def)
  have f: "fmt_d a = digits_of 10 (nat a)" "fmt_d b = digits_of 10 (nat b)" "fmt_d s = digits_of 10 (nat s)"
    using pos by (simp_all add: fmt_d_def)
  have no: "CHR ''/'' \<notin> set (fmt_d a @ CHR ''-'' # fmt_d b)" "CHR ''-'' \<notin> set (fmt_d a)"
    unfolding f using digits_of_no by auto
  have st: "parse_step (range_text a b s) = Inr (s, fmt_d a @ CHR ''-'' # fmt_d b)"
    using index_byte_append [OF no(1), of "fmt_d s"] atoi_fmt_d [of s] pos assms(6)
    by (simp add: parse_step_def range_text_def)
  have star: "fmt_d a @ CHR ''-'' # fmt_d b \<noteq> ''*''"
    using digits_of_not_Nil [of "nat a"] by (auto simp: f append_eq_Cons_conv)
  have bo: "parse_bounds (fmt_d a @ CHR ''-'' # fmt_d b) lo hi s = Inr (a, b)"
    using index_byte_append [OF no(2), of "fmt_d b"] atoi_fmt_d [of a] atoi_fmt_d [of b] pos assms(2-4) star
    by (simp add: parse_bounds_def)
  obtain m where "fill_mask a b s 0 = Some m"
    and "\<forall>k. bit m k \<longleftrightarrow> bit (0 :: 64 word) k \<or> (a \<le> int k \<and> int k \<le> b \<and> (int k - a) mod s = 0)"
    using fill_small_step [of s a b 0] assms by auto
  then show ?thesis using st bo by (simp add: parseRange_def)
qed

theorem parseRange_progression_witness:
  "\<exists>m. parseRange ''9-17/2'' 0 23 = Some (Inr m) \<and> bit m 11 \<and> \<not> bit m 12"
proof -
  have t: "range_text 9 17 2 = ''9-17/2''" by code_simp
  obtain m where "parseRange (range_text 9 17 2) 0 23 = Some (Inr m)"
    and b: "\<And>k. bit m k \<longleftrightarrow> 9 \<le> int k \<and> int k \<le> 17 \<and> (int k - 9) mod 2 = 0"
    using parseRange_progression [of 0 9 17 23 2] by auto
  moreover have "bit m 11" "\<not> bit m 12" unfolding b by simp_all
  ultimately show ?thesis unfolding t by blast
qed

text \<open>With a larger step the addition wraps around and minutes outside the written range are
  set: \<open>40-59/9223372036854775798\<close> fires at the minutes 0, 20 and 40.\<close>

lemma parseRange_overflow:
  "parseRange ''40-59/9223372036854775798'' 0 59 = Some (Inr (bit_at 40 OR bit_at 20 OR bit_at 0))"
  by (simp add: parseRange_def parse_step_def parse_bounds_def atoi_def parse_int_def parse_uint_def
    digit_val_def char_code_def fill_mask.simps wrap64_def bit_at_def)

subsection \<open>The next firing time in a location of fixed offset\<close>

text \<open>The schedule fires at the instant \<open>t\<close>.\<close>

definition fires :: "location \<Rightarrow> cronSchedule \<Rightarrow> instant \<Rightarrow> bool" where
  "fires loc s t \<longleftrightarrow> has_bit (cs_month s) (t_Month loc t) \<and> dayMatches loc s t \<and>
     has_bit (cs_hour s) (t_Hour loc t) \<and> has_bit (cs_minute s) (t_Minute loc t)"

text \<open>The location whose offset is always \<open>off\<close> minutes; whole minutes are numbered from 1970.\<close>

definition fixed :: "int \<Rightarrow> location" where "fixed off = (\<lambda>_. 60 * off)"

lemma fixed_wall: "wall_secs (fixed off) (minute * q) = 60 * (q + off)"
proof -
  have "minute * q div second = 60 * q"
    by (rule int_div_pos_eq [where r = 0]) (simp_all add: minute_def second_def)
  then show ?thesis by (simp add: wall_secs_def fixed_def distrib_left)
qed

lemma fixed_parts:
  "t_Date (fixed off) (minute * q) = civil_of ((q + off) div 1440)"
  "t_Hour (fixed off) (minute * q) = (q + off) mod 1440 div 60"
  "t_Minute (fixed off) (minute * q) = (q + off) mod 60"
  "t_Weekday (fixed off) (minute * q) = ((q + off) div 1440 + 4) mod 7"
proof -
  have d: "60 * w div 86400 = w div 1440" for w :: int using div_mult_mult1 [of 60 w 1440] by simp
  have m: "60 * w mod 86400 = 60 * (w mod 1440)" for w :: int using mult_mod_right [of 60 w 1440] by simp
  have h: "60 * v div 3600 = v div 60" for v :: int using div_mult_mult1 [of 60 v 60] by simp
  have n: "60 * v mod 3600 = 60 * (v mod 60)" for v :: int using mult_mod_right [of 60 v 60] by simp
  show "t_Date (fixed off) (minute * q) = civil_of ((q + off) div 1440)"
    "t_Weekday (fixed off) (minute * q) = ((q + off) div 1440 + 4) mod 7"
    by (simp_all only: t_Date_def t_Weekday_def fixed_wall d)
  show "t_Hour (fixed off) (minute * q) = (q + off) mod 1440 div 60"
    by (simp only: t_Hour_def fixed_wall m h)
  show "t_Minute (fixed off) (minute * q) = (q + off) mod 60"
    unfolding t_Minute_def fixed_wall n by simp
qed

lemma fixed_Date: "time_Date (fixed off) y m d h = minute * (days_civil y m d * 1440 + h * 60 - off)"
  by (simp add: time_Date_def fixed_def minute_def second_def Let_def algebra_simps)

lemma same_day:
  "(j + off) div 1440 = (k + off) div 1440 \<Longrightarrow>
     dayMatches (fixed off) s (minute * j) = dayMatches (fixed off) s (minute * k)"
  by (simp only: dayMatches_def t_Day_def fixed_parts)

lemma div_window_eq: "0 < k \<Longrightarrow> k * n \<le> x \<Longrightarrow> x < k * n + k \<Longrightarrow> x div k = n" for k n x :: int
  by (rule int_div_pos_eq [where r = "x - k * n"]) simp_all

lemma hour_number: "w mod 1440 div 60 = w div 60 - 24 * (w div 1440)" for w :: int
proof -
  have "w mod 1440 = w - 60 * (24 * (w div 1440))" by (simp add: minus_mult_div_eq_mod [symmetric])
  also have "\<dots> div 60 = w div 60 - 24 * (w div 1440)"
    using div_mult_self1 [of 60 w "- (24 * (w div 1440))"] by (simp add: algebra_simps)
  finally show ?thesis .
qed

text \<open>One round of the loop: the search ends, or it moves on past minutes that do not fire.\<close>

definition skips :: "int \<Rightarrow> cronSchedule \<Rightarrow> int \<Rightarrow> int \<Rightarrow> bool" where
  "skips off s q q' \<longleftrightarrow> q < q' \<and> (\<forall>k. q \<le> k \<longrightarrow> k < q' \<longrightarrow> \<not> fires (fixed off) s (minute * k))"

lemma day_window:
  "1440 * ((q + off) div 1440) \<le> q + off \<and> q + off < 1440 * ((q + off) div 1440) + 1440" for q off :: int
  using div_window [of 1440 "q + off"] by simp

lemma skips_month:
  assumes "is_date ((q + off) div 1440) (y, m, d)" and "\<not> has_bit (cs_month s) m"
  shows "skips off s q (days_civil y (m + 1) 1 * 1440 - off)"
  unfolding skips_def
proof (intro conjI allI impI)
  let ?n = "(q + off) div 1440" and ?N = "days_civil y (m + 1) 1"
  show "q < ?N * 1440 - off" using next_month_later [OF assms(1)] day_window [of q off] by linarith
  fix k assume k: "q \<le> k" "k < ?N * 1440 - off"
  have "?n \<le> (k + off) div 1440" by (rule zdiv_mono1) (use k in simp_all)
  moreover have "(k + off) div 1440 < ?N" using k by (simp add: div_less_iff_less_mult)
  ultimately have "t_Month (fixed off) (minute * k) = m"
    using month_window [OF assms(1), of "(k + off) div 1440"] by (simp only: t_Month_def fixed_parts)
  then show "\<not> fires (fixed off) s (minute * k)" using assms(2) by (simp add: fires_def)
qed

lemma skips_day:
  assumes "\<not> dayMatches (fixed off) s (minute * q)"
  shows "skips off s q (((q + off) div 1440 + 1) * 1440 - off)"
  unfolding skips_def
proof (intro conjI allI impI)
  let ?n = "(q + off) div 1440"
  show "q < (?n + 1) * 1440 - off" using day_window [of q off] by simp
  fix k assume k: "q \<le> k" "k < (?n + 1) * 1440 - off"
  have "(k + off) div 1440 = ?n" by (rule div_window_eq) (use k day_window [of q off] in simp_all)
  from same_day [OF this] show "\<not> fires (fixed off) s (minute * k)" using assms by (simp add: fires_def)
qed

lemma skips_hour:
  assumes "\<not> has_bit (cs_hour s) (t_Hour (fixed off) (minute * q))"
  shows "skips off s q ((q + off) div 60 * 60 + 60 - off)"
  unfolding skips_def
proof (intro conjI allI impI)
  let ?h = "(q + off) div 60" and ?n = "(q + off) div 1440"
  have hw: "60 * ?h \<le> q + off" "q + off < 60 * ?h + 60" using div_window [of 60 "q + off"] by simp_all
  then have hn: "24 * ?n \<le> ?h" "?h < 24 * ?n + 24" using day_window [of q off] by linarith+
  show "q < ?h * 60 + 60 - off" using hw by simp
  fix k assume k: "q \<le> k" "k < ?h * 60 + 60 - off"
  have "(k + off) div 60 = ?h" by (rule div_window_eq) (use k hw in simp_all)
  moreover have "(k + off) div 1440 = ?n"
    by (rule div_window_eq) (use k day_window [of q off] hn in simp_all)
  ultimately have "t_Hour (fixed off) (minute * k) = t_Hour (fixed off) (minute * q)"
    by (simp only: fixed_parts hour_number)
  then show "\<not> fires (fixed off) s (minute * k)" using assms by (simp add: fires_def)
qed

lemma skips_minute: "\<not> has_bit (cs_minute s) (t_Minute (fixed off) (minute * q)) \<Longrightarrow> skips off s q (q + 1)"
  unfolding skips_def by (auto simp: fires_def zless_add1_eq)

lemma next_round:
  assumes "minute * q \<le> dl"
  shows "(next_loop (fixed off) s dl (minute * q) = Some (minute * q) \<and> fires (fixed off) s (minute * q)) \<or>
    (\<exists>q'. skips off s q q' \<and> next_loop (fixed off) s dl (minute * q) = next_loop (fixed off) s dl (minute * q'))"
    (is "?found \<or> (\<exists>q'. ?moves q')")
proof -
  let ?n = "(q + off) div 1440" and ?h = "(q + off) div 60"
  obtain y m d where ymd: "civil_of ?n = (y, m, d)" by (cases "civil_of ?n")
  then have D: "t_Date (fixed off) (minute * q) = (y, m, d)" by (simp only: fixed_parts)
  have isd: "is_date ?n (y, m, d)" using civil_of_date [of ?n] by (simp add: ymd)
  note L = next_loop.simps [of "fixed off" s dl "minute * q", unfolded D]
  have dn: "days_civil y m (d + 1) = ?n + 1" "days_civil y m d = ?n"
    using days_civil_inverse [OF isd] by (simp_all add: days_civil_plus)
  have H: "t_Hour (fixed off) (minute * q) = ?h - 24 * ?n" by (simp only: fixed_parts hour_number)
  show ?thesis
  proof (cases "has_bit (cs_month s) m")
    case False
    then have "?moves (days_civil y (m + 1) 1 * 1440 - off)"
      using L assms skips_month [OF isd] by (simp add: fixed_Date)
    then show ?thesis by blast
  next
    case month: True
    show ?thesis
    proof (cases "dayMatches (fixed off) s (minute * q)")
      case False
      then have "?moves ((?n + 1) * 1440 - off)"
        using L assms month skips_day [OF False] by (simp add: fixed_Date dn)
      then show ?thesis by blast
    next
      case day: True
      show ?thesis
      proof (cases "has_bit (cs_hour s) (t_Hour (fixed off) (minute * q))")
        case False
        have "?n * 1440 + (?h - 24 * ?n + 1) * 60 - off = ?h * 60 + 60 - off" by simp
        then have "?moves (?h * 60 + 60 - off)"
          using L assms month day False skips_hour [OF False] by (simp add: fixed_Date dn H)
        then show ?thesis by blast
      next
        case hour: True
        have "?found \<or> ?moves (q + 1)"
          using L assms month day hour skips_minute [of s off q]
          by (auto simp: fires_def t_Month_def D distrib_left)
        then show ?thesis by blast
      qed
    qed
  qed
qed

text \<open>What the search promises, over the whole minutes after \<open>t\<close> up to a deadline.\<close>

definition no_firing :: "location \<Rightarrow> cronSchedule \<Rightarrow> instant \<Rightarrow> instant \<Rightarrow> bool" where
  "no_firing loc s t dl \<longleftrightarrow> (\<forall>u. t < u \<and> u < dl \<and> u mod minute = 0 \<longrightarrow> \<not> fires loc s u)"

definition first_firing :: "location \<Rightarrow> cronSchedule \<Rightarrow> instant \<Rightarrow> instant \<Rightarrow> bool" where
  "first_firing loc s t r \<longleftrightarrow> t < r \<and> r mod minute = 0 \<and> fires loc s r \<and> no_firing loc s t r"

lemma next_loop_fixed:
  "q \<le> Q + 1 \<Longrightarrow> \<exists>r. next_loop (fixed off) s (minute * Q) (minute * q) = Some (minute * r) \<and>
     (\<forall>k. q \<le> k \<and> k < r \<longrightarrow> \<not> fires (fixed off) s (minute * k)) \<and>
     (q \<le> r \<and> r \<le> Q \<and> fires (fixed off) s (minute * r) \<or>
      r = Q \<and> (q \<le> Q \<longrightarrow> \<not> fires (fixed off) s (minute * Q)))"
proof (induction "nat (Q + 1 - q)" arbitrary: q rule: less_induct)
  case less
  have le: "minute * a \<le> minute * b \<longleftrightarrow> a \<le> b" for a b by (simp add: minute_def)
  show ?case
  proof (cases "q \<le> Q")
    case False
    then have "next_loop (fixed off) s (minute * Q) (minute * q) = Some (minute * Q)"
      by (subst next_loop.simps) (simp add: not_le [symmetric] le)
    then show ?thesis using False by (intro exI [of _ Q]) auto
  next
    case True
    then have "minute * q \<le> minute * Q" by (simp add: le)
    from next_round [OF this, of off s] show ?thesis
    proof (elim disjE exE conjE)
      assume "next_loop (fixed off) s (minute * Q) (minute * q) = Some (minute * q)" "fires (fixed off) s (minute * q)"
      then show ?thesis using True by (intro exI [of _ q]) auto
    next
      fix q'
      assume sk: "skips off s q q'" and e: "next_loop (fixed off) s (minute * Q) (minute * q) =
        next_loop (fixed off) s (minute * Q) (minute * q')"
      have lt: "q < q'" and nf: "\<And>k. q \<le> k \<Longrightarrow> k < q' \<Longrightarrow> \<not> fires (fixed off) s (minute * k)"
        using sk by (auto simp: skips_def)
      show ?thesis
      proof (cases "q' \<le> Q + 1")
        case True
        obtain r where r: "next_loop (fixed off) s (minute * Q) (minute * q') = Some (minute * r)"
            "\<And>k. q' \<le> k \<Longrightarrow> k < r \<Longrightarrow> \<not> fires (fixed off) s (minute * k)"
            "q' \<le> r \<and> r \<le> Q \<and> fires (fixed off) s (minute * r) \<or>
              r = Q \<and> (q' \<le> Q \<longrightarrow> \<not> fires (fixed off) s (minute * Q))"
          using less.hyps [of q'] True lt by auto
        have "\<not> fires (fixed off) s (minute * k)" if "q \<le> k" "k < r" for k
          using nf [of k] r(2) [of k] that by linarith
        moreover have "q \<le> Q \<Longrightarrow> \<not> q' \<le> Q \<Longrightarrow> \<not> fires (fixed off) s (minute * Q)"
          by (rule nf) simp_all
        ultimately show ?thesis using e r(1,3) lt by (intro exI [of _ r]) auto
      next
        case False
        have "minute * Q < minute * q'" using False le [of q' Q] by linarith
        then have "next_loop (fixed off) s (minute * Q) (minute * q') = Some (minute * Q)"
          by (subst next_loop.simps) simp
        moreover have "\<not> fires (fixed off) s (minute * k)" if "q \<le> k" "k \<le> Q" for k
          using nf [of k] that False by simp
        ultimately show ?thesis using e by (intro exI [of _ Q]) auto
      qed
    qed
  qed
qed

lemma whole_minute: "u mod minute = 0 \<Longrightarrow> \<exists>k. u = minute * k"
  by (metis dvd_def mod_eq_0_iff_dvd)

lemma next_minute: "t < minute * (t div minute + 1)" "minute * (t div minute) \<le> t"
  using div_window [of minute t] by (simp_all add: minute_def distrib_left)

lemma after_minute: "t < minute * k \<longleftrightarrow> t div minute + 1 \<le> k"
proof
  assume "t < minute * k"
  then have "minute * (t div minute) < minute * k" using next_minute(2) [of t] by linarith
  then show "t div minute + 1 \<le> k" by (simp add: minute_def)
next
  assume "t div minute + 1 \<le> k"
  then have "minute * (t div minute + 1) \<le> minute * k" by (simp add: minute_def)
  then show "t < minute * k" using next_minute(1) [of t] by linarith
qed

lemma cron_Next_fixed:
  "\<exists>r. cron_Next (fixed off) s t = Some r \<and>
     (first_firing (fixed off) s t r \<and> r \<le> trunc_minute t + 2628001 * minute \<or>
      no_firing (fixed off) s t r \<and> \<not> fires (fixed off) s r \<and> r = trunc_minute t + 2628001 * minute)"
proof -
  define q Q where "q = t div minute + 1" and "Q = t div minute + 1 + 2628000"
  have tm: "trunc_minute t = minute * (t div minute)" by (simp add: trunc_minute_def minus_mod_eq_mult_div)
  have "trunc_minute (t + minute) = minute * q"
    unfolding trunc_minute_def minus_mod_eq_mult_div q_def using div_add_self2 [of minute t]
    by (simp add: minute_def)
  moreover have "minute * q + 5 * 365 * 24 * 60 * minute = minute * Q" by (simp add: q_def Q_def distrib_left)
  ultimately have "cron_Next (fixed off) s t = next_loop (fixed off) s (minute * Q) (minute * q)"
    by (simp only: cron_Next_def Let_def)
  then obtain r where r: "cron_Next (fixed off) s t = Some (minute * r)"
    and nf: "\<And>k. q \<le> k \<Longrightarrow> k < r \<Longrightarrow> \<not> fires (fixed off) s (minute * k)"
    and d: "q \<le> r \<and> r \<le> Q \<and> fires (fixed off) s (minute * r) \<or>
      r = Q \<and> \<not> fires (fixed off) s (minute * Q)"
    using next_loop_fixed [of q Q off s] by (auto simp: q_def Q_def)
  have E: "minute * Q = trunc_minute t + 2628001 * minute" by (simp add: tm Q_def distrib_left)
  have le: "minute * a \<le> minute * b \<longleftrightarrow> a \<le> b" "minute * a < minute * b \<longleftrightarrow> a < b" for a b
    by (simp_all add: minute_def)
  have "no_firing (fixed off) s t (minute * r)"
    unfolding no_firing_def
  proof (intro allI impI, elim conjE)
    fix u assume u: "t < u" "u < minute * r" "u mod minute = 0"
    obtain k where k: "u = minute * k" using whole_minute [OF u(3)] by blast
    show "\<not> fires (fixed off) s u" unfolding k
      by (rule nf) (use u k after_minute [of t k] in \<open>simp_all add: le q_def\<close>)
  qed
  then show ?thesis
    using r d after_minute [of t r] unfolding first_firing_def by (auto simp: q_def le E [symmetric] simp del: minute_def)
qed

lemma cron_Next_returns: "\<exists>r. cron_Next (fixed off) s t = Some r"
  using cron_Next_fixed by blast

lemma cron_Next_later: "\<exists>r. cron_Next (fixed off) s t = Some r \<and> t < r \<and> r mod minute = 0"
proof -
  have w: "trunc_minute t + 2628001 * minute = minute * (t div minute + 2628001)"
    by (simp add: trunc_minute_def minus_mod_eq_mult_div distrib_left)
  have "t < minute * (t div minute + 2628001)" by (simp add: after_minute)
  moreover have "minute * k mod minute = 0" for k by simp
  ultimately show ?thesis
    using cron_Next_fixed [of off s t] unfolding w first_firing_def by metis
qed

text \<open>C29. In a location of fixed offset the search always returns, within the five-year window,
  the first whole minute after \<open>t\<close> at which the schedule fires; when there is none it returns
  the end of the window.\<close>

theorem cron_Next_first:
  "\<exists>r. cron_Next (fixed off) s t = Some r \<and>
     (first_firing (fixed off) s t r \<and> r \<le> trunc_minute t + 2628001 * minute \<or>
      no_firing (fixed off) s t r \<and> \<not> fires (fixed off) s r \<and> r = trunc_minute t + 2628001 * minute)"
  by (rule cron_Next_fixed)

subsection \<open>The search can loop for ever\<close>

text \<open>
  The zone of Los Angeles around March 10, 2024: the clocks go from 02:00 PST to 03:00 PDT at
  10:00 UTC. \<open>time.Date\<close> for 02:00 of that day, a reading that does not exist, is the instant of
  01:00 PST, from which the search set out to skip to 02:00.
\<close>

definition los_angeles :: location where
  "los_angeles u = (if 1710064800 \<le> u \<and> u < 1730624400 then - 25200 else - 28800)"

definition daily_at_3 :: cronSchedule where
  "daily_at_3 = \<lparr>cs_minute = 1, cs_hour = 8, cs_dom = 0xFFFFFFFE, cs_month = 0x1FFE, cs_dow = 0x7F,
     cs_domStarred = True, cs_dowStarred = True\<rparr>"

lemma parse_daily_at_3: "parseCron ''0 3 * * *'' = Some (Inr daily_at_3)"
proof -
  have "Go_Text.fields ''0 3 * * *'' = [''0'', ''3'', ''*'', ''*'', ''*'']" by code_simp
  moreover have "parseField ''0'' 0 59 = Some (Inr 1)" "parseField ''3'' 0 23 = Some (Inr 8)"
    "parseField ''*'' 1 31 = Some (Inr 0xFFFFFFFE)" "parseField ''*'' 1 12 = Some (Inr 0x1FFE)"
    "parseField ''*'' 0 6 = Some (Inr 0x7F)"
    by (simp_all add: parseField_def parseRange_def parse_step_def parse_bounds_def atoi_def parse_int_def
      parse_uint_def digit_val_def char_code_def fill_mask.simps wrap64_def bit_at_def)
  ultimately show ?thesis by (simp add: parseCron_def with_field_def daily_at_3_def)
qed

text \<open>One o'clock PST of that night, 2024-03-10 09:00 UTC.\<close>

definition one_am :: instant where "one_am = 1710061200 * second"

lemma one_am_facts:
  "t_Date los_angeles one_am = (2024, 3, 10)" "t_Hour los_angeles one_am = 1"
  "time_Date los_angeles 2024 3 10 2 = one_am"
  "has_bit (cs_month daily_at_3) 3" "\<not> has_bit (cs_hour daily_at_3) 1" "\<not> has_bit (cs_hour daily_at_3) 0"
  "dayMatches los_angeles daily_at_3 t"
  by code_simp+

lemma one_am_stuck: "next_loop los_angeles daily_at_3 dl one_am = Some r \<Longrightarrow> dl < one_am"
proof -
  let ?P = "\<lambda>loc s dl t r. loc = los_angeles \<and> s = daily_at_3 \<and> t = one_am \<longrightarrow> dl < one_am"
  assume a: "next_loop los_angeles daily_at_3 dl one_am = Some r"
  have "?P los_angeles daily_at_3 dl one_am r"
  proof (rule next_loop.raw_induct [where P = ?P, OF _ a], intro impI, elim conjE)
    fix f loc s dl t r
    assume ih: "\<And>loc s dl t r. f loc s dl t = Some r \<Longrightarrow> ?P loc s dl t r"
      and e: "loc = los_angeles" "s = daily_at_3" "t = one_am"
      and eq: "(if dl < t then Some dl
        else case t_Date loc t of (y, m, d) \<Rightarrow>
          if \<not> has_bit (cs_month s) m then f loc s dl (time_Date loc y (m + 1) 1 0)
          else if \<not> dayMatches loc s t then f loc s dl (time_Date loc y m (d + 1) 0)
          else if \<not> has_bit (cs_hour s) (t_Hour loc t)
            then f loc s dl (time_Date loc y m d (t_Hour loc t + 1))
          else if \<not> has_bit (cs_minute s) (t_Minute loc t) then f loc s dl (t + minute)
          else Some t) = Some r"
    have "dl < one_am \<or> f los_angeles daily_at_3 dl one_am = Some r"
      using eq unfolding e by (simp add: one_am_facts split: if_splits)
    then show "dl < one_am" using ih [of los_angeles daily_at_3 dl one_am r] by auto
  qed
  then show ?thesis by simp
qed

text \<open>C30. A daily job at 03:00 in the zone of Los Angeles: asked, during the night in which the
  clocks go forward, for the next firing time, \<open>Next\<close> never returns (the scheduler's goroutine
  spins for ever, and so does \<open>Schedule\<close>), although the schedule is valid and fires that morning.\<close>

theorem cron_Next_hangs:
  "parseCron ''0 3 * * *'' = Some (Inr daily_at_3) \<and>
   cron_Next los_angeles daily_at_3 (1710057600 * second) = None \<and>
   fires los_angeles daily_at_3 (1710064800 * second)"
proof (intro conjI)
  have midnight: "t_Date los_angeles (1710057660 * second) = (2024, 3, 10)"
    "t_Hour los_angeles (1710057660 * second) = 0"
    "time_Date los_angeles 2024 3 10 1 = one_am"
    "trunc_minute (1710057600 * second + minute) = 1710057660 * second"
    by code_simp+
  let ?dl = "1710057660 * second + 5 * 365 * 24 * 60 * minute"
  have dl: "one_am \<le> ?dl" "\<not> ?dl < 1710057660 * second"
    by (simp_all add: one_am_def second_def minute_def)
  have none: "next_loop los_angeles daily_at_3 ?dl one_am = None"
    using one_am_stuck [of ?dl] dl(1) by (cases "next_loop los_angeles daily_at_3 ?dl one_am") auto
  have "cron_Next los_angeles daily_at_3 (1710057600 * second) =
      next_loop los_angeles daily_at_3 ?dl (1710057660 * second)"
    by (simp only: cron_Next_def Let_def midnight)
  also have "\<dots> = next_loop los_angeles daily_at_3 ?dl one_am"
    by (subst next_loop.simps) (simp only: midnight one_am_facts dl(2) if_False if_True not_True_eq_False not_False_eq_True prod.case add_0)
  finally show "cron_Next los_angeles daily_at_3 (1710057600 * second) = None" by (simp only: none)
  show "fires los_angeles daily_at_3 (1710064800 * second)" by code_simp
qed (rule parse_daily_at_3)

end
