(* ===== verification/Jobs_DB.thy ===== *)
theory Jobs_DB
  imports Prelude
begin

text \<open>
  The job store (\<open>jobs/types.go\<close>, \<open>jobs/schema.go\<close>): the four tables of the schema, with
  their primary keys and the partial unique index on the keys of live jobs, and the kinds of SQL
  statement the queue runs on \<open>colmena_jobs\<close>. A statement is atomic: it gives its new table and
  the number of rows it touched, or an error and no change. Times in the tables are milliseconds.
\<close>

datatype Status = StatusPending | StatusRunning | StatusSucceeded | StatusFailed | StatusDead

instantiation Status :: linorder
begin

definition status_rank :: "Status \<Rightarrow> nat" where
  "status_rank s = (case s of StatusPending \<Rightarrow> 0 | StatusRunning \<Rightarrow> 1 | StatusSucceeded \<Rightarrow> 2
     | StatusFailed \<Rightarrow> 3 | StatusDead \<Rightarrow> 4)"

definition less_eq_Status :: "Status \<Rightarrow> Status \<Rightarrow> bool" where
  "less_eq_Status a b \<longleftrightarrow> status_rank a \<le> status_rank b"

definition less_Status :: "Status \<Rightarrow> Status \<Rightarrow> bool" where
  "less_Status a b \<longleftrightarrow> status_rank a < status_rank b"

instance
  by standard (auto simp: less_eq_Status_def less_Status_def status_rank_def split: Status.splits)

end

definition PriorityLow :: int where "PriorityLow = - 10"
definition PriorityNormal :: int where "PriorityNormal = 0"
definition PriorityHigh :: int where "PriorityHigh = 10"

text \<open>\<open>t.UnixMilli()\<close>, \<open>d.Milliseconds()\<close> and \<open>time.Duration(ms) * time.Millisecond\<close>.\<close>

definition unix_milli :: "instant \<Rightarrow> int" where
  "unix_milli t = t div 1000000"

definition milliseconds :: "duration \<Rightarrow> int" where
  "milliseconds d = (if d < 0 then - (- d div 1000000) else d div 1000000)"

definition of_millis :: "int \<Rightarrow> duration" where
  "of_millis ms = wrap64 (ms * 1000000)"

subsection \<open>Tables\<close>

record job_row =
  r_id :: string
  r_type :: string
  r_payload :: string
  r_status :: Status
  r_priority :: int
  r_attempts :: int
  r_max_attempts :: int
  r_enqueued_at :: int
  r_run_at :: int
  r_claimed_at :: "int option"
  r_claimed_by :: "string option"
  r_started_at :: "int option"
  r_finished_at :: "int option"
  r_last_error :: "string option"
  r_unique_key :: "string option"
  r_timeout_ms :: int

record schedule_row =
  s_id :: string
  s_job_type :: string
  s_cron_expr :: string
  s_payload :: string
  s_next_run_at :: int
  s_last_run_at :: "int option"
  s_enabled :: bool

text \<open>The rows of a table are in the order of their insertion; the tables keyed by the job type
  alone are maps: capacity and period of the rate limits, cap of the concurrency limits.\<close>

record jobs_db =
  d_jobs :: "job_row list"
  d_schedule :: "schedule_row list"
  d_ratelimit :: "string \<rightharpoonup> int \<times> int"
  d_concurrency :: "string \<rightharpoonup> int"

definition live :: "job_row \<Rightarrow> bool" where
  "live r \<longleftrightarrow> r_status r = StatusPending \<or> r_status r = StatusRunning"

definition terminal :: "job_row \<Rightarrow> bool" where
  "terminal r \<longleftrightarrow> r_status r = StatusSucceeded \<or> r_status r = StatusDead"

text \<open>The entries of \<open>idx_colmena_jobs_unique\<close> and the two constraints.\<close>

fun live_keys :: "job_row list \<Rightarrow> string list" where
  "live_keys [] = []"
| "live_keys (r # rs) =
     (if live r then (case r_unique_key r of None \<Rightarrow> live_keys rs | Some k \<Rightarrow> k # live_keys rs) else live_keys rs)"

definition id_ok :: "job_row list \<Rightarrow> bool" where
  "id_ok rs \<longleftrightarrow> distinct (map r_id rs)"

definition keys_ok :: "job_row list \<Rightarrow> bool" where
  "keys_ok rs \<longleftrightarrow> distinct (live_keys rs)"

subsection \<open>Statements\<close>

definition unique_error :: "string \<Rightarrow> error" where
  "unique_error col = ErrEnv (''constraint failed: UNIQUE constraint failed: colmena_jobs.'' @ col)"

text \<open>A statement can fail for a reason outside the model (the disk, a busy database, a closed
  connection): \<open>fault\<close> is that error. It then changes nothing.\<close>

definition exec_jobs ::
  "error option \<Rightarrow> (job_row list \<Rightarrow> (job_row list \<times> int) result) \<Rightarrow> jobs_db \<Rightarrow> jobs_db \<times> int result" where
  "exec_jobs fault stmt db =
     (case fault of
        Some e \<Rightarrow> (db, Inl e)
      | None \<Rightarrow>
          (case stmt (d_jobs db) of
             Inl e \<Rightarrow> (db, Inl e)
           | Inr (rs, n) \<Rightarrow> (db\<lparr>d_jobs := rs\<rparr>, Inr n)))"

definition insert_job :: "job_row \<Rightarrow> job_row list \<Rightarrow> (job_row list \<times> int) result" where
  "insert_job r rs =
     (if r_id r \<in> r_id ` set rs then Inl (unique_error ''id'')
      else if \<not> keys_ok (rs @ [r]) then Inl (unique_error ''unique_key'')
      else Inr (rs @ [r], 1))"

definition update_jobs ::
  "(job_row \<Rightarrow> bool) \<Rightarrow> (job_row \<Rightarrow> job_row) \<Rightarrow> job_row list \<Rightarrow> (job_row list \<times> int) result" where
  "update_jobs P f rs =
     (let rs' = map (\<lambda>r. if P r then f r else r) rs
      in if keys_ok rs' then Inr (rs', int (length (filter P rs))) else Inl (unique_error ''unique_key''))"

definition delete_jobs :: "(job_row \<Rightarrow> bool) \<Rightarrow> job_row list \<Rightarrow> (job_row list \<times> int) result" where
  "delete_jobs P rs = Inr (filter (\<lambda>r. \<not> P r) rs, int (length (filter P rs)))"

subsection \<open>Facts about the statements\<close>

lemma exec_jobs_cases:
  "exec_jobs fault stmt db = (db', x) \<Longrightarrow>
     (\<exists>e. x = Inl e \<and> db' = db) \<or>
     (\<exists>rs n. fault = None \<and> stmt (d_jobs db) = Inr (rs, n) \<and> x = Inr n \<and> db' = db\<lparr>d_jobs := rs\<rparr>)"
  by (auto simp: exec_jobs_def split: option.splits sum.splits)

text \<open>The tables as the constraints keep them; every statement does.\<close>

definition rows_ok :: "job_row list \<Rightarrow> bool" where
  "rows_ok rs \<longleftrightarrow> id_ok rs \<and> keys_ok rs"

lemma insert_job_ok: "rows_ok rs \<Longrightarrow> insert_job r rs = Inr (rs', n) \<Longrightarrow> rows_ok rs'"
  by (auto simp: insert_job_def rows_ok_def id_ok_def split: if_splits)

lemma update_jobs_ok:
  assumes "rows_ok rs" and "update_jobs P f rs = Inr (rs', n)" and "\<And>r. r_id (f r) = r_id r"
  shows "rows_ok rs'"
proof -
  have "map r_id (map (\<lambda>r. if P r then f r else r) rs) = map r_id rs"
    unfolding map_map using assms(3) by (intro map_cong) simp_all
  then show ?thesis
    using assms(1,2) unfolding update_jobs_def rows_ok_def id_ok_def Let_def by (auto split: if_splits simp del: map_map)
qed

lemma set_live_keys: "k \<in> set (live_keys rs) \<longleftrightarrow> (\<exists>r \<in> set rs. live r \<and> r_unique_key r = Some k)"
  by (induction rs) (auto split: option.splits)

lemma keys_ok_filter: "keys_ok rs \<Longrightarrow> keys_ok (filter P rs)"
  by (induction rs) (auto simp: keys_ok_def set_live_keys split: option.splits if_splits)

lemma delete_jobs_ok: "rows_ok rs \<Longrightarrow> delete_jobs P rs = Inr (rs', n) \<Longrightarrow> rows_ok rs'"
  by (auto simp: delete_jobs_def rows_ok_def id_ok_def keys_ok_filter distinct_map_filter)

lemma keys_ok_sub:
  assumes "keys_ok rs"
    and "\<And>r. r \<in> set rs \<Longrightarrow> r_unique_key (f r) = r_unique_key r \<and> (live (f r) \<longrightarrow> live r)"
  shows "keys_ok (map f rs)"
  using assms
proof (induction rs)
  case (Cons r rs)
  have ih: "keys_ok (map f rs)" using Cons by (simp add: keys_ok_def split: if_splits option.splits)
  have fr: "r_unique_key (f r) = r_unique_key r" "live (f r) \<longrightarrow> live r" using Cons.prems(2) [of r] by simp_all
  have "k \<notin> set (live_keys (map f rs))" if "k \<notin> set (live_keys rs)" for k
  proof
    assume "k \<in> set (live_keys (map f rs))"
    then obtain x where "x \<in> set rs" "live (f x)" "r_unique_key (f x) = Some k" by (auto simp: set_live_keys)
    with Cons.prems(2) [of x] that show False by (auto simp: set_live_keys)
  qed
  then show ?case using ih fr Cons.prems(1) by (auto simp: keys_ok_def split: option.splits if_splits)
qed simp

text \<open>An update that keeps the keys and makes no row live is never refused.\<close>

lemma update_jobs_total:
  assumes "keys_ok rs"
    and "\<And>r. r \<in> set rs \<Longrightarrow> P r \<Longrightarrow> r_unique_key (f r) = r_unique_key r \<and> (live (f r) \<longrightarrow> live r)"
  shows "update_jobs P f rs = Inr (map (\<lambda>r. if P r then f r else r) rs, int (length (filter P rs)))"
  using keys_ok_sub [OF assms(1), of "\<lambda>r. if P r then f r else r"] assms(2) by (simp add: update_jobs_def Let_def)

text \<open>With distinct ids a statement on one id touches one row.\<close>

lemma filter_id_single:
  "id_ok rs \<Longrightarrow> r \<in> set rs \<Longrightarrow> filter (\<lambda>x. r_id x = r_id r \<and> Q x) rs = (if Q r then [r] else [])"
proof (induction rs)
  case (Cons x xs)
  show ?case
  proof (cases "r = x")
    case True
    have "filter (\<lambda>y. r_id y = r_id x \<and> Q y) xs = []"
      using Cons.prems(1) unfolding id_ok_def filter_empty_conv by (metis distinct.simps(2) image_eqI list.set_map list.simps(9))
    then show ?thesis using True by simp
  next
    case False
    then have "r \<in> set xs" "r_id x \<noteq> r_id r" using Cons.prems by (auto simp: id_ok_def)
    then show ?thesis using Cons by (simp add: id_ok_def)
  qed
qed simp

lemma id_ok_unique: "id_ok rs \<Longrightarrow> r \<in> set rs \<Longrightarrow> s \<in> set rs \<Longrightarrow> r_id r = r_id s \<Longrightarrow> r = s"
  by (simp add: id_ok_def distinct_map inj_on_def)

end
