(* ===== verification/Jobs_Manager.thy ===== *)
theory Jobs_Manager
  imports Jobs_DB Jobs_Retry Go_Text
begin

text \<open>
  The manager of a node's job queue (\<open>jobs/manager.go\<close>, \<open>jobs/config.go\<close>,
  \<open>jobs/register.go\<close>, \<open>jobs/context.go\<close>): configuration and its defaults, the handler registry,
  start-up with the retried schema migration, and the call of a handler.
\<close>

subsection \<open>Configuration\<close>

record Config =
  cf_Workers :: int
  cf_PollInterval :: duration
  cf_DefaultTimeout :: duration
  cf_DefaultMaxAttempts :: int
  cf_SweepInterval :: duration
  cf_ScheduleInterval :: duration
  cf_DefaultBackoff :: Backoff
  cf_RetainTerminal :: duration
  cf_ReapInterval :: duration

text \<open>\<open>if c.X <= 0 { c.X = v }\<close>, on the field given by its selector and update.\<close>

definition default_to ::
  "(Config \<Rightarrow> int) \<Rightarrow> ((int \<Rightarrow> int) \<Rightarrow> Config \<Rightarrow> Config) \<Rightarrow> int \<Rightarrow> Config \<Rightarrow> Config" where
  "default_to get upd v c = (if get c \<le> 0 then upd (\<lambda>_. v) c else c)"

definition applyDefaults :: "Config \<Rightarrow> Config" where
  "applyDefaults c =
     (let sec = 1000000000;
          c = default_to cf_Workers cf_Workers_update 4 c;
          c = default_to cf_PollInterval cf_PollInterval_update (1 * sec) c;
          c = default_to cf_DefaultTimeout cf_DefaultTimeout_update (5 * 60 * sec) c;
          c = default_to cf_DefaultMaxAttempts cf_DefaultMaxAttempts_update 5 c;
          c = default_to cf_SweepInterval cf_SweepInterval_update (30 * sec) c;
          c = default_to cf_ScheduleInterval cf_ScheduleInterval_update (30 * sec) c;
          c = default_to (\<lambda>c. bo_Base (cf_DefaultBackoff c))
                (\<lambda>g. cf_DefaultBackoff_update (bo_Base_update g)) (5 * sec) c;
          c = default_to (\<lambda>c. bo_Max (cf_DefaultBackoff c))
                (\<lambda>g. cf_DefaultBackoff_update (bo_Max_update g)) (3600 * sec) c;
          c = (if cf_RetainTerminal c = 0 then c\<lparr>cf_RetainTerminal := 24 * 3600 * sec\<rparr> else c)
      in default_to cf_ReapInterval cf_ReapInterval_update (10 * 60 * sec) c)"

subsection \<open>Handlers\<close>

text \<open>What a handler is given: the identity of the attempt and the timeout of its context.\<close>

record jobCtx =
  jx_jobID :: string
  jx_jobType :: string
  jx_attempt :: int
  jx_enqueuedAt :: instant
  jx_nodeID :: string
  jx_timeout :: duration

text \<open>A handler returns a nil error or an error, given by its text, or it panics.\<close>

datatype handler_out = Returned "string option" | Panicked string

type_synonym HandlerFunc = "jobCtx \<Rightarrow> string \<Rightarrow> handler_out"

record handlerEntry =
  he_fn :: HandlerFunc
  he_backoff :: Backoff

type_synonym registry = "(string \<times> handlerEntry) list"

definition newHandlerRegistry :: registry where
  "newHandlerRegistry = []"

definition lookup :: "registry \<Rightarrow> string \<Rightarrow> handlerEntry option" where
  "lookup r jobType = map_of r jobType"

definition types :: "registry \<Rightarrow> string list" where
  "types r = map fst r"

text \<open>\<open>register\<close> panics on a second registration of a type, which is \<open>None\<close>.\<close>

definition register ::
  "registry \<Rightarrow> string \<Rightarrow> HandlerFunc \<Rightarrow> (handlerEntry \<Rightarrow> handlerEntry) list \<Rightarrow> registry option" where
  "register r jobType fn opts =
     (if lookup r jobType \<noteq> None then None
      else Some ((jobType, foldl (\<lambda>e f. f e) \<lparr>he_fn = fn, he_backoff = \<lparr>bo_Base = 0, bo_Max = 0\<rparr>\<rparr> opts) # r))"

definition WithBackoff :: "Backoff \<Rightarrow> handlerEntry \<Rightarrow> handlerEntry" where
  "WithBackoff b e = e\<lparr>he_backoff := b\<rparr>"

text \<open>\<open>Register[Args]\<close>: the typed handler behind a JSON decoder; an empty payload is the zero value.\<close>

definition typed_handler ::
  "(string \<Rightarrow> string + 'args) \<Rightarrow> 'args \<Rightarrow> (jobCtx \<Rightarrow> 'args \<Rightarrow> handler_out) \<Rightarrow> HandlerFunc" where
  "typed_handler unmarshal zero handler ctx payload =
     (if 0 < length payload then
        (case unmarshal payload of
           Inl e \<Rightarrow> Returned (Some (''unmarshal args: '' @ e))
         | Inr args \<Rightarrow> handler ctx args)
      else handler ctx zero)"

definition Register_Args ::
  "(string \<Rightarrow> string + 'args) \<Rightarrow> 'args \<Rightarrow> registry \<Rightarrow> string \<Rightarrow> (jobCtx \<Rightarrow> 'args \<Rightarrow> handler_out) \<Rightarrow>
    (handlerEntry \<Rightarrow> handlerEntry) list \<Rightarrow> registry option" where
  "Register_Args unmarshal zero r jobType handler opts =
     register r jobType (typed_handler unmarshal zero handler) opts"

subsection \<open>The manager\<close>

record Manager =
  m_nodeID :: string
  m_config :: Config
  m_handlers :: registry
  m_poked :: bool
  m_stopped :: bool
  m_executed :: "64 word"
  m_succeeded :: "64 word"
  m_failed :: "64 word"
  m_retried :: "64 word"
  m_dead :: "64 word"
  m_reaped :: "64 word"

text \<open>\<open>migrate\<close>: the schema statements run in order; the list holds the outcome of each.\<close>

fun migrate_from :: "nat \<Rightarrow> error option list \<Rightarrow> error option" where
  "migrate_from i [] = None"
| "migrate_from i (None # rest) = migrate_from (i + 1) rest"
| "migrate_from i (Some e # rest) = Some (Wrapped (''colmena/jobs: schema statement '' @ fmt_d (int i)) e)"

definition migrate :: "error option list \<Rightarrow> error option" where
  "migrate outcomes = migrate_from 0 outcomes"

text \<open>\<open>waitMigrate\<close>: \<open>outcomes k\<close> and \<open>clock k\<close> are the statements' outcomes and the time after
  the \<open>k\<close>-th attempt. The value \<open>None\<close> is a loop that never returns.\<close>

partial_function (option) migrate_loop ::
  "(nat \<Rightarrow> error option list) \<Rightarrow> (nat \<Rightarrow> instant) \<Rightarrow> instant \<Rightarrow> nat \<Rightarrow> error option option" where
  "migrate_loop outcomes clock deadline k =
     (case migrate (outcomes k) of
        None \<Rightarrow> Some None
      | Some e \<Rightarrow>
          if deadline < clock k then Some (Some (Wrapped ''colmena/jobs: schema migration'' e))
          else migrate_loop outcomes clock deadline (k + 1))"

definition waitMigrate :: "(nat \<Rightarrow> error option list) \<Rightarrow> (nat \<Rightarrow> instant) \<Rightarrow> instant \<Rightarrow> error option option" where
  "waitMigrate outcomes clock start = migrate_loop outcomes clock (start + 10 * 1000000000) 0"

datatype goroutine = WorkerLoop nat | SweeperLoop | SchedulerLoop | ReaperLoop

text \<open>\<open>jobs.New\<close>: the manager and the goroutines it starts; \<open>node = None\<close> is a nil node.\<close>

definition New ::
  "string option \<Rightarrow> Config \<Rightarrow> (nat \<Rightarrow> error option list) \<Rightarrow> (nat \<Rightarrow> instant) \<Rightarrow> instant \<Rightarrow>
    (Manager \<times> goroutine list) result option" where
  "New node cfg outcomes clock start =
     (let cfg = applyDefaults cfg in
      case node of
        None \<Rightarrow> Some (Inl (ErrText ''colmena/jobs: nil node''))
      | Some nodeID \<Rightarrow>
          (case waitMigrate outcomes clock start of
             None \<Rightarrow> None
           | Some (Some e) \<Rightarrow> Some (Inl e)
           | Some None \<Rightarrow>
               Some (Inr
                 (\<lparr>m_nodeID = nodeID, m_config = cfg, m_handlers = newHandlerRegistry, m_poked = False, m_stopped = False,
                   m_executed = 0, m_succeeded = 0, m_failed = 0, m_retried = 0, m_dead = 0, m_reaped = 0\<rparr>,
                  map WorkerLoop [0 ..< nat (cf_Workers cfg)] @ [SweeperLoop, SchedulerLoop] @
                  (if 0 \<le> cf_RetainTerminal cfg then [ReaperLoop] else [])))))"

text \<open>\<open>poke\<close> leaves one wake-up in the channel of capacity 1; \<open>Close\<close> closes the stop channel once.\<close>

definition poke :: "Manager \<Rightarrow> Manager" where
  "poke m = m\<lparr>m_poked := True\<rparr>"

definition Close :: "Manager \<Rightarrow> Manager" where
  "Close m = (if m_stopped m then m else m\<lparr>m_stopped := True\<rparr>)"

text \<open>Then it waits for the goroutines, for five seconds at most; \<open>finished\<close> says whether they ended in
  time. Its result is always nil.\<close>

definition close_wait :: "bool \<Rightarrow> string list" where
  "close_wait finished = (if finished then [] else [''colmena/jobs: manager close: timed out waiting for workers''])"

definition Manager_Close :: "bool \<Rightarrow> Manager \<Rightarrow> error option \<times> string list \<times> Manager" where
  "Manager_Close finished m = (let m = Close m in (None, close_wait finished, m))"

subsection \<open>Running a handler\<close>

text \<open>The worker's copy of a job, read by \<open>findCandidate\<close>.\<close>

record Job =
  j_ID :: string
  j_Type :: string
  j_Payload :: string
  j_Status :: Status
  j_Attempts :: int
  j_MaxAttempts :: int
  j_EnqueuedAt :: instant
  j_RunAt :: instant
  j_Timeout :: duration

text \<open>The error of a run: the sentinel \<open>errNoHandler\<close>, compared by identity, or an error with the
  given text.\<close>

datatype handler_err = errNoHandler | HandlerErr string

definition runHandler :: "Manager \<Rightarrow> Job \<Rightarrow> handler_err option" where
  "runHandler m j =
     (case lookup (m_handlers m) (j_Type j) of
        None \<Rightarrow> Some errNoHandler
      | Some entry \<Rightarrow>
          (let timeout = (if j_Timeout j \<le> 0 then cf_DefaultTimeout (m_config m) else j_Timeout j);
               jc = \<lparr>jx_jobID = j_ID j, jx_jobType = j_Type j, jx_attempt = j_Attempts j,
                     jx_enqueuedAt = j_EnqueuedAt j, jx_nodeID = m_nodeID m, jx_timeout = timeout\<rparr>
           in case he_fn entry jc (j_Payload j) of
                Returned None \<Rightarrow> None
              | Returned (Some e) \<Rightarrow> Some (HandlerErr e)
              | Panicked p \<Rightarrow> Some (HandlerErr (''handler panic: '' @ p))))"

end
