(* ===== verification/Jobs_Worker.thy ===== *)
theory Jobs_Worker
  imports Jobs_Manager "HOL-Library.Product_Lexorder"
begin

text \<open>
  The worker (\<open>jobs/worker.go\<close>): a candidate is read, claimed by one atomic update, its handler
  runs, and the outcome is written back. Several workers of several nodes share the table; what
  the others do between two statements of one worker is an argument of the model.
\<close>

subsection \<open>Finding a candidate\<close>

text \<open>\<open>ORDER BY priority DESC, run_at ASC LIMIT 1\<close>. Which of several rows of the same priority and
  time SQLite picks is not promised, and no theorem depends on it.\<close>

definition claim_key :: "job_row \<Rightarrow> int \<times> int" where
  "claim_key r = (- r_priority r, r_run_at r)"

definition claim_before :: "job_row \<Rightarrow> job_row \<Rightarrow> bool" where
  "claim_before a b \<longleftrightarrow>
     r_priority b < r_priority a \<or> (r_priority a = r_priority b \<and> r_run_at a < r_run_at b)"

interpretation claim_order: keyed_lt claim_before claim_key
  by unfold_locales (auto simp: claim_before_def claim_key_def less_prod_def')

definition eligible :: "int \<Rightarrow> string list \<Rightarrow> job_row \<Rightarrow> bool" where
  "eligible now ts r \<longleftrightarrow> r_status r = StatusPending \<and> r_run_at r \<le> now \<and> r_type r \<in> set ts"

definition job_of_row :: "job_row \<Rightarrow> Job" where
  "job_of_row r = \<lparr>j_ID = r_id r, j_Type = r_type r, j_Payload = r_payload r, j_Status = StatusPending,
     j_Attempts = r_attempts r, j_MaxAttempts = r_max_attempts r,
     j_EnqueuedAt = r_enqueued_at r * 1000000, j_RunAt = r_run_at r * 1000000,
     j_Timeout = of_millis (r_timeout_ms r)\<rparr>"

text \<open>\<open>sql.ErrNoRows\<close> is \<open>Inr None\<close>.\<close>

definition findCandidate :: "error option \<Rightarrow> int \<Rightarrow> string list \<Rightarrow> jobs_db \<Rightarrow> Job option result" where
  "findCandidate fault now ts db =
     (case fault of
        Some e \<Rightarrow> Inl e
      | None \<Rightarrow>
          (case go_sort claim_before (filter (eligible now ts) (d_jobs db)) of
             [] \<Rightarrow> Inr None
           | r # _ \<Rightarrow> Inr (Some (job_of_row r))))"

subsection \<open>The claim\<close>

text \<open>
  The two limits of the claim. In the counting subqueries the table \<open>colmena_jobs\<close> of the inner
  \<open>FROM\<close> hides the row being updated, so \<open>type = colmena_jobs.type\<close> compares a counted row with
  itself and the period is the one of the counted row's type.
\<close>

definition running_count :: "jobs_db \<Rightarrow> nat" where
  "running_count db = length (filter (\<lambda>x. r_type x = r_type x \<and> r_status x = StatusRunning) (d_jobs db))"

definition in_window :: "jobs_db \<Rightarrow> int \<Rightarrow> job_row \<Rightarrow> bool" where
  "in_window db now x \<longleftrightarrow>
     (case r_started_at x of
        None \<Rightarrow> False
      | Some st \<Rightarrow> (case d_ratelimit db (r_type x) of None \<Rightarrow> False | Some (_, period) \<Rightarrow> now - period < st))"

definition started_count :: "jobs_db \<Rightarrow> int \<Rightarrow> nat" where
  "started_count db now = length (filter (\<lambda>x. r_type x = r_type x \<and> in_window db now x) (d_jobs db))"

definition claimable :: "jobs_db \<Rightarrow> int \<Rightarrow> string \<Rightarrow> job_row \<Rightarrow> bool" where
  "claimable db now jid r \<longleftrightarrow>
     r_id r = jid \<and> r_status r = StatusPending \<and> r_run_at r \<le> now \<and>
     (case d_concurrency db (r_type r) of None \<Rightarrow> True | Some cap \<Rightarrow> int (running_count db) < cap) \<and>
     (case d_ratelimit db (r_type r) of None \<Rightarrow> True | Some (capacity, _) \<Rightarrow> int (started_count db now) < capacity)"

definition mark_claimed :: "int \<Rightarrow> string \<Rightarrow> job_row \<Rightarrow> job_row" where
  "mark_claimed now node r = r\<lparr>r_status := StatusRunning, r_claimed_at := Some now, r_claimed_by := Some node,
     r_started_at := Some now, r_attempts := r_attempts r + 1\<rparr>"

definition claim :: "error option \<Rightarrow> int \<Rightarrow> string \<Rightarrow> string \<Rightarrow> jobs_db \<Rightarrow> jobs_db \<times> int result" where
  "claim fault now node jid db = exec_jobs fault (update_jobs (claimable db now jid) (mark_claimed now node)) db"

subsection \<open>The outcome\<close>

definition mark_succeeded :: "int \<Rightarrow> job_row \<Rightarrow> job_row" where
  "mark_succeeded now r = r\<lparr>r_status := StatusSucceeded, r_finished_at := Some now, r_last_error := None\<rparr>"

definition mark_released :: "job_row \<Rightarrow> job_row" where
  "mark_released r = r\<lparr>r_status := StatusPending, r_claimed_at := None, r_claimed_by := None,
     r_started_at := None, r_attempts := max 0 (r_attempts r - 1)\<rparr>"

definition mark_dead :: "int \<Rightarrow> string \<Rightarrow> job_row \<Rightarrow> job_row" where
  "mark_dead now e r = r\<lparr>r_status := StatusDead, r_finished_at := Some now, r_last_error := Some e\<rparr>"

definition mark_retry :: "int \<Rightarrow> string \<Rightarrow> job_row \<Rightarrow> job_row" where
  "mark_retry nextRun e r = r\<lparr>r_status := StatusPending, r_run_at := nextRun, r_claimed_at := None,
     r_claimed_by := None, r_started_at := None, r_last_error := Some e\<rparr>"

text \<open>The environment of one pass of a worker: the clock readings, the random source of the
  jitter, the faults of the statements, and what the other connections do between them.\<close>

record work_env =
  we_now :: instant
  we_find_fault :: "error option"
  we_before_claim :: "jobs_db \<Rightarrow> jobs_db"
  we_claim_now :: instant
  we_claim_fault :: "error option"
  we_during_run :: "jobs_db \<Rightarrow> jobs_db"
  we_fin_now :: instant
  we_retry_now :: instant
  we_Int63n :: "int \<Rightarrow> int"
  we_fin_fault :: "error option"

definition backoff_for :: "Manager \<Rightarrow> string \<Rightarrow> Backoff" where
  "backoff_for m jobType =
     (case lookup (m_handlers m) jobType of
        None \<Rightarrow> cf_DefaultBackoff (m_config m)
      | Some entry \<Rightarrow> if 0 < bo_Base (he_backoff entry) then he_backoff entry else cf_DefaultBackoff (m_config m))"

text \<open>\<open>finalise\<close>. The counters move even when the statement fails. \<open>None\<close> is a panic in the
  random source.\<close>

definition finalise :: "work_env \<Rightarrow> Manager \<Rightarrow> Job \<Rightarrow> handler_err option \<Rightarrow> jobs_db \<Rightarrow> (Manager \<times> jobs_db) option" where
  "finalise env m j handlerErr db =
     (let now = unix_milli (we_fin_now env); on = (\<lambda>r. r_id r = j_ID j) in
      case handlerErr of
        None \<Rightarrow>
          let (db, _) = exec_jobs (we_fin_fault env) (update_jobs on (mark_succeeded now)) db
          in Some (m\<lparr>m_succeeded := m_succeeded m + 1\<rparr>, db)
      | Some errNoHandler \<Rightarrow>
          let (db, _) = exec_jobs (we_fin_fault env) (update_jobs on mark_released) db
          in Some (m, db)
      | Some (HandlerErr e) \<Rightarrow>
          if j_MaxAttempts j \<le> j_Attempts j then
            let (db, _) = exec_jobs (we_fin_fault env) (update_jobs on (mark_dead now e)) db
            in Some (m\<lparr>m_failed := m_failed m + 1, m_dead := m_dead m + 1\<rparr>, db)
          else
            (case nextBackoff (we_Int63n env) (backoff_for m (j_Type j)) (j_Attempts j) of
               None \<Rightarrow> None
             | Some delay \<Rightarrow>
                 let nextRun = unix_milli (we_retry_now env + delay);
                     (db, _) = exec_jobs (we_fin_fault env) (update_jobs on (mark_retry nextRun e)) db
                 in Some (m\<lparr>m_failed := m_failed m + 1, m_retried := m_retried m + 1\<rparr>, db)))"

subsection \<open>One pass\<close>

definition tryClaimAndRun :: "work_env \<Rightarrow> Manager \<Rightarrow> jobs_db \<Rightarrow> (Manager \<times> jobs_db \<times> bool) option" where
  "tryClaimAndRun env m db =
     (let ts = types (m_handlers m) in
      if length ts = 0 then Some (m, db, False)
      else case findCandidate (we_find_fault env) (unix_milli (we_now env)) ts db of
        Inl e \<Rightarrow> Some (m, db, False)
      | Inr None \<Rightarrow> Some (m, db, False)
      | Inr (Some candidate) \<Rightarrow>
          let db = we_before_claim env db;
              (db, res) = claim (we_claim_fault env) (unix_milli (we_claim_now env)) (m_nodeID m) (j_ID candidate) db
          in case res of
               Inl e \<Rightarrow> Some (m, db, False)
             | Inr n \<Rightarrow>
                 if n = 0 then Some (m, db, False)
                 else
                   let candidate = candidate\<lparr>j_Attempts := j_Attempts candidate + 1, j_Status := StatusRunning\<rparr>;
                       m = m\<lparr>m_executed := m_executed m + 1\<rparr>;
                       handlerErr = runHandler m candidate;
                       db = we_during_run env db
                   in (case finalise env m candidate handlerErr db of
                         None \<Rightarrow> None
                       | Some (m, db) \<Rightarrow> Some (m, db, True)))"

text \<open>\<open>workerLoop\<close>: a pass on every wake-up, until the stop channel closes; the next wait is 0
  after a pass that ran a job. The events are the select's outcomes, each with its environment.\<close>

datatype wakeup = StopCh | TimerFired | Poked

fun workerLoop :: "(wakeup \<times> work_env) list \<Rightarrow> Manager \<Rightarrow> jobs_db \<Rightarrow> (Manager \<times> jobs_db \<times> duration list) option" where
  "workerLoop [] m db = Some (m, db, [])"
| "workerLoop ((StopCh, _) # _) m db = Some (m, db, [])"
| "workerLoop ((w, env) # evs) m db =
     (case tryClaimAndRun env (if w = Poked then m\<lparr>m_poked := False\<rparr> else m) db of
        None \<Rightarrow> None
      | Some (m, db, did) \<Rightarrow>
          (case workerLoop evs m db of
             None \<Rightarrow> None
           | Some (m', db', waits) \<Rightarrow>
               Some (m', db', (if did then 0 else cf_PollInterval (m_config m)) # waits)))"

text \<open>\<open>placeholders(n)\<close>: \<open>?, ?, ...\<close>.\<close>

fun placeholders :: "nat \<Rightarrow> string" where
  "placeholders 0 = []"
| "placeholders (Suc 0) = ''?''"
| "placeholders (Suc n) = ''?, '' @ placeholders n"

end
