(* ===== verification/Jobs_Enqueue.thy ===== *)
theory Jobs_Enqueue
  imports Jobs_Manager Jobs_Cron Go_Fmt
begin

text \<open>
  Putting work in (\<open>jobs/enqueue.go\<close>): one-off jobs with their options and unique keys,
  recurring schedules, and the two kinds of limit.
\<close>

subsection \<open>Error texts\<close>

text \<open>\<open>indexOf\<close>, the loop over the start positions; \<open>None\<close> is the result \<open>-1\<close>.\<close>

fun index_from :: "nat \<Rightarrow> string \<Rightarrow> string \<Rightarrow> nat option" where
  "index_from i [] sub = (if sub = [] then Some i else None)"
| "index_from i (c # cs) sub =
     (if length (c # cs) < length sub then None
      else if take (length sub) (c # cs) = sub then Some i
      else index_from (i + 1) cs sub)"

definition indexOf :: "string \<Rightarrow> string \<Rightarrow> nat option" where
  "indexOf s sub = index_from 0 s sub"

definition contains :: "string \<Rightarrow> string \<Rightarrow> bool" where
  "contains s sub \<longleftrightarrow> length sub \<le> length s \<and> indexOf s sub \<noteq> None"

definition isUniqueViolation :: "error option \<Rightarrow> bool" where
  "isUniqueViolation err =
     (case err of
        None \<Rightarrow> False
      | Some e \<Rightarrow> contains (err_text e) ''UNIQUE constraint failed'' \<or>
                  contains (err_text e) ''constraint failed: UNIQUE'')"

subsection \<open>Options\<close>

record enqueueOpts =
  eo_priority :: int
  eo_runAt :: instant
  eo_maxAttempts :: int
  eo_uniqueKey :: string
  eo_timeout :: duration

definition WithPriority :: "int \<Rightarrow> enqueueOpts \<Rightarrow> enqueueOpts" where "WithPriority p opts = opts\<lparr>eo_priority := p\<rparr>"
definition WithRunAt :: "instant \<Rightarrow> enqueueOpts \<Rightarrow> enqueueOpts" where "WithRunAt t opts = opts\<lparr>eo_runAt := t\<rparr>"
definition WithMaxAttempts :: "int \<Rightarrow> enqueueOpts \<Rightarrow> enqueueOpts" where "WithMaxAttempts n opts = opts\<lparr>eo_maxAttempts := n\<rparr>"
definition WithUniqueKey :: "string \<Rightarrow> enqueueOpts \<Rightarrow> enqueueOpts" where "WithUniqueKey k opts = opts\<lparr>eo_uniqueKey := k\<rparr>"
definition WithTimeout :: "duration \<Rightarrow> enqueueOpts \<Rightarrow> enqueueOpts" where "WithTimeout d opts = opts\<lparr>eo_timeout := d\<rparr>"

subsection \<open>Enqueue\<close>

text \<open>The environment of one call: clock readings, the id drawn by \<open>newID\<close>, the outcome of
  \<open>json.Marshal\<close>, the faults of the three statements and what other connections do between them.\<close>

record enq_env =
  ee_start :: instant
  ee_now :: instant
  ee_id :: string
  ee_payload :: "string result"
  ee_select_fault :: "error option"
  ee_before_insert :: "jobs_db \<Rightarrow> jobs_db"
  ee_insert_fault :: "error option"
  ee_before_lookup :: "jobs_db \<Rightarrow> jobs_db"
  ee_lookup_fault :: "error option"

definition live_with_key :: "string \<Rightarrow> job_row \<Rightarrow> bool" where
  "live_with_key k r \<longleftrightarrow> r_unique_key r = Some k \<and> live r"

text \<open>\<open>SELECT id ... WHERE unique_key = ? AND status IN ('pending','running') LIMIT 1\<close>.\<close>

definition select_live :: "error option \<Rightarrow> string \<Rightarrow> jobs_db \<Rightarrow> string option" where
  "select_live fault k db =
     (case fault of
        Some e \<Rightarrow> None
      | None \<Rightarrow> map_option r_id (find (live_with_key k) (d_jobs db)))"

definition ErrDuplicateUnique :: error where
  "ErrDuplicateUnique = ErrText ''colmena/jobs: duplicate unique key''"

definition new_job_row :: "enq_env \<Rightarrow> string \<Rightarrow> string \<Rightarrow> enqueueOpts \<Rightarrow> job_row" where
  "new_job_row env jobType payload opts =
     (let now = unix_milli (ee_now env);
          runAtMs = unix_milli (eo_runAt opts);
          runAtMs = (if runAtMs < now then now else runAtMs)
      in \<lparr>r_id = ee_id env, r_type = jobType, r_payload = payload, r_status = StatusPending,
          r_priority = eo_priority opts, r_attempts = 0, r_max_attempts = eo_maxAttempts opts,
          r_enqueued_at = now, r_run_at = runAtMs, r_claimed_at = None, r_claimed_by = None,
          r_started_at = None, r_finished_at = None, r_last_error = None,
          r_unique_key = (if eo_uniqueKey opts \<noteq> [] then Some (eo_uniqueKey opts) else None),
          r_timeout_ms = milliseconds (eo_timeout opts)\<rparr>)"

definition enqueue_opts :: "enq_env \<Rightarrow> Manager \<Rightarrow> (enqueueOpts \<Rightarrow> enqueueOpts) list \<Rightarrow> enqueueOpts" where
  "enqueue_opts env m opts =
     foldl (\<lambda>a f. f a)
       \<lparr>eo_priority = PriorityNormal, eo_runAt = ee_start env, eo_maxAttempts = cf_DefaultMaxAttempts (m_config m),
        eo_uniqueKey = [], eo_timeout = cf_DefaultTimeout (m_config m)\<rparr> opts"

text \<open>The part of \<open>Enqueue\<close> from the insert on.\<close>

definition insert_new ::
  "enq_env \<Rightarrow> Manager \<Rightarrow> string \<Rightarrow> string \<Rightarrow> enqueueOpts \<Rightarrow> jobs_db \<Rightarrow> Manager \<times> jobs_db \<times> string result" where
  "insert_new env m jobType payload opts db =
     (let db = ee_before_insert env db;
          (db, res) = exec_jobs (ee_insert_fault env) (insert_job (new_job_row env jobType payload opts)) db
      in case res of
           Inr _ \<Rightarrow> (poke m, db, Inr (ee_id env))
         | Inl err \<Rightarrow>
             if eo_uniqueKey opts \<noteq> [] \<and> isUniqueViolation (Some err) then
               let db = ee_before_lookup env db in
               (case select_live (ee_lookup_fault env) (eo_uniqueKey opts) db of
                  Some existingID \<Rightarrow> (m, db, Inr existingID)
                | None \<Rightarrow> (m, db, Inl ErrDuplicateUnique))
             else (m, db, Inl (Wrapped ''colmena/jobs: insert'' err)))"

definition Enqueue ::
  "enq_env \<Rightarrow> Manager \<Rightarrow> string \<Rightarrow> (enqueueOpts \<Rightarrow> enqueueOpts) list \<Rightarrow> jobs_db \<Rightarrow> Manager \<times> jobs_db \<times> string result" where
  "Enqueue env m jobType options db =
     (let opts = enqueue_opts env m options in
      case ee_payload env of
        Inl err \<Rightarrow> (m, db, Inl (Wrapped ''colmena/jobs: marshal args'' err))
      | Inr payload \<Rightarrow>
          (case (if eo_uniqueKey opts \<noteq> [] then select_live (ee_select_fault env) (eo_uniqueKey opts) db else None) of
             Some existingID \<Rightarrow> (m, db, Inr existingID)
           | None \<Rightarrow> insert_new env m jobType payload opts db))"

subsection \<open>Schedules and limits\<close>

definition exec_fault :: "error option \<Rightarrow> (jobs_db \<Rightarrow> jobs_db) \<Rightarrow> jobs_db \<Rightarrow> jobs_db \<times> error option" where
  "exec_fault fault f db = (case fault of Some e \<Rightarrow> (db, Some e) | None \<Rightarrow> (f db, None))"

text \<open>\<open>INSERT ... ON CONFLICT(id) DO UPDATE\<close>: an existing row keeps \<open>last_run_at\<close>.\<close>

definition upsert_schedule :: "schedule_row \<Rightarrow> schedule_row list \<Rightarrow> schedule_row list" where
  "upsert_schedule x rows =
     (if s_id x \<in> s_id ` set rows
      then map (\<lambda>r. if s_id r = s_id x
             then r\<lparr>s_job_type := s_job_type x, s_cron_expr := s_cron_expr x, s_payload := s_payload x,
                    s_next_run_at := s_next_run_at x, s_enabled := True\<rparr> else r) rows
      else rows @ [x])"

text \<open>\<open>Schedule\<close>; the value \<open>None\<close> is a call that never returns. \<open>loc\<close> is the location of
  \<open>time.Now()\<close>.\<close>

definition Schedule ::
  "location \<Rightarrow> instant \<Rightarrow> string result \<Rightarrow> error option \<Rightarrow> string \<Rightarrow> string \<Rightarrow> string \<Rightarrow> jobs_db \<Rightarrow>
    (jobs_db \<times> error option) option" where
  "Schedule loc now marshal fault sid jobType cronExpr db =
     (case parseCron cronExpr of
        None \<Rightarrow> None
      | Some (Inl err) \<Rightarrow> Some (db, Some (Wrapped (''colmena/jobs: parse cron '' @ go_quote cronExpr) err))
      | Some (Inr sched) \<Rightarrow>
          (case marshal of
             Inl err \<Rightarrow> Some (db, Some (Wrapped ''colmena/jobs: marshal schedule args'' err))
           | Inr payload \<Rightarrow>
               (case cron_Next loc sched now of
                  None \<Rightarrow> None
                | Some next \<Rightarrow>
                    let (db, err) = exec_fault fault (\<lambda>db. db\<lparr>d_schedule := upsert_schedule
                          \<lparr>s_id = sid, s_job_type = jobType, s_cron_expr = cronExpr, s_payload = payload,
                           s_next_run_at = unix_milli next, s_last_run_at = None, s_enabled = True\<rparr>
                          (d_schedule db)\<rparr>) db
                    in Some (db, map_option (Wrapped ''colmena/jobs: upsert schedule'') err))))"

definition Unschedule :: "error option \<Rightarrow> string \<Rightarrow> jobs_db \<Rightarrow> jobs_db \<times> error option" where
  "Unschedule fault sid db =
     (let (db, err) = exec_fault fault (\<lambda>db. db\<lparr>d_schedule :=
            map (\<lambda>r. if s_id r = sid then r\<lparr>s_enabled := False\<rparr> else r) (d_schedule db)\<rparr>) db
      in (db, map_option (Wrapped ''colmena/jobs: unschedule'') err))"

definition SetConcurrency :: "error option \<Rightarrow> string \<Rightarrow> int \<Rightarrow> jobs_db \<Rightarrow> jobs_db \<times> error option" where
  "SetConcurrency fault jobType cap db =
     (if cap \<le> 0 then exec_fault fault (\<lambda>db. db\<lparr>d_concurrency := (d_concurrency db)(jobType := None)\<rparr>) db
      else exec_fault fault (\<lambda>db. db\<lparr>d_concurrency := (d_concurrency db)(jobType \<mapsto> cap)\<rparr>) db)"

record Rate =
  rt_N :: int
  rt_Per :: duration

definition SetRateLimit :: "error option \<Rightarrow> string \<Rightarrow> Rate \<Rightarrow> jobs_db \<Rightarrow> jobs_db \<times> error option" where
  "SetRateLimit fault jobType r db =
     (if rt_N r \<le> 0 \<or> rt_Per r \<le> 0
      then exec_fault fault (\<lambda>db. db\<lparr>d_ratelimit := (d_ratelimit db)(jobType := None)\<rparr>) db
      else exec_fault fault (\<lambda>db. db\<lparr>d_ratelimit := (d_ratelimit db)(jobType \<mapsto> (rt_N r, milliseconds (rt_Per r)))\<rparr>) db)"

end
