(* ===== verification/Jobs_Loops.thy ===== *)
theory Jobs_Loops
  imports Jobs_Enqueue
begin

text \<open>
  The background loops of a manager: the scheduler of recurring jobs (\<open>jobs/scheduler.go\<close>), the
  sweeper of orphaned jobs (\<open>jobs/sweeper.go\<close>) and the reaper of finished ones
  (\<open>jobs/reaper.go\<close>).
\<close>

subsection \<open>Sweeper\<close>

definition orphaned :: "int \<Rightarrow> job_row \<Rightarrow> bool" where
  "orphaned now r \<longleftrightarrow> r_status r = StatusRunning \<and> 0 < r_timeout_ms r \<and>
     (case r_claimed_at r of None \<Rightarrow> False | Some c \<Rightarrow> c + r_timeout_ms r < now)"

definition mark_orphaned :: "job_row \<Rightarrow> job_row" where
  "mark_orphaned r = r\<lparr>r_status := StatusPending, r_claimed_at := None, r_claimed_by := None, r_started_at := None,
     r_last_error := Some ((case r_last_error r of None \<Rightarrow> [] | Some e \<Rightarrow> e) @ '' (orphaned: reclaimed by sweeper)'')\<rparr>"

definition sweepOnce :: "error option \<Rightarrow> instant \<Rightarrow> jobs_db \<Rightarrow> jobs_db" where
  "sweepOnce fault now db =
     fst (exec_jobs fault (update_jobs (orphaned (unix_milli now)) mark_orphaned) db)"

subsection \<open>Reaper\<close>

definition expired :: "int \<Rightarrow> job_row \<Rightarrow> bool" where
  "expired cutoff r \<longleftrightarrow> r_status r \<in> {StatusSucceeded, StatusDead} \<and>
     (case r_finished_at r of None \<Rightarrow> False | Some f \<Rightarrow> f < cutoff)"

definition reapOnce :: "error option \<Rightarrow> instant \<Rightarrow> Manager \<Rightarrow> jobs_db \<Rightarrow> Manager \<times> jobs_db" where
  "reapOnce fault now m db =
     (let cutoff = unix_milli (now - cf_RetainTerminal (m_config m));
          (db, res) = exec_jobs fault (delete_jobs (expired cutoff)) db
      in case res of
           Inl e \<Rightarrow> (m, db)
         | Inr n \<Rightarrow> if n \<le> 0 then (m, db) else (m\<lparr>m_reaped := m_reaped m + word_of_int n\<rparr>, db))"

subsection \<open>Scheduler\<close>

text \<open>The environment of one due schedule: the id drawn, the faults of the insert and of the
  advance, and what other connections do before each.\<close>

record fire_env =
  fe_id :: string
  fe_before_insert :: "jobs_db \<Rightarrow> jobs_db"
  fe_insert_fault :: "error option"
  fe_before_advance :: "jobs_db \<Rightarrow> jobs_db"
  fe_advance_fault :: "error option"

definition scheduled_row :: "string \<Rightarrow> Manager \<Rightarrow> schedule_row \<Rightarrow> job_row" where
  "scheduled_row jid m d =
     \<lparr>r_id = jid, r_type = s_job_type d, r_payload = s_payload d, r_status = StatusPending, r_priority = 0,
      r_attempts = 0, r_max_attempts = cf_DefaultMaxAttempts (m_config m), r_enqueued_at = s_next_run_at d,
      r_run_at = s_next_run_at d, r_claimed_at = None, r_claimed_by = None, r_started_at = None,
      r_finished_at = None, r_last_error = None, r_unique_key = None,
      r_timeout_ms = milliseconds (cf_DefaultTimeout (m_config m))\<rparr>"

definition advance :: "string \<Rightarrow> int \<Rightarrow> int \<Rightarrow> jobs_db \<Rightarrow> jobs_db" where
  "advance sid fired next db = db\<lparr>d_schedule := map (\<lambda>r. if s_id r = sid
     then r\<lparr>s_last_run_at := Some fired, s_next_run_at := next\<rparr> else r) (d_schedule db)\<rparr>"

text \<open>One due row: a bad expression and a failed insert leave it for the next tick. The value
  \<open>None\<close> is a search for the next time that never returns.\<close>

definition fire :: "location \<Rightarrow> Manager \<Rightarrow> schedule_row \<Rightarrow> fire_env \<Rightarrow> jobs_db \<Rightarrow> jobs_db option" where
  "fire loc m d env db =
     (case parseCron (s_cron_expr d) of
        None \<Rightarrow> None
      | Some (Inl err) \<Rightarrow> Some db
      | Some (Inr sched) \<Rightarrow>
          (let (db, res) = exec_jobs (fe_insert_fault env) (insert_job (scheduled_row (fe_id env) m d)) (fe_before_insert env db)
           in case res of
                Inl err \<Rightarrow> Some db
              | Inr _ \<Rightarrow>
                  (case cron_Next loc sched (s_next_run_at d * 1000000) of
                     None \<Rightarrow> None
                   | Some next \<Rightarrow>
                       Some (fst (exec_fault (fe_advance_fault env)
                         (advance (s_id d) (s_next_run_at d) (unix_milli next)) (fe_before_advance env db))))))"

fun fire_all :: "location \<Rightarrow> Manager \<Rightarrow> schedule_row list \<Rightarrow> (schedule_row \<Rightarrow> fire_env) \<Rightarrow> jobs_db \<Rightarrow> jobs_db option" where
  "fire_all loc m [] envs db = Some db"
| "fire_all loc m (d # ds) envs db =
     (case fire loc m d (envs d) db of
        None \<Rightarrow> None
      | Some db \<Rightarrow> fire_all loc m ds envs db)"

definition due :: "int \<Rightarrow> schedule_row \<Rightarrow> bool" where
  "due now r \<longleftrightarrow> s_enabled r \<and> s_next_run_at r \<le> now"

definition schedulerOnce ::
  "location \<Rightarrow> error option \<Rightarrow> instant \<Rightarrow> (schedule_row \<Rightarrow> fire_env) \<Rightarrow> Manager \<Rightarrow> jobs_db \<Rightarrow> jobs_db option" where
  "schedulerOnce loc query_fault now envs m db =
     (case query_fault of
        Some e \<Rightarrow> Some db
      | None \<Rightarrow> fire_all loc m (filter (due (unix_milli now)) (d_schedule db)) envs db)"

subsection \<open>The loops\<close>

text \<open>\<open>Node.IsLeader\<close> of this version always reports true.\<close>

definition IsLeader :: bool where "IsLeader = True"

text \<open>The ticks a loop sees before its stop event, each with the clock and the faults.\<close>

datatype 'env loop_event = StopLoop | Tick 'env

fun sweeperLoop :: "(error option \<times> instant) loop_event list \<Rightarrow> jobs_db \<Rightarrow> jobs_db" where
  "sweeperLoop [] db = db"
| "sweeperLoop (StopLoop # _) db = db"
| "sweeperLoop (Tick (fault, now) # evs) db =
     (if \<not> IsLeader then sweeperLoop evs db else sweeperLoop evs (sweepOnce fault now db))"

fun reaperLoop :: "(error option \<times> instant) loop_event list \<Rightarrow> Manager \<times> jobs_db \<Rightarrow> Manager \<times> jobs_db" where
  "reaperLoop [] s = s"
| "reaperLoop (StopLoop # _) s = s"
| "reaperLoop (Tick (fault, now) # evs) s =
     (if \<not> IsLeader then reaperLoop evs s else reaperLoop evs (reapOnce fault now (fst s) (snd s)))"

fun schedulerLoop ::
  "location \<Rightarrow> Manager \<Rightarrow> (error option \<times> instant \<times> (schedule_row \<Rightarrow> fire_env)) loop_event list \<Rightarrow> jobs_db \<Rightarrow> jobs_db option" where
  "schedulerLoop loc m [] db = Some db"
| "schedulerLoop loc m (StopLoop # _) db = Some db"
| "schedulerLoop loc m (Tick (fault, now, envs) # evs) db =
     (if \<not> IsLeader then schedulerLoop loc m evs db
      else case schedulerOnce loc fault now envs m db of
             None \<Rightarrow> None
           | Some db \<Rightarrow> schedulerLoop loc m evs db)"

end
