(* ===== verification/Jobs_Invariant.thy ===== *)
theory Jobs_Invariant
  imports Jobs_Worker Jobs_Loops
begin

text \<open>
  What holds of the job table in every reachable state. Every operation of the queue is a
  sequence of statements, whatever fails and whatever the other connections do in between. The
  locale is the contract of an invariant: a property that each single statement keeps holds after
  any number of operations. Its instance is the well-formedness of the rows.
\<close>

subsection \<open>Statements\<close>

text \<open>The rows that \<open>Enqueue\<close> and the scheduler insert.\<close>

definition fresh_row :: "job_row \<Rightarrow> bool" where
  "fresh_row r \<longleftrightarrow> r_status r = StatusPending \<and> r_attempts r = 0 \<and> r_claimed_at r = None \<and>
     r_claimed_by r = None \<and> r_started_at r = None \<and> r_finished_at r = None"

lemma fresh_new_job_row: "fresh_row (new_job_row env jobType payload opts)"
  by (simp add: fresh_row_def new_job_row_def Let_def)

lemma fresh_scheduled_row: "fresh_row (scheduled_row jid m d)"
  by (simp add: fresh_row_def scheduled_row_def)

text \<open>One statement on the job table, by anyone, or a change of the other tables.\<close>

inductive stmt :: "jobs_db \<Rightarrow> jobs_db \<Rightarrow> bool" where
  insert: "fresh_row r \<Longrightarrow> exec_jobs f (insert_job r) db = (db', x) \<Longrightarrow> stmt db db'"
| claim: "claim f now node jid db = (db', x) \<Longrightarrow> stmt db db'"
| succeed: "exec_jobs f (update_jobs (\<lambda>r. r_id r = jid) (mark_succeeded now)) db = (db', x) \<Longrightarrow> stmt db db'"
| release: "exec_jobs f (update_jobs (\<lambda>r. r_id r = jid) mark_released) db = (db', x) \<Longrightarrow> stmt db db'"
| dead: "exec_jobs f (update_jobs (\<lambda>r. r_id r = jid) (mark_dead now e)) db = (db', x) \<Longrightarrow> stmt db db'"
| retry: "exec_jobs f (update_jobs (\<lambda>r. r_id r = jid) (mark_retry nextRun e)) db = (db', x) \<Longrightarrow> stmt db db'"
| sweep: "exec_jobs f (update_jobs (orphaned now) mark_orphaned) db = (db', x) \<Longrightarrow> stmt db db'"
| reap: "exec_jobs f (delete_jobs (expired cutoff)) db = (db', x) \<Longrightarrow> stmt db db'"
| other: "d_jobs db' = d_jobs db \<Longrightarrow> stmt db db'"

abbreviation stmts :: "jobs_db \<Rightarrow> jobs_db \<Rightarrow> bool" where
  "stmts \<equiv> stmt\<^sup>*\<^sup>*"

text \<open>What the other connections do between two statements of an operation is statements too.\<close>

definition orderly :: "(jobs_db \<Rightarrow> jobs_db) \<Rightarrow> bool" where
  "orderly g \<longleftrightarrow> (\<forall>db. stmts db (g db))"

lemma orderlyD: "orderly g \<Longrightarrow> stmts db (g db)"
  by (simp add: orderly_def)

lemma orderly_id: "orderly (\<lambda>db. db)"
  by (simp add: orderly_def)

lemmas stmt_then = converse_rtranclp_into_rtranclp
lemmas then_stmt = rtranclp.rtrancl_into_rtrancl

text \<open>Every operation of the queue is a sequence of statements.\<close>

lemma finalise_stmts: "finalise env m j err db = Some (m', db') \<Longrightarrow> stmts db db'"
  by (auto simp: finalise_def Let_def split: option.splits handler_err.splits if_splits prod.splits
      intro!: r_into_rtranclp intro: stmt.succeed stmt.release stmt.dead stmt.retry)

lemma tryClaimAndRun_stmts:
  assumes "orderly (we_before_claim env)" and "orderly (we_during_run env)"
    and "tryClaimAndRun env m db = Some (m', db', b)"
  shows "stmts db db'"
proof -
  note B = orderlyD [OF assms(1), of db] and D = orderlyD [OF assms(2)]
  have C: "stmts db db2" if "claim f now node jid (we_before_claim env db) = (db2, x)" for f now node jid db2 x
    using B stmt.claim [OF that] by (rule then_stmt)
  have E: "stmts db db3"
    if "claim f now node jid (we_before_claim env db) = (db2, x)"
      and "finalise env m2 j2 err (we_during_run env db2) = Some (m3, db3)" for f now node jid db2 x m2 j2 err m3 db3
    using rtranclp_trans [OF rtranclp_trans [OF C [OF that(1)] D] finalise_stmts [OF that(2)]] .
  show ?thesis
    using assms(3) C E
    by (auto simp: tryClaimAndRun_def Let_def split: if_splits sum.splits option.splits prod.splits)
qed

lemma insert_new_stmts:
  assumes "orderly (ee_before_insert env)" and "orderly (ee_before_lookup env)"
    and "insert_new env m t p opts db = (m', db', x)"
  shows "stmts db db'"
proof -
  have C: "stmts db db2"
    if "exec_jobs f (insert_job (new_job_row env t p opts)) (ee_before_insert env db) = (db2, y)" for f db2 y
    using orderlyD [OF assms(1)] stmt.insert [OF fresh_new_job_row that] by (rule then_stmt)
  have E: "stmts db (ee_before_lookup env db2)"
    if "exec_jobs f (insert_job (new_job_row env t p opts)) (ee_before_insert env db) = (db2, y)" for f db2 y
    using rtranclp_trans [OF C [OF that] orderlyD [OF assms(2)]] .
  show ?thesis
    using assms(3) C E by (auto simp: insert_new_def Let_def split: sum.splits option.splits prod.splits if_splits)
qed

lemma Enqueue_stmts:
  "orderly (ee_before_insert env) \<Longrightarrow> orderly (ee_before_lookup env) \<Longrightarrow>
     Enqueue env m t opts db = (m', db', x) \<Longrightarrow> stmts db db'"
  using insert_new_stmts by (auto simp: Enqueue_def Let_def split: sum.splits option.splits)

lemma sweepOnce_stmts: "stmts db (sweepOnce f now db)"
  unfolding sweepOnce_def
  by (cases "exec_jobs f (update_jobs (orphaned (unix_milli now)) mark_orphaned) db") (auto intro: stmt.sweep)

lemma reapOnce_stmts: "reapOnce f now m db = (m', db') \<Longrightarrow> stmts db db'"
  by (auto simp: reapOnce_def Let_def split: prod.splits sum.splits if_splits intro: stmt.reap)

lemma exec_fault_stmts: "(\<And>db. d_jobs (g db) = d_jobs db) \<Longrightarrow> stmts db (fst (exec_fault f g db))"
  by (auto simp: exec_fault_def split: option.splits intro: stmt.other)

lemma fire_stmts:
  assumes "orderly (fe_before_insert env)" and "orderly (fe_before_advance env)"
    and "fire loc m d env db = Some db'"
  shows "stmts db db'"
proof -
  have C: "stmts db db2"
    if "exec_jobs f (insert_job (scheduled_row jid m d)) (fe_before_insert env db) = (db2, x)" for f jid db2 x
    using orderlyD [OF assms(1)] stmt.insert [OF fresh_scheduled_row that] by (rule then_stmt)
  have A: "stmts db2 (fst (exec_fault f (advance sid fired nx) (fe_before_advance env db2)))" for f sid fired nx db2
    using rtranclp_trans [OF orderlyD [OF assms(2)] exec_fault_stmts [of "advance sid fired nx"]]
    by (simp add: advance_def)
  show ?thesis
    using assms(3) rtranclp_trans [OF C A] C by (auto simp: fire_def Let_def split: option.splits sum.splits prod.splits)
qed

lemma schedulerOnce_stmts:
  assumes "\<And>d. orderly (fe_before_insert (envs d)) \<and> orderly (fe_before_advance (envs d))"
    and "schedulerOnce loc f now envs m db = Some db'"
  shows "stmts db db'"
proof -
  have "fire_all loc m ds envs db = Some db' \<Longrightarrow> stmts db db'" for ds db
  proof (induction ds arbitrary: db)
    case (Cons d ds)
    then obtain db2 where "fire loc m d (envs d) db = Some db2" "fire_all loc m ds envs db2 = Some db'"
      by (auto split: option.splits)
    then show ?case using fire_stmts assms(1) Cons.IH rtranclp_trans by metis
  qed simp
  then show ?thesis using assms(2) by (auto simp: schedulerOnce_def split: option.splits)
qed

subsection \<open>Invariants of the statements\<close>

text \<open>A property that each statement keeps holds after any sequence of operations.\<close>

locale db_invariant =
  fixes I :: "jobs_db \<Rightarrow> bool"
  assumes insert_keeps: "I db \<Longrightarrow> fresh_row r \<Longrightarrow> I (fst (exec_jobs f (insert_job r) db))"
    and claim_keeps: "I db \<Longrightarrow> I (fst (claim f now node jid db))"
    and succeed_keeps: "I db \<Longrightarrow> I (fst (exec_jobs f (update_jobs (\<lambda>r. r_id r = jid) (mark_succeeded now)) db))"
    and release_keeps: "I db \<Longrightarrow> I (fst (exec_jobs f (update_jobs (\<lambda>r. r_id r = jid) mark_released) db))"
    and dead_keeps: "I db \<Longrightarrow> I (fst (exec_jobs f (update_jobs (\<lambda>r. r_id r = jid) (mark_dead now e)) db))"
    and retry_keeps: "I db \<Longrightarrow> I (fst (exec_jobs f (update_jobs (\<lambda>r. r_id r = jid) (mark_retry now e)) db))"
    and sweep_keeps: "I db \<Longrightarrow> I (fst (exec_jobs f (update_jobs (orphaned now) mark_orphaned) db))"
    and reap_keeps: "I db \<Longrightarrow> I (fst (exec_jobs f (delete_jobs (expired cutoff)) db))"
    and other_keeps: "I db \<Longrightarrow> d_jobs db' = d_jobs db \<Longrightarrow> I db'"
begin

lemma stmt_keeps: "stmt db db' \<Longrightarrow> I db \<Longrightarrow> I db'"
proof (induction rule: stmt.induct)
  case (insert r f db db' x) then show ?case using insert_keeps [of db r f] by simp
next
  case (claim f now node jid db db' x) then show ?case using claim_keeps [of db f now node jid] by simp
next
  case (succeed f jid now db db' x) then show ?case using succeed_keeps [of db f jid now] by simp
next
  case (release f jid db db' x) then show ?case using release_keeps [of db f jid] by simp
next
  case (dead f jid now e db db' x) then show ?case using dead_keeps [of db f jid now e] by simp
next
  case (retry f jid now e db db' x) then show ?case using retry_keeps [of db f jid now e] by simp
next
  case (sweep f now db db' x) then show ?case using sweep_keeps [of db f now] by simp
next
  case (reap f cutoff db db' x) then show ?case using reap_keeps [of db f cutoff] by simp
next
  case (other db' db) then show ?case using other_keeps by simp
qed

lemma stmts_keep: "stmts db db' \<Longrightarrow> I db \<Longrightarrow> I db'"
  by (induction rule: rtranclp_induct) (auto intro: stmt_keeps)

end

subsection \<open>Well-formed rows\<close>

text \<open>
  A pending row carries no claim, a running row is claimed, not before it was due, started and
  counted, a finished row has its time; attempts are never negative; the status \<open>failed\<close> is never used.
\<close>

definition row_ok :: "job_row \<Rightarrow> bool" where
  "row_ok r \<longleftrightarrow> 0 \<le> r_attempts r \<and> r_status r \<noteq> StatusFailed \<and>
     (r_status r = StatusPending \<longrightarrow> r_claimed_at r = None \<and> r_claimed_by r = None \<and> r_started_at r = None) \<and>
     (r_status r = StatusRunning \<longrightarrow> r_claimed_at r \<noteq> None \<and> r_claimed_by r \<noteq> None \<and> r_started_at r \<noteq> None \<and>
        0 < r_attempts r \<and> r_run_at r \<le> the (r_claimed_at r)) \<and>
     (terminal r \<longrightarrow> r_finished_at r \<noteq> None)"

definition job_inv :: "jobs_db \<Rightarrow> bool" where
  "job_inv db \<longleftrightarrow> rows_ok (d_jobs db) \<and> (\<forall>r \<in> set (d_jobs db). row_ok r)"

lemma job_inv_update:
  assumes "job_inv db" and "\<And>r. r_id (f r) = r_id r" and "\<And>r. P r \<Longrightarrow> row_ok r \<Longrightarrow> row_ok (f r)"
  shows "job_inv (fst (exec_jobs fault (update_jobs P f) db))"
proof -
  have "job_inv (db\<lparr>d_jobs := rs\<rparr>)" if u: "update_jobs P f (d_jobs db) = Inr (rs, n)" for rs n
  proof -
    have "rows_ok rs" using update_jobs_ok [OF _ u assms(2)] assms(1) by (simp add: job_inv_def)
    moreover have "row_ok r" if "r \<in> set rs" for r
      using that u assms(1,3) by (auto simp: update_jobs_def job_inv_def Let_def split: if_splits)
    ultimately show ?thesis by (simp add: job_inv_def)
  qed
  then show ?thesis
    using assms(1) by (auto simp: exec_jobs_def split: option.splits sum.splits)
qed

lemma row_ok_marks:
  "row_ok r \<Longrightarrow> claimable db now jid r \<Longrightarrow> row_ok (mark_claimed now node r)" "row_ok r \<Longrightarrow> row_ok (mark_succeeded now r)"
  "row_ok r \<Longrightarrow> row_ok (mark_released r)" "row_ok r \<Longrightarrow> row_ok (mark_dead now e r)"
  "row_ok r \<Longrightarrow> row_ok (mark_retry now e r)" "row_ok r \<Longrightarrow> row_ok (mark_orphaned r)"
  by (simp_all add: row_ok_def terminal_def claimable_def mark_claimed_def mark_succeeded_def mark_released_def
    mark_dead_def mark_retry_def mark_orphaned_def)

lemma mark_ids [simp]:
  "r_id (mark_claimed now node r) = r_id r" "r_id (mark_succeeded now r) = r_id r" "r_id (mark_released r) = r_id r"
  "r_id (mark_dead now e r) = r_id r" "r_id (mark_retry now e r) = r_id r" "r_id (mark_orphaned r) = r_id r"
  by (simp_all add: mark_claimed_def mark_succeeded_def mark_released_def mark_dead_def mark_retry_def mark_orphaned_def)

interpretation queue: db_invariant job_inv
proof unfold_locales
  show "job_inv (fst (exec_jobs f (insert_job r) db))" if "job_inv db" "fresh_row r" for db r f
  proof -
    have "row_ok r" using that(2) by (simp add: fresh_row_def row_ok_def terminal_def)
    then show ?thesis
      using that(1) insert_job_ok [of "d_jobs db" r]
      by (auto simp: exec_jobs_def job_inv_def insert_job_def split: option.splits sum.splits if_splits)
  qed
  show "job_inv (fst (exec_jobs f (delete_jobs (expired cutoff)) db))" if "job_inv db" for db f cutoff
    using that delete_jobs_ok [of "d_jobs db" "expired cutoff"]
    by (auto simp: exec_jobs_def job_inv_def delete_jobs_def split: option.splits)
qed (auto simp: claim_def intro!: job_inv_update row_ok_marks, simp add: job_inv_def)

subsection \<open>Reachable states\<close>

text \<open>The states of the store: empty tables, then any operation of any of the managers that share
  it, on any arguments and with any faults, and the last state of an operation that was cut off
  between two statements.\<close>

inductive queue_state :: "jobs_db \<Rightarrow> bool" where
  empty: "d_jobs db = [] \<Longrightarrow> queue_state db"
| enqueue: "queue_state db \<Longrightarrow> orderly (ee_before_insert env) \<Longrightarrow> orderly (ee_before_lookup env) \<Longrightarrow>
    Enqueue env m t opts db = (m', db', x) \<Longrightarrow> queue_state db'"
| run: "queue_state db \<Longrightarrow> orderly (we_before_claim wenv) \<Longrightarrow> orderly (we_during_run wenv) \<Longrightarrow>
    tryClaimAndRun wenv m db = Some (m', db', b) \<Longrightarrow> queue_state db'"
| sweep: "queue_state db \<Longrightarrow> queue_state (sweepOnce f now db)"
| reap: "queue_state db \<Longrightarrow> reapOnce f now m db = (m', db') \<Longrightarrow> queue_state db'"
| schedule: "queue_state db \<Longrightarrow>
    (\<And>d. orderly (fe_before_insert (envs d)) \<and> orderly (fe_before_advance (envs d))) \<Longrightarrow>
    schedulerOnce loc f now envs m db = Some db' \<Longrightarrow> queue_state db'"
| tables: "queue_state db \<Longrightarrow> d_jobs db' = d_jobs db \<Longrightarrow> queue_state db'"
| cut: "queue_state db \<Longrightarrow> stmt db db' \<Longrightarrow> queue_state db'"

lemma queue_state_stmts: "queue_state db \<Longrightarrow> \<exists>db0. d_jobs db0 = [] \<and> stmts db0 db"
proof (induction rule: queue_state.induct)
  case (enqueue db env m t opts m' db' x)
  then show ?case using Enqueue_stmts rtranclp_trans by metis
next
  case (run db wenv m m' db' b)
  then show ?case using tryClaimAndRun_stmts rtranclp_trans by metis
next
  case (sweep db f now)
  then show ?case using sweepOnce_stmts rtranclp_trans by metis
next
  case (reap db f now m m' db')
  then show ?case using reapOnce_stmts rtranclp_trans by metis
next
  case (schedule db envs loc f now m db')
  then show ?case using schedulerOnce_stmts rtranclp_trans by metis
next
  case (tables db db')
  then show ?case using stmt.other then_stmt by metis
next
  case (cut db db')
  then show ?case using then_stmt by metis
qed auto

lemma queue_state_inv: "queue_state db \<Longrightarrow> job_inv db"
proof -
  assume "queue_state db"
  then obtain db0 where "d_jobs db0 = []" "stmts db0 db" using queue_state_stmts by blast
  moreover from this(1) have "job_inv db0" by (simp add: job_inv_def rows_ok_def id_ok_def keys_ok_def)
  ultimately show ?thesis by (blast intro: queue.stmts_keep)
qed

text \<open>C9. In every reachable state of the queue, with any number of workers, enqueuers, sweepers,
  reapers and schedulers interleaving and any of their statements failing: ids are unique, no two
  live jobs share a unique key, a pending job carries no claim, a running job is claimed, started
  and counted, and a finished job has its finishing time.\<close>

theorem queue_invariant:
  assumes "queue_state db"
  shows "id_ok (d_jobs db) \<and> keys_ok (d_jobs db) \<and> list_all row_ok (d_jobs db)"
  using queue_state_inv [OF assms] by (simp add: job_inv_def rows_ok_def list_all_iff)

text \<open>A small store, for the examples: one manager with one handler, and rows of jobs.\<close>

definition conf_ex :: Config where
  "conf_ex = applyDefaults \<lparr>cf_Workers = 0, cf_PollInterval = 0, cf_DefaultTimeout = 0, cf_DefaultMaxAttempts = 0,
     cf_SweepInterval = 0, cf_ScheduleInterval = 0, cf_DefaultBackoff = \<lparr>bo_Base = 0, bo_Max = 0\<rparr>,
     cf_RetainTerminal = 0, cf_ReapInterval = 0\<rparr>"

definition man_ex :: "handler_out \<Rightarrow> Manager" where
  "man_ex out = \<lparr>m_nodeID = ''n1'', m_config = conf_ex,
     m_handlers = [(''mail'', \<lparr>he_fn = (\<lambda>_ _. out), he_backoff = \<lparr>bo_Base = 0, bo_Max = 0\<rparr>\<rparr>)],
     m_poked = False, m_stopped = False, m_executed = 0, m_succeeded = 0, m_failed = 0, m_retried = 0,
     m_dead = 0, m_reaped = 0\<rparr>"

definition enq_ex :: "instant \<Rightarrow> string \<Rightarrow> enq_env" where
  "enq_ex now jid = \<lparr>ee_start = now, ee_now = now, ee_id = jid, ee_payload = Inr ''{}'', ee_select_fault = None,
     ee_before_insert = (\<lambda>db. db), ee_insert_fault = None, ee_before_lookup = (\<lambda>db. db), ee_lookup_fault = None\<rparr>"

definition work_ex :: "instant \<Rightarrow> work_env" where
  "work_ex now = \<lparr>we_now = now, we_find_fault = None, we_before_claim = (\<lambda>db. db), we_claim_now = now,
     we_claim_fault = None, we_during_run = (\<lambda>db. db), we_fin_now = now, we_retry_now = now,
     we_Int63n = (\<lambda>n. 0), we_fin_fault = None\<rparr>"

definition db_ex :: "job_row list \<Rightarrow> jobs_db" where
  "db_ex rs = \<lparr>d_jobs = rs, d_schedule = [], d_ratelimit = Map.empty, d_concurrency = Map.empty\<rparr>"

definition row_ex :: "string \<Rightarrow> string \<Rightarrow> job_row" where
  "row_ex jid t = \<lparr>r_id = jid, r_type = t, r_payload = ''{}'', r_status = StatusPending, r_priority = 0, r_attempts = 0,
     r_max_attempts = 5, r_enqueued_at = 1000, r_run_at = 1000, r_claimed_at = None, r_claimed_by = None,
     r_started_at = None, r_finished_at = None, r_last_error = None, r_unique_key = None, r_timeout_ms = 300000\<rparr>"

lemmas ex_defs = conf_ex_def man_ex_def enq_ex_def work_ex_def db_ex_def row_ex_def applyDefaults_def default_to_def

lemma enqueue_ex:
  "Enqueue (enq_ex 1000000000 ''J1'') (man_ex (Returned None)) ''mail'' [] (db_ex []) =
     (poke (man_ex (Returned None)), db_ex [row_ex ''J1'' ''mail''], Inr ''J1'')"
  by (simp add: ex_defs Enqueue_def insert_new_def enqueue_opts_def exec_jobs_def insert_job_def new_job_row_def
      keys_ok_def unix_milli_def milliseconds_def PriorityNormal_def Let_def)

lemma run_ex:
  "tryClaimAndRun (work_ex 2000000000) (man_ex (Returned None)) (db_ex [row_ex ''J1'' ''mail'']) =
     Some (man_ex (Returned None)\<lparr>m_executed := 1, m_succeeded := 1\<rparr>,
       db_ex [mark_succeeded 2000 (mark_claimed 2000 ''n1'' (row_ex ''J1'' ''mail''))], True)"
  by (simp add: ex_defs tryClaimAndRun_def findCandidate_def eligible_def job_of_row_def claim_def exec_jobs_def
      update_jobs_def claimable_def mark_claimed_def mark_succeeded_def keys_ok_def finalise_def runHandler_def
      types_def lookup_def unix_milli_def go_sort_def of_millis_def Let_def live_def)

lemma queue_state_ex:
  "queue_state (db_ex [mark_succeeded 2000 (mark_claimed 2000 ''n1'' (row_ex ''J1'' ''mail''))])"
proof -
  have "queue_state (db_ex [])" by (rule queue_state.empty) (simp add: db_ex_def)
  then have "queue_state (db_ex [row_ex ''J1'' ''mail''])"
    by (rule queue_state.enqueue [OF _ _ _ enqueue_ex]) (simp_all add: enq_ex_def orderly_id)
  then show ?thesis
    by (rule queue_state.run [OF _ _ _ run_ex]) (simp_all add: work_ex_def orderly_id)
qed

theorem queue_invariant_witness:
  "list_all row_ok (d_jobs (db_ex [mark_succeeded 2000 (mark_claimed 2000 ''n1'' (row_ex ''J1'' ''mail''))]))"
  using queue_invariant [OF queue_state_ex] by (elim conjE)

end
