(* ===== verification/Jobs_Claims.thy ===== *)
theory Jobs_Claims
  imports Jobs_Invariant
begin

text \<open>
  What a claim guarantees: one winner per job, the limits of the job's type respected, the best
  eligible job first; and what the outcome of a run leaves in the table.
\<close>

subsection \<open>One row at a time\<close>

text \<open>With unique ids, a claim touches the row of its id or nothing.\<close>

lemma update_one:
  assumes "rows_ok rs" and "\<And>r. r_id (f r) = r_id r \<and> r_unique_key (f r) = r_unique_key r"
    and "\<And>r. r \<in> set rs \<Longrightarrow> r_id r = jid \<Longrightarrow> Q r \<Longrightarrow> live (f r) \<longrightarrow> live r"
  shows "update_jobs (\<lambda>r. r_id r = jid \<and> Q r) f rs =
     Inr (map (\<lambda>r. if r_id r = jid \<and> Q r then f r else r) rs, if \<exists>r \<in> set rs. r_id r = jid \<and> Q r then 1 else 0)"
proof -
  have "length (filter (\<lambda>r. r_id r = jid \<and> Q r) rs) = (if \<exists>r \<in> set rs. r_id r = jid \<and> Q r then 1 else 0)"
  proof (cases "\<exists>r \<in> set rs. r_id r = jid")
    case True
    then obtain r where r: "r \<in> set rs" "r_id r = jid" by blast
    have "filter (\<lambda>x. r_id x = jid \<and> Q x) rs = (if Q r then [r] else [])"
      using filter_id_single [of rs r Q] assms(1) r by (simp add: rows_ok_def)
    moreover have "(\<exists>x \<in> set rs. r_id x = jid \<and> Q x) = Q r"
    proof
      assume "\<exists>x \<in> set rs. r_id x = jid \<and> Q x"
      then obtain x where x: "x \<in> set rs" "r_id x = r_id r" "Q x" using r(2) by auto
      have "id_ok rs" using assms(1) by (simp add: rows_ok_def)
      from id_ok_unique [OF this x(1) r(1) x(2)] x(3) show "Q r" by simp
    qed (use r in blast)
    ultimately show ?thesis by (simp only: if_distrib [where f = length] list.size) simp
  next
    case False
    then have "filter (\<lambda>r. r_id r = jid \<and> Q r) rs = []" unfolding filter_empty_conv by blast
    moreover have "\<not> (\<exists>r \<in> set rs. r_id r = jid \<and> Q r)" using False by blast
    ultimately show ?thesis by (simp only: list.size if_False)
  qed
  moreover have "update_jobs (\<lambda>r. r_id r = jid \<and> Q r) f rs =
      Inr (map (\<lambda>r. if r_id r = jid \<and> Q r then f r else r) rs, int (length (filter (\<lambda>r. r_id r = jid \<and> Q r) rs)))"
    using assms by (intro update_jobs_total) (auto simp: rows_ok_def)
  ultimately show ?thesis by simp
qed

text \<open>The guard of the claim besides the id.\<close>

definition may_claim :: "jobs_db \<Rightarrow> int \<Rightarrow> job_row \<Rightarrow> bool" where
  "may_claim db now r \<longleftrightarrow> claimable db now (r_id r) r"

lemma claimable_id: "claimable db now jid r \<longleftrightarrow> r_id r = jid \<and> may_claim db now r"
  by (auto simp: claimable_def may_claim_def)

lemma may_claim_pending: "may_claim db now r \<Longrightarrow> r_status r = StatusPending"
  by (simp add: may_claim_def claimable_def)

lemma claim_eq:
  assumes "rows_ok (d_jobs db)"
  shows "claim None now node jid db =
    (db\<lparr>d_jobs := map (\<lambda>r. if r_id r = jid \<and> may_claim db now r then mark_claimed now node r else r) (d_jobs db)\<rparr>,
     Inr (if \<exists>r \<in> set (d_jobs db). r_id r = jid \<and> may_claim db now r then 1 else 0))"
proof -
  have "claimable db now jid = (\<lambda>r. r_id r = jid \<and> may_claim db now r)" by (rule ext) (rule claimable_id)
  moreover have "r_unique_key (mark_claimed now node r) = r_unique_key r" for r by (simp add: mark_claimed_def)
  moreover have "live r" if "may_claim db now r" for r using may_claim_pending [OF that] by (simp add: live_def)
  ultimately show ?thesis
    using update_one [OF assms, of "mark_claimed now node" jid "may_claim db now"]
    by (simp add: claim_def exec_jobs_def)
qed

text \<open>A claim that touched a row: there was one, and the new table.\<close>

lemma claim_wonE:
  assumes "rows_ok (d_jobs db)" and "claim f now node jid db = (db', Inr n)" and "n \<noteq> 0"
  obtains r where "r \<in> set (d_jobs db)" "r_id r = jid" "may_claim db now r"
    "db' = db\<lparr>d_jobs := map (\<lambda>x. if x = r then mark_claimed now node x else x) (d_jobs db)\<rparr>"
proof -
  have "f = None" using assms(2) by (cases f) (simp_all add: claim_def exec_jobs_def)
  then have e: "db' = db\<lparr>d_jobs := map (\<lambda>r. if r_id r = jid \<and> may_claim db now r then mark_claimed now node r else r) (d_jobs db)\<rparr>"
    and "\<exists>r \<in> set (d_jobs db). r_id r = jid \<and> may_claim db now r"
    using assms(2,3) claim_eq [OF assms(1), of now node jid] by (auto split: if_splits)
  then obtain r where r: "r \<in> set (d_jobs db)" "r_id r = jid" "may_claim db now r" by blast
  have "(r_id x = jid \<and> may_claim db now x) = (x = r)" if "x \<in> set (d_jobs db)" for x
    using id_ok_unique [of "d_jobs db" x r] assms(1) r that by (auto simp: rows_ok_def)
  then have "db' = db\<lparr>d_jobs := map (\<lambda>x. if x = r then mark_claimed now node x else x) (d_jobs db)\<rparr>"
    unfolding e by (auto intro!: arg_cong [where f = "\<lambda>xs. d_jobs_update (\<lambda>_. xs) db"])
  then show thesis using that r by blast
qed

text \<open>C10. A job is claimed by one worker: after a claim that won, no further claim of the same id by
  any worker at any time wins, and neither changes the table.\<close>

theorem claim_exclusive:
  assumes "rows_ok (d_jobs db)" and "claim f now node jid db = (db', Inr n)" and "n \<noteq> 0"
  shows "claim g now' node' jid db' = (db', case g of None \<Rightarrow> Inr 0 | Some e \<Rightarrow> Inl e)"
proof (cases g)
  case None
  from assms obtain r where r: "r \<in> set (d_jobs db)" "r_id r = jid"
    and db': "db' = db\<lparr>d_jobs := map (\<lambda>x. if x = r then mark_claimed now node x else x) (d_jobs db)\<rparr>"
    by (rule claim_wonE)
  have rows': "rows_ok (d_jobs db')"
  proof -
    have "update_jobs (claimable db now jid) (mark_claimed now node) (d_jobs db) = Inr (d_jobs db', n)"
      using assms(2) by (auto simp: claim_def exec_jobs_def split: option.splits sum.splits)
    then show ?thesis by (rule update_jobs_ok [OF assms(1)]) simp
  qed
  have no: "\<not> may_claim db' now' x" if "x \<in> set (d_jobs db')" "r_id x = jid" for x
  proof
    assume "may_claim db' now' x"
    then have "r_status x = StatusPending" by (rule may_claim_pending)
    moreover have "x \<in> (\<lambda>y. if y = r then mark_claimed now node y else y) ` set (d_jobs db)"
      using that(1) by (simp add: db')
    then obtain y where "y \<in> set (d_jobs db)" "x = (if y = r then mark_claimed now node y else y)"
      by (rule imageE)
    ultimately have "y \<noteq> r" "r_id y = jid" "y \<in> set (d_jobs db)" "r_id r = jid"
      using that(2) r by (auto simp: mark_claimed_def split: if_splits)
    then show False using id_ok_unique [of "d_jobs db" y r] assms(1) r(1) by (simp add: rows_ok_def)
  qed
  have "map (\<lambda>r. if r_id r = jid \<and> may_claim db' now' r then mark_claimed now' node' r else r) (d_jobs db') = d_jobs db'"
    using no by (intro map_idI) auto
  moreover have "\<not> (\<exists>r \<in> set (d_jobs db'). r_id r = jid \<and> may_claim db' now' r)" using no by blast
  ultimately show ?thesis using claim_eq [OF rows', of now' node' jid] None by simp
next
  case (Some e)
  then show ?thesis by (simp add: claim_def exec_jobs_def)
qed

lemma claim_ex:
  "claim None 2000 ''n1'' ''J1'' (db_ex [row_ex ''J1'' ''mail'']) =
     (db_ex [mark_claimed 2000 ''n1'' (row_ex ''J1'' ''mail'')], Inr 1)"
  by (simp add: ex_defs claim_def exec_jobs_def update_jobs_def claimable_def mark_claimed_def keys_ok_def live_def Let_def)

lemma rows_ok_ex: "rows_ok (d_jobs (db_ex [row_ex jid t]))"
  by (simp add: rows_ok_def id_ok_def keys_ok_def ex_defs live_def)

theorem claim_exclusive_witness:
  "snd (claim None 2001 ''n2'' ''J1'' (db_ex [mark_claimed 2000 ''n1'' (row_ex ''J1'' ''mail'')])) = Inr 0"
  using claim_exclusive [OF rows_ok_ex claim_ex, of None 2001 "''n2''"] by simp

subsection \<open>Limits\<close>

definition running_of :: "string \<Rightarrow> job_row \<Rightarrow> bool" where
  "running_of t r \<longleftrightarrow> r_type r = t \<and> r_status r = StatusRunning"

text \<open>Jobs of a type that started after the given time.\<close>

definition started_after :: "string \<Rightarrow> int \<Rightarrow> job_row \<Rightarrow> bool" where
  "started_after t since r \<longleftrightarrow> r_type r = t \<and> (case r_started_at r of None \<Rightarrow> False | Some s \<Rightarrow> since < s)"

lemma length_filter_update:
  assumes "distinct xs"
  shows "length (filter P (map (\<lambda>x. if x = r then f x else x) xs)) \<le> length (filter P xs) + 1"
  using assms
proof (induction xs)
  case (Cons x xs)
  show ?case
  proof (cases "x = r")
    case True
    then have "map (\<lambda>x. if x = r then f x else x) xs = xs" using Cons.prems by (intro map_idI) auto
    then show ?thesis by simp
  next
    case False
    then show ?thesis using Cons by simp
  qed
qed simp

lemma length_filter_le: "(\<And>x. x \<in> set xs \<Longrightarrow> P x \<Longrightarrow> Q x) \<Longrightarrow> length (filter P xs) \<le> length (filter Q xs)"
  by (induction xs) auto

lemma rows_distinct: "rows_ok rs \<Longrightarrow> distinct rs"
  by (simp add: rows_ok_def id_ok_def distinct_map)

text \<open>The starts that the table still shows, by type and time; and a run of the queue's statements with
  every start it made: those of all winning claims, and those whose mark a later statement took away
  (a retry, a release or a sweep sets \<open>started_at\<close> to NULL, the reaper deletes the row).\<close>

definition marks :: "job_row list \<Rightarrow> (string \<times> int) multiset" where
  "marks rs = mset (List.map_filter (\<lambda>r. map_option (Pair (r_type r)) (r_started_at r)) rs)"

inductive starts :: "jobs_db \<Rightarrow> (string \<times> int) multiset \<Rightarrow> (string \<times> int) multiset \<Rightarrow> bool" where
  empty: "d_jobs db = [] \<Longrightarrow> starts db {#} {#}"
| win: "starts db won lost \<Longrightarrow> claim f now node (r_id r) db = (db', Inr n) \<Longrightarrow> n \<noteq> 0 \<Longrightarrow> r \<in> set (d_jobs db) \<Longrightarrow>
    starts db' (add_mset (r_type r, now) won) lost"
| step: "starts db won lost \<Longrightarrow> stmt db db' \<Longrightarrow> marks (d_jobs db') \<subseteq># marks (d_jobs db) \<Longrightarrow>
    starts db' won (lost + (marks (d_jobs db) - marks (d_jobs db')))"

lemma marks_simps [simp]:
  "marks [] = {#}"
  "marks (r # rs) = (case r_started_at r of None \<Rightarrow> marks rs | Some s \<Rightarrow> add_mset (r_type r, s) (marks rs))"
  by (simp_all add: marks_def map_filter_simps split: option.split)

lemma marks_append: "marks (rs @ rs') = marks rs + marks rs'"
  by (induction rs) (simp_all split: option.split)

lemma marks_claimed:
  "distinct rs \<Longrightarrow> r \<in> set rs \<Longrightarrow> r_started_at r = None \<Longrightarrow>
     marks (map (\<lambda>x. if x = r then mark_claimed now node x else x) rs) = add_mset (r_type r, now) (marks rs)"
proof (induction rs)
  case (Cons x rs)
  show ?case
  proof (cases "x = r")
    case True
    then have "map (\<lambda>x. if x = r then mark_claimed now node x else x) rs = rs" using Cons.prems(1) by (intro map_idI) auto
    then show ?thesis using True Cons.prems(3) by (simp add: mark_claimed_def)
  next
    case False
    then show ?thesis using Cons by (auto split: option.split)
  qed
qed simp

lemma marks_map:
  assumes "\<And>r. r_type (g r) = r_type r" and "\<And>r. r_started_at (g r) = r_started_at r \<or> r_started_at (g r) = None"
  shows "marks (map g rs) \<subseteq># marks rs"
proof (induction rs)
  case (Cons r rs)
  then show ?case using assms(1) [of r] assms(2) [of r] by (auto split: option.split intro: subset_mset.order_trans)
qed simp

lemma marks_update:
  assumes "exec_jobs f (update_jobs P g) db = (db', x)" and "\<And>r. r_type (g r) = r_type r"
    and "\<And>r. r_started_at (g r) = r_started_at r \<or> r_started_at (g r) = None"
  shows "marks (d_jobs db') \<subseteq># marks (d_jobs db)"
proof -
  have "marks (map (\<lambda>r. if P r then g r else r) (d_jobs db)) \<subseteq># marks (d_jobs db)"
    using assms(2,3) by (intro marks_map) auto
  then show ?thesis using assms(1) by (auto simp: update_jobs_def Let_def dest!: exec_jobs_cases split: if_splits)
qed

lemma marks_filter: "marks (filter P rs) \<subseteq># marks rs"
  by (induction rs) (auto split: option.split intro: subset_mset.order_trans)

text \<open>A claim that won adds one start; the row had none.\<close>

lemma claim_marks:
  assumes "job_inv db" and "claim f now node (r_id r) db = (db', Inr n)" and "n \<noteq> 0" and "r \<in> set (d_jobs db)"
  shows "marks (d_jobs db') = add_mset (r_type r, now) (marks (d_jobs db))"
proof -
  have ok: "rows_ok (d_jobs db)" using assms(1) by (simp add: job_inv_def)
  from claim_wonE [OF ok assms(2,3)] obtain r' where r': "r' \<in> set (d_jobs db)" "r_id r' = r_id r" "may_claim db now r'"
    "db' = db\<lparr>d_jobs := map (\<lambda>x. if x = r' then mark_claimed now node x else x) (d_jobs db)\<rparr>" .
  have "r' = r" using id_ok_unique [OF _ r'(1) assms(4) r'(2)] ok by (simp add: rows_ok_def)
  note r' = r' [unfolded this]
  have "row_ok r" using assms(1,4) by (simp add: job_inv_def)
  then have "r_started_at r = None" using may_claim_pending [OF r'(3)] by (simp add: row_ok_def)
  from marks_claimed [OF rows_distinct [OF ok] assms(4) this] show ?thesis by (simp add: r'(4))
qed

lemma starts_inv: "starts db won lost \<Longrightarrow> job_inv db \<and> won = marks (d_jobs db) + lost"
proof (induction rule: starts.induct)
  case (empty db)
  then show ?case by (simp add: job_inv_def rows_ok_def id_ok_def keys_ok_def)
next
  case (win db won lost f now node r db' n)
  then have "job_inv db'" using queue.stmt_keeps [OF stmt.claim [OF win.hyps(2)]] by blast
  then show ?case using claim_marks [OF _ win.hyps(2-4)] win.IH by simp
next
  case (step db won lost db')
  have "job_inv db'" using queue.stmt_keeps [OF step.hyps(2)] step.IH by blast
  moreover have "marks (d_jobs db) = marks (d_jobs db') + (marks (d_jobs db) - marks (d_jobs db'))"
    using step.hyps(3) by simp
  ultimately show ?case using step.IH by (simp add: union_assoc union_commute)
qed

text \<open>Every statement is a winning claim or adds no start, so every reachable state has its starts.\<close>

lemma stmt_starts:
  assumes "starts db won lost" and "stmt db db'"
  shows "\<exists>won' lost'. starts db' won' lost'"
proof -
  have ok: "rows_ok (d_jobs db)" using starts_inv [OF assms(1)] by (simp add: job_inv_def)
  have "marks (d_jobs db') \<subseteq># marks (d_jobs db) \<or>
      (\<exists>f now node r n. claim f now node (r_id r) db = (db', Inr n) \<and> n \<noteq> 0 \<and> r \<in> set (d_jobs db))"
    using assms(2)
  proof cases
    case (insert r f x)
    then show ?thesis
      by (auto simp: insert_job_def fresh_row_def marks_append dest!: exec_jobs_cases split: if_splits)
  next
    case (claim f now node jid x)
    show ?thesis
    proof (cases "\<exists>n. x = Inr n \<and> n \<noteq> 0")
      case True
      then obtain n where "x = Inr n" "n \<noteq> 0" by blast
      then show ?thesis using claim_wonE [OF ok, of f now node jid db' n] claim by metis
    next
      case False
      then have "db' = db"
        using claim claim_eq [OF ok, of now node jid]
        by (cases f) (auto simp: claim_def exec_jobs_def split: if_splits sum.splits intro!: jobs_db.equality map_idI)
      then show ?thesis by simp
    qed
  next
    case (succeed f jid now x)
    then show ?thesis by (auto dest!: marks_update simp: mark_succeeded_def)
  next
    case (release f jid x)
    then show ?thesis by (auto dest!: marks_update simp: mark_released_def)
  next
    case (dead f jid now e x)
    then show ?thesis by (auto dest!: marks_update simp: mark_dead_def)
  next
    case (retry f jid nextRun e x)
    then show ?thesis by (auto dest!: marks_update simp: mark_retry_def)
  next
    case (sweep f now x)
    then show ?thesis by (auto dest!: marks_update simp: mark_orphaned_def)
  next
    case (reap f cutoff x)
    then show ?thesis by (auto simp: delete_jobs_def marks_filter dest!: exec_jobs_cases)
  next
    case other
    then show ?thesis by simp
  qed
  then show ?thesis using assms starts.win starts.step by blast
qed

lemma queue_state_starts: "queue_state db \<Longrightarrow> \<exists>won lost. starts db won lost"
proof -
  assume "queue_state db"
  then obtain db0 where e: "d_jobs db0 = []" and s: "stmts db0 db" using queue_state_stmts by blast
  from s show ?thesis
    by (induction rule: rtranclp_induct) (use starts.empty [OF e] stmt_starts in blast)+
qed

definition in_last :: "string \<Rightarrow> int \<Rightarrow> string \<times> int \<Rightarrow> bool" where
  "in_last t since s \<longleftrightarrow> fst s = t \<and> since < snd s"

lemma size_marks:
  "size (filter_mset (in_last t since) (marks rs)) = length (filter (started_after t since) rs)"
  by (induction rs) (auto simp: in_last_def started_after_def split: option.split)

text \<open>C11. The limits at every claim, cluster-wide. Right after a claim that won, at most \<open>cap\<close> jobs of
  the type are running. And of all the starts of the type that claims ever won in the whole run, this
  one included, those within the period before it are at most \<open>capacity\<close>, plus those among them whose
  mark a retry, a release, a sweep or the reaper took away: where nothing was taken away, no window
  holds more than \<open>capacity\<close> starts.\<close>

theorem claim_respects_limits:
  assumes "starts db won lost" and "claim f now node (r_id r) db = (db', Inr n)" and "n \<noteq> 0" and "r \<in> set (d_jobs db)"
  shows "(case d_concurrency db (r_type r) of None \<Rightarrow> True
          | Some cap \<Rightarrow> int (length (filter (running_of (r_type r)) (d_jobs db'))) \<le> cap) \<and>
         (case d_ratelimit db (r_type r) of None \<Rightarrow> True
          | Some (capacity, period) \<Rightarrow>
              int (size {# s \<in># add_mset (r_type r, now) won. fst s = r_type r \<and> now - period < snd s #})
                \<le> capacity + int (size {# s \<in># lost. fst s = r_type r \<and> now - period < snd s #}))"
proof -
  have inv: "job_inv db" "won = marks (d_jobs db) + lost" using starts_inv [OF assms(1)] by simp_all
  then have ok: "rows_ok (d_jobs db)" by (simp add: job_inv_def)
  from claim_wonE [OF ok assms(2,3)] obtain r' where r': "r' \<in> set (d_jobs db)" "r_id r' = r_id r" "may_claim db now r'"
    "db' = db\<lparr>d_jobs := map (\<lambda>x. if x = r' then mark_claimed now node x else x) (d_jobs db)\<rparr>" .
  have "r' = r" using id_ok_unique [OF _ r'(1) assms(4) r'(2)] ok by (simp add: rows_ok_def)
  note m = r'(3) [unfolded this may_claim_def claimable_def]
  have "int (length (filter (running_of (r_type r)) (d_jobs db'))) \<le> cap" if "d_concurrency db (r_type r) = Some cap" for cap
  proof -
    have "length (filter (running_of (r_type r)) (d_jobs db)) \<le> running_count db"
      unfolding running_count_def by (rule length_filter_le) (simp add: running_of_def)
    then show ?thesis
      using m that length_filter_update [OF rows_distinct [OF ok], of "running_of (r_type r)" r' "mark_claimed now node"]
      by (simp add: r'(4))
  qed
  moreover have "int (size (filter_mset (in_last (r_type r) (now - period)) (add_mset (r_type r, now) won)))
      \<le> capacity + int (size (filter_mset (in_last (r_type r) (now - period)) lost))"
    if p: "d_ratelimit db (r_type r) = Some (capacity, period)" for capacity period
  proof -
    have "length (filter (started_after (r_type r) (now - period)) (d_jobs db)) \<le> started_count db now"
      unfolding started_count_def
      by (rule length_filter_le) (auto simp: started_after_def in_window_def p split: option.splits)
    then show ?thesis using m p by (simp add: inv(2) size_marks)
  qed
  ultimately show ?thesis unfolding in_last_def by (auto split: option.splits)
qed

definition capped_ex :: "jobs_db \<Rightarrow> jobs_db" where
  "capped_ex db = db\<lparr>d_concurrency := [''mail'' \<mapsto> 1], d_ratelimit := [''mail'' \<mapsto> (10, 60000)]\<rparr>"

lemma starts_ex: "starts (capped_ex (db_ex [row_ex ''J1'' ''mail''])) {#} {#}"
proof -
  let ?e = "db_ex []" and ?d = "db_ex [row_ex ''J1'' ''mail'']"
  have "starts ?e {#} {#}" by (rule starts.empty) (simp add: db_ex_def)
  moreover have "exec_jobs None (insert_job (row_ex ''J1'' ''mail'')) ?e = (?d, Inr 1)"
    by (simp add: ex_defs exec_jobs_def insert_job_def keys_ok_def)
  then have "stmt ?e ?d" by (rule stmt.insert [rotated]) (simp add: fresh_row_def row_ex_def)
  moreover have "marks (d_jobs ?d) = {#}" "marks (d_jobs ?e) = {#}" by (simp_all add: db_ex_def row_ex_def)
  ultimately have "starts ?d {#} {#}" using starts.step [of ?e "{#}" "{#}" ?d] by simp
  moreover have "stmt ?d (capped_ex ?d)" by (rule stmt.other) (simp add: capped_ex_def)
  moreover have "d_jobs (capped_ex ?d) = d_jobs ?d" by (simp add: capped_ex_def)
  ultimately show ?thesis using starts.step [of ?d "{#}" "{#}" "capped_ex ?d"] by simp
qed

theorem claim_respects_limits_witness:
  "length (filter (running_of ''mail'')
     (d_jobs (fst (claim None 2000 ''n1'' ''J1'' (capped_ex (db_ex [row_ex ''J1'' ''mail''])))))) \<le> 1"
proof -
  let ?db = "capped_ex (db_ex [row_ex ''J1'' ''mail''])"
  have c: "claim None 2000 ''n1'' (r_id (row_ex ''J1'' ''mail'')) ?db =
      (capped_ex (db_ex [mark_claimed 2000 ''n1'' (row_ex ''J1'' ''mail'')]), Inr 1)"
    by (simp add: ex_defs capped_ex_def claim_def exec_jobs_def update_jobs_def claimable_def mark_claimed_def
        keys_ok_def live_def running_count_def started_count_def in_window_def Let_def)
  have "r_id (row_ex ''J1'' ''mail'') = ''J1''" by (simp add: row_ex_def)
  note c' = c [unfolded this]
  from claim_respects_limits [OF starts_ex c]
  show ?thesis unfolding c' by (simp add: capped_ex_def db_ex_def row_ex_def)
qed

text \<open>The subquery that should count the running jobs of the candidate's type counts those of
  every type: with the concurrency of \<open>mail\<close> capped at 1 and no \<open>mail\<close> job running, a pending
  \<open>mail\<close> job cannot be claimed while a job of another type runs.\<close>

lemma cap_counts_every_type:
  "let db = capped_ex (db_ex [mark_claimed 1500 ''n2'' (row_ex ''J0'' ''video''), row_ex ''J1'' ''mail'']) in
   filter (running_of ''mail'') (d_jobs db) = [] \<and> claim None 2000 ''n1'' ''J1'' db = (db, Inr 0)"
  by (simp add: ex_defs capped_ex_def claim_def exec_jobs_def update_jobs_def claimable_def mark_claimed_def
      keys_ok_def live_def running_count_def running_of_def Let_def)

end
