(* ===== verification/Jobs_Outcome.thy ===== *)
theory Jobs_Outcome
  imports Jobs_Claims
begin

text \<open>
  What a pass of a worker, the sweeper and the reaper do to a job: the best eligible job runs and its
  row becomes the outcome's; a job that always fails dies after its last attempt; a job whose
  worker died comes back; a live job is never deleted.
\<close>

subsection \<open>Retry delays are always drawn\<close>

lemma nextBackoff_total: "in_i64 (bo_Max b) \<Longrightarrow> \<exists>d. nextBackoff r b k = Some d"
proof -
  assume mx: "in_i64 (bo_Max b)"
  define base where "base = (if bo_Base b \<le> 0 then 5 * 1000000000 else bo_Base b)"
  define cap where "cap = (if bo_Max b \<le> 0 then 3600 * 1000000000 else bo_Max b)"
  define mult where "mult = (let m = shl1 (nat ((if k < 1 then 1 else k) - 1)) in if m = 0 \<or> 2 ^ 20 < m then 2 ^ 20 else m)"
  define d where "d = (if cap < wrap64 (int mult * base) then cap else wrap64 (int mult * base))"
  have E: "nextBackoff r b k = (if base < d then
      (let n = wrap64 (d - base + 1) in if n \<le> 0 then None else Some (wrap64 (base + r n))) else Some d)"
    by (simp add: nextBackoff_def Let_def base_def cap_def mult_def d_def)
  have "0 < base" by (simp add: base_def)
  moreover have "d < 2 ^ 63" using wrap64_range [of "int mult * base"] mx by (simp add: d_def cap_def in_i64_def i64_max_def)
  ultimately have "wrap64 (d - base + 1) = d - base + 1" if "base < d"
    using that by (intro wrap64_id) (simp add: in_i64_def i64_min_def i64_max_def)
  then show ?thesis by (simp add: E Let_def)
qed

subsection \<open>The best job runs\<close>

text \<open>A pass with no faults and nobody else at work.\<close>

definition undisturbed :: "work_env \<Rightarrow> bool" where
  "undisturbed env \<longleftrightarrow> we_find_fault env = None \<and> we_claim_fault env = None \<and> we_fin_fault env = None \<and>
     we_before_claim env = (\<lambda>db. db) \<and> we_during_run env = (\<lambda>db. db) \<and> we_now env \<le> we_claim_now env"

definition claimed_job :: "job_row \<Rightarrow> Job" where
  "claimed_job r = (job_of_row r)\<lparr>j_Attempts := r_attempts r + 1, j_Status := StatusRunning\<rparr>"

text \<open>The delay of a retry.\<close>

definition retry_delay :: "work_env \<Rightarrow> Manager \<Rightarrow> job_row \<Rightarrow> duration" where
  "retry_delay env m r = the (nextBackoff (we_Int63n env) (backoff_for m (r_type r)) (r_attempts r + 1))"

text \<open>The row after a run of the job with the given outcome.\<close>

definition outcome_row :: "work_env \<Rightarrow> Manager \<Rightarrow> handler_err option \<Rightarrow> job_row \<Rightarrow> job_row" where
  "outcome_row env m err r =
     (let c = mark_claimed (unix_milli (we_claim_now env)) (m_nodeID m) r; now = unix_milli (we_fin_now env) in
      case err of
        None \<Rightarrow> mark_succeeded now c
      | Some errNoHandler \<Rightarrow> mark_released c
      | Some (HandlerErr e) \<Rightarrow>
          if r_max_attempts r \<le> r_attempts r + 1 then mark_dead now e c
          else mark_retry (unix_milli (we_retry_now env + retry_delay env m r)) e c)"

text \<open>Replacing one row by another, as a claim and the outcome of a run do.\<close>

abbreviation put_row :: "job_row \<Rightarrow> job_row \<Rightarrow> jobs_db \<Rightarrow> jobs_db" where
  "put_row r c db \<equiv> db\<lparr>d_jobs := map (\<lambda>x. if x = r then c else x) (d_jobs db)\<rparr>"

lemma keys_ok_put_live:
  assumes "keys_ok rs" and "live r" and "r_unique_key c = r_unique_key r"
  shows "keys_ok (map (\<lambda>x. if x = r then c else x) rs)"
  using keys_ok_sub [OF assms(1), of "\<lambda>x. if x = r then c else x"] assms(2,3) by auto

lemma keys_ok_put:
  assumes "keys_ok rs" and "distinct rs"
    and "\<forall>x \<in> set rs. x \<noteq> r \<longrightarrow> live x \<longrightarrow> r_unique_key x = None \<or> r_unique_key x \<noteq> r_unique_key c"
  shows "keys_ok (map (\<lambda>x. if x = r then c else x) rs)"
  using assms
proof (induction rs)
  case (Cons y rs)
  have ok: "keys_ok rs" "distinct rs" using Cons.prems(1,2) by (auto simp: keys_ok_def split: if_splits option.splits)
  have IH: "keys_ok (map (\<lambda>x. if x = r then c else x) rs)" using Cons.IH [OF ok] Cons.prems(3) by simp
  show ?case
  proof (cases "y = r")
    case True
    then have m: "map (\<lambda>x. if x = r then c else x) rs = rs" using Cons.prems(2) by (intro map_idI) auto
    have "k \<notin> set (live_keys rs)" if "r_unique_key c = Some k" for k
      using Cons.prems(2,3) True that by (auto simp: set_live_keys)
    then show ?thesis using IH True m by (auto simp: keys_ok_def split: option.splits)
  next
    case False
    have "k \<notin> set (live_keys (map (\<lambda>x. if x = r then c else x) rs))" if "live y" "r_unique_key y = Some k" for k
    proof -
      have "k \<notin> set (live_keys rs)" using Cons.prems(1) that by (simp add: keys_ok_def)
      moreover have "r_unique_key c \<noteq> Some k" using Cons.prems(3) False that by auto
      ultimately show ?thesis by (auto simp: set_live_keys)
    qed
    then show ?thesis using IH False by (auto simp: keys_ok_def split: option.splits)
  qed
qed simp

lemma rows_ok_put:
  assumes "rows_ok (d_jobs db)" and "live r" and "r_id c = r_id r" and "r_unique_key c = r_unique_key r"
  shows "rows_ok (d_jobs (put_row r c db))"
proof -
  have "map r_id (map (\<lambda>x. if x = r then c else x) (d_jobs db)) = map r_id (d_jobs db)"
    unfolding map_map using assms(3) by (intro map_cong) auto
  then show ?thesis
    using assms(1) keys_ok_put_live [OF _ assms(2,4)] by (simp add: rows_ok_def id_ok_def del: map_map)
qed

lemma put_row_again:
  assumes "rows_ok (d_jobs db)" and "r \<in> set (d_jobs db)" and "r_id c = r_id r"
  shows "put_row c y (put_row r c db) = put_row r y db"
proof -
  have "x = r" if "x \<in> set (d_jobs db)" "x = c" for x
  proof (rule id_ok_unique [OF _ that(1) assms(2)])
    show "id_ok (d_jobs db)" using assms(1) by (simp add: rows_ok_def)
    show "r_id x = r_id r" unfolding that(2) by (rule assms(3))
  qed
  then have "map (\<lambda>x. if x = c then y else x) (map (\<lambda>x. if x = r then c else x) (d_jobs db)) =
      map (\<lambda>x. if x = r then y else x) (d_jobs db)"
    unfolding map_map by (intro map_cong) auto
  then show ?thesis by simp
qed

lemma finalise_row:
  assumes "rows_ok (d_jobs db)" and "r \<in> set (d_jobs db)"
    and "\<And>c. r_unique_key c = r_unique_key r \<Longrightarrow> keys_ok (d_jobs (put_row r c db))" and "we_fin_fault env = None"
    and "r_id r = j_ID j" and "in_i64 (bo_Max (backoff_for m (j_Type j)))"
  shows "\<exists>m'. finalise env m j err db = Some (m', put_row r
      (case err of
         None \<Rightarrow> mark_succeeded (unix_milli (we_fin_now env)) r
       | Some errNoHandler \<Rightarrow> mark_released r
       | Some (HandlerErr e) \<Rightarrow>
           if j_MaxAttempts j \<le> j_Attempts j then mark_dead (unix_milli (we_fin_now env)) e r
           else mark_retry (unix_milli (we_retry_now env +
             the (nextBackoff (we_Int63n env) (backoff_for m (j_Type j)) (j_Attempts j)))) e r) db)"
proof -
  have same: "(r_id x = j_ID j) = (x = r)" if "x \<in> set (d_jobs db)" for x
    using id_ok_unique [of "d_jobs db" x r] assms(1,2,5) that by (auto simp: rows_ok_def)
  have U: "update_jobs (\<lambda>x. r_id x = j_ID j) f (d_jobs db) =
      Inr (map (\<lambda>x. if x = r then f r else x) (d_jobs db), int (length (filter (\<lambda>x. r_id x = j_ID j) (d_jobs db))))"
    if "\<And>x. r_unique_key (f x) = r_unique_key x" for f
  proof -
    have m: "map (\<lambda>x. if r_id x = j_ID j then f x else x) (d_jobs db) = map (\<lambda>x. if x = r then f r else x) (d_jobs db)"
      using same by (intro map_cong) auto
    show ?thesis using assms(3) [of "f r"] that by (simp add: update_jobs_def m Let_def)
  qed
  have k: "r_unique_key (mark_succeeded now x) = r_unique_key x" "r_unique_key (mark_released x) = r_unique_key x"
    "r_unique_key (mark_dead now e x) = r_unique_key x" "r_unique_key (mark_retry now e x) = r_unique_key x" for now e x
    by (simp_all add: mark_succeeded_def mark_released_def mark_dead_def mark_retry_def)
  obtain d where d: "nextBackoff (we_Int63n env) (backoff_for m (j_Type j)) (j_Attempts j) = Some d"
    using nextBackoff_total [OF assms(6)] by blast
  show ?thesis
    by (cases err rule: option.exhaust [case_product handler_err.exhaust])
      (auto simp: finalise_def Let_def exec_jobs_def assms(4) U k d split: handler_err.splits)
qed

text \<open>The job a worker is to run next: pending, due and of its types, such that every other one has a
  lower priority, or the same and is not due earlier.\<close>

definition first_due :: "int \<Rightarrow> string list \<Rightarrow> job_row list \<Rightarrow> job_row \<Rightarrow> bool" where
  "first_due now ts rows r \<longleftrightarrow> r \<in> set rows \<and> eligible now ts r \<and>
     list_all (\<lambda>x. eligible now ts x \<longrightarrow>
       r_priority x < r_priority r \<or> r_priority x = r_priority r \<and> r_run_at r \<le> r_run_at x) rows"

lemma findCandidate_first:
  assumes "\<exists>r \<in> set (d_jobs db). eligible now ts r"
  shows "\<exists>r. findCandidate None now ts db = Inr (Some (job_of_row r)) \<and> first_due now ts (d_jobs db) r"
proof -
  let ?E = "filter (eligible now ts) (d_jobs db)"
  have "go_sort claim_before ?E \<noteq> []" using assms by (auto simp: filter_empty_conv)
  then obtain r rest where s: "go_sort claim_before ?E = r # rest" unfolding neq_Nil_conv by blast
  have m: "x \<in> set (r # rest) \<longleftrightarrow> x \<in> set (d_jobs db) \<and> eligible now ts x" for x
    using set_go_sort [of claim_before ?E] unfolding s by auto
  have "\<not> claim_before x r" if "x \<in> set (r # rest)" for x
    using claim_order.sorted_go_sort [of ?E] that unfolding s by (auto simp: claim_order.lt_key not_less)
  then have "first_due now ts (d_jobs db) r"
    using m [of r] m by (fastforce simp: first_due_def list_all_iff claim_before_def)
  then show ?thesis using s by (auto simp: findCandidate_def)
qed

lemma first_due_unique:
  assumes "first_due now ts rows x" and "r \<in> set rows" and "eligible now ts r"
    and "\<forall>x \<in> set rows. x \<noteq> r \<longrightarrow> eligible now ts x \<longrightarrow> r_priority x < r_priority r"
  shows "x = r"
proof (rule ccontr)
  assume "x \<noteq> r"
  moreover have "x \<in> set rows" "eligible now ts x" using assms(1) by (simp_all add: first_due_def)
  ultimately have "r_priority x < r_priority r" using assms(4) by blast
  moreover have "r_priority r < r_priority x \<or> r_priority r = r_priority x"
    using assms(1-3) by (auto simp: first_due_def list_all_iff)
  ultimately show False by simp
qed

text \<open>Whether the limits leave room for one more job of a type.\<close>

definition has_room :: "jobs_db \<Rightarrow> int \<Rightarrow> string \<Rightarrow> bool" where
  "has_room db now t \<longleftrightarrow>
     (case d_concurrency db t of None \<Rightarrow> True | Some cap \<Rightarrow> int (running_count db) < cap) \<and>
     (case d_ratelimit db t of None \<Rightarrow> True | Some (capacity, _) \<Rightarrow> int (started_count db now) < capacity)"

lemma may_claim_room:
  "may_claim db now r \<longleftrightarrow> r_status r = StatusPending \<and> r_run_at r \<le> now \<and> has_room db now (r_type r)"
  by (auto simp: may_claim_def claimable_def has_room_def)

lemma claim_put_row:
  assumes "rows_ok (d_jobs db)" and "r \<in> set (d_jobs db)" and "may_claim db cn r"
  shows "claim None cn n (r_id r) db = (put_row r (mark_claimed cn n r) db, Inr 1)"
proof -
  have "(r_id x = r_id r \<and> may_claim db cn x) = (x = r)" if "x \<in> set (d_jobs db)" for x
    using id_ok_unique [of "d_jobs db" x r] assms that by (auto simp: rows_ok_def)
  then have "map (\<lambda>x. if r_id x = r_id r \<and> may_claim db cn x then mark_claimed cn n x else x) (d_jobs db)
      = map (\<lambda>x. if x = r then mark_claimed cn n r else x) (d_jobs db)" by (intro map_cong) simp_all
  then show ?thesis using claim_eq [OF assms(1), of cn n "r_id r"] assms(2,3) by auto
qed

lemma claim_no_room:
  assumes "rows_ok (d_jobs db)" and "r \<in> set (d_jobs db)" and "\<not> may_claim db cn r"
  shows "claim None cn n (r_id r) db = (db, Inr 0)"
proof -
  have no: "\<not> (r_id x = r_id r \<and> may_claim db cn x)" if "x \<in> set (d_jobs db)" for x
    using id_ok_unique [of "d_jobs db" x r] assms that by (auto simp: rows_ok_def)
  then have "map (\<lambda>x. if r_id x = r_id r \<and> may_claim db cn x then mark_claimed cn n x else x) (d_jobs db) = d_jobs db"
    by (intro map_idI) auto
  then show ?thesis using claim_eq [OF assms(1), of cn n "r_id r"] no by auto
qed

lemma mark_claimed_simps [simp]:
  "r_id (mark_claimed cn n r) = r_id r" "r_unique_key (mark_claimed cn n r) = r_unique_key r"
  "live (mark_claimed cn n r)"
  by (simp_all add: mark_claimed_def live_def)

lemma outcome_row_claimed:
  assumes "c = mark_claimed (unix_milli (we_claim_now env)) (m_nodeID m) r" and "j = claimed_job r"
  shows "outcome_row env m err r = (case err of
         None \<Rightarrow> mark_succeeded (unix_milli (we_fin_now env)) c
       | Some errNoHandler \<Rightarrow> mark_released c
       | Some (HandlerErr e) \<Rightarrow>
           if j_MaxAttempts j \<le> j_Attempts j then mark_dead (unix_milli (we_fin_now env)) e c
           else mark_retry (unix_milli (we_retry_now env +
             the (nextBackoff (we_Int63n env) (backoff_for m (j_Type j)) (j_Attempts j)))) e c)"
proof -
  have j: "j_Type (claimed_job r) = r_type r" "j_MaxAttempts (claimed_job r) = r_max_attempts r"
    "j_Attempts (claimed_job r) = r_attempts r + 1"
    by (simp_all add: claimed_job_def job_of_row_def)
  show ?thesis unfolding outcome_row_def Let_def retry_delay_def assms j ..
qed

lemma backoff_for_executed [simp]: "backoff_for (m\<lparr>m_executed := k\<rparr>) t = backoff_for m t"
  by (simp add: backoff_for_def split: option.split)

lemma runHandler_executed [simp]: "runHandler (m\<lparr>m_executed := k\<rparr>) j = runHandler m j"
proof -
  have "m_handlers (m\<lparr>m_executed := k\<rparr>) = m_handlers m" "m_config (m\<lparr>m_executed := k\<rparr>) = m_config m"
    "m_nodeID (m\<lparr>m_executed := k\<rparr>) = m_nodeID m" by simp_all
  then show ?thesis by (simp only: runHandler_def)
qed

lemma finalise_claimed:
  assumes "rows_ok (d_jobs db)" and "c \<in> set (d_jobs db)"
    and "c = mark_claimed (unix_milli (we_claim_now env)) (m_nodeID m) r"
    and "undisturbed env" and "in_i64 (bo_Max (backoff_for m (r_type r)))"
  obtains m' where "finalise env (m\<lparr>m_executed := k\<rparr>) (claimed_job r) err db =
    Some (m', put_row c (outcome_row env m err r) db)"
proof -
  let ?m = "m\<lparr>m_executed := k\<rparr>" and ?j = "claimed_job r"
  have j: "j_ID ?j = r_id c" "j_Type ?j = r_type r" by (simp_all add: claimed_job_def job_of_row_def assms(3))
  have "live c" by (simp add: assms(3))
  then have k: "keys_ok (d_jobs (put_row c x db))" if "r_unique_key x = r_unique_key c" for x
    using keys_ok_put_live [of "d_jobs db" c x] assms(1) that by (simp add: rows_ok_def)
  have out: "outcome_row env m err r = (case err of
         None \<Rightarrow> mark_succeeded (unix_milli (we_fin_now env)) c
       | Some errNoHandler \<Rightarrow> mark_released c
       | Some (HandlerErr e) \<Rightarrow>
           if j_MaxAttempts ?j \<le> j_Attempts ?j then mark_dead (unix_milli (we_fin_now env)) e c
           else mark_retry (unix_milli (we_retry_now env +
             the (nextBackoff (we_Int63n env) (backoff_for ?m (j_Type ?j)) (j_Attempts ?j)))) e c)"
    unfolding backoff_for_executed by (rule outcome_row_claimed [OF assms(3) refl])
  note u = assms(4) [unfolded undisturbed_def]
  have "\<exists>m'. finalise env ?m ?j err db = Some (m', put_row c (outcome_row env m err r) db)"
    using finalise_row [OF assms(1,2) k, of env ?j ?m err, folded out] u assms(5) j by auto
  then show thesis using that by blast
qed

text \<open>A pass with something due: it picks the first due job, and runs it or gives way to the limits.\<close>

lemma pass_outcome:
  assumes "rows_ok (d_jobs db)" and "undisturbed env" and "in_i64 (bo_Max (cf_DefaultBackoff (m_config m)))"
    and "list_all (\<lambda>e. in_i64 (bo_Max (he_backoff (snd e)))) (m_handlers m)"
    and "\<exists>r \<in> set (d_jobs db). eligible (unix_milli (we_now env)) (types (m_handlers m)) r"
  shows "\<exists>r. first_due (unix_milli (we_now env)) (types (m_handlers m)) (d_jobs db) r \<and>
     (if has_room db (unix_milli (we_claim_now env)) (r_type r)
      then \<exists>m'. tryClaimAndRun env m db = Some (m', put_row r (outcome_row env m (runHandler m (claimed_job r)) r) db, True)
      else tryClaimAndRun env m db = Some (m, db, False))"
proof -
  let ?now = "unix_milli (we_now env)" and ?ts = "types (m_handlers m)"
  let ?cn = "unix_milli (we_claim_now env)"
  obtain r where f: "findCandidate None ?now ?ts db = Inr (Some (job_of_row r))" and b: "first_due ?now ?ts (d_jobs db) r"
    using findCandidate_first [OF assms(5)] by blast
  note u = assms(2) [unfolded undisturbed_def]
  have r: "r \<in> set (d_jobs db)" "eligible ?now ?ts r" using b by (simp_all add: first_due_def)
  have "?now \<le> ?cn" using u unfolding unix_milli_def by (intro zdiv_mono1) simp_all
  then have mc: "may_claim db ?cn r \<longleftrightarrow> has_room db ?cn (r_type r)" using r(2) by (auto simp: may_claim_room eligible_def)
  have "length ?ts \<noteq> 0" using r(2) by (auto simp: eligible_def)
  have cj: "(job_of_row r)\<lparr>j_Attempts := j_Attempts (job_of_row r) + 1, j_Status := StatusRunning\<rparr> = claimed_job r"
    "j_ID (job_of_row r) = r_id r"
    by (simp_all add: claimed_job_def job_of_row_def)
  show ?thesis
  proof (cases "has_room db ?cn (r_type r)")
    case False
    then have "tryClaimAndRun env m db = Some (m, db, False)"
      using u f claim_no_room [OF assms(1) r(1)] mc \<open>length ?ts \<noteq> 0\<close> by (simp add: tryClaimAndRun_def Let_def cj)
    then show ?thesis using b False by auto
  next
    case True
    define c where "c = mark_claimed ?cn (m_nodeID m) r"
    have cl: "claim None ?cn (m_nodeID m) (r_id r) db = (put_row r c db, Inr 1)"
      unfolding c_def using True mc by (intro claim_put_row [OF assms(1) r(1)]) simp
    have lv: "live r" using r(2) by (simp add: eligible_def live_def)
    have ok: "rows_ok (d_jobs (put_row r c db))" by (rule rows_ok_put [OF assms(1) lv]) (simp_all add: c_def)
    have in_db: "c \<in> set (d_jobs (put_row r c db))" using r(1) by auto
    have "in_i64 (bo_Max (backoff_for m (r_type r)))"
      using assms(3,4) by (auto simp: backoff_for_def lookup_def list_all_iff split: option.splits dest!: map_of_SomeD)
    from finalise_claimed [OF ok in_db c_def assms(2) this, of "m_executed m + 1" "runHandler m (claimed_job r)"]
    obtain m' where fin: "finalise env (m\<lparr>m_executed := m_executed m + 1\<rparr>) (claimed_job r)
        (runHandler m (claimed_job r)) (put_row r c db) =
      Some (m', put_row c (outcome_row env m (runHandler m (claimed_job r)) r) (put_row r c db))" by blast
    have "r_id c = r_id r" by (simp add: c_def)
    note fin = fin [unfolded put_row_again [OF assms(1) r(1) this]]
    have "tryClaimAndRun env m db =
        Some (m', put_row r (outcome_row env m (runHandler m (claimed_job r)) r) db, True)"
      using u f cl fin \<open>length ?ts \<noteq> 0\<close> by (simp add: tryClaimAndRun_def Let_def cj)
    then show ?thesis using b True by auto
  qed
qed

text \<open>C13. A pass of a worker, with no faults and nobody else at work, when jobs of its types are due:
  it picks one of the highest priority and, among those, of the earliest \<open>run_at\<close>. If the limits of that
  job's type leave room, it claims the job, runs its handler, and leaves exactly that row changed, to
  what the outcome of the run says: succeeded, back to pending with a delay, or dead; if not, the
  pass ends with nothing changed, whatever else is due.\<close>

theorem pass_runs_best_job:
  assumes "rows_ok (d_jobs db)" and "undisturbed env" and "in_i64 (bo_Max (cf_DefaultBackoff (m_config m)))"
    and "list_all (\<lambda>e. in_i64 (bo_Max (he_backoff (snd e)))) (m_handlers m)"
    and "\<exists>r \<in> set (d_jobs db). eligible (unix_milli (we_now env)) (types (m_handlers m)) r"
  shows "\<exists>r \<in> set (d_jobs db). eligible (unix_milli (we_now env)) (types (m_handlers m)) r \<and>
     (\<forall>x \<in> set (d_jobs db). eligible (unix_milli (we_now env)) (types (m_handlers m)) x \<longrightarrow>
        r_priority x < r_priority r \<or> r_priority x = r_priority r \<and> r_run_at r \<le> r_run_at x) \<and>
     (if has_room db (unix_milli (we_claim_now env)) (r_type r)
      then \<exists>m'. tryClaimAndRun env m db = Some (m', db\<lparr>d_jobs := map (\<lambda>x. if x = r
        then outcome_row env m (runHandler m (claimed_job r)) r else x) (d_jobs db)\<rparr>, True)
      else tryClaimAndRun env m db = Some (m, db, False))"
  using pass_outcome [OF assms] unfolding first_due_def list_all_iff by blast

lemma in_i64_hour: "in_i64 3600000000000"
  by (simp add: in_i64_def i64_min_def i64_max_def)

lemma undisturbed_ex: "undisturbed (work_ex t)"
  by (simp add: undisturbed_def work_ex_def)

text \<open>In the witness the more urgent of two due jobs runs, although the other is due longer.\<close>

definition urgent_ex :: job_row where
  "urgent_ex = row_ex ''J2'' ''mail''\<lparr>r_priority := 10, r_run_at := 1500\<rparr>"

theorem pass_runs_best_job_witness:
  "\<exists>m'. tryClaimAndRun (work_ex 2000000000) (man_ex (Returned (Some ''boom'')))
       (db_ex [row_ex ''J1'' ''mail'', urgent_ex]) =
     Some (m', db_ex [row_ex ''J1'' ''mail'', mark_retry 7000 ''boom'' (mark_claimed 2000 ''n1'' urgent_ex)], True)"
proof -
  let ?m = "man_ex (Returned (Some ''boom''))" and ?db = "db_ex [row_ex ''J1'' ''mail'', urgent_ex]"
  have j: "d_jobs ?db = [row_ex ''J1'' ''mail'', urgent_ex]" by (simp add: db_ex_def)
  have ro: "rows_ok (d_jobs ?db)"
    by (simp add: db_ex_def urgent_ex_def row_ex_def rows_ok_def id_ok_def keys_ok_def live_def)
  have b: "in_i64 (bo_Max (cf_DefaultBackoff (m_config ?m)))"
    "list_all (\<lambda>e. in_i64 (bo_Max (he_backoff (snd e)))) (m_handlers ?m)"
    by (simp_all add: ex_defs in_i64_def i64_min_def i64_max_def)
  have now: "unix_milli (we_now (work_ex 2000000000)) = 2000" "types (m_handlers ?m) = [''mail'']"
    by (simp_all add: work_ex_def man_ex_def unix_milli_def types_def)
  have el: "eligible 2000 [''mail''] (row_ex ''J1'' ''mail'')" "eligible 2000 [''mail''] urgent_ex"
    by (simp_all add: eligible_def urgent_ex_def row_ex_def)
  have room: "has_room ?db t' t" for t' t by (simp add: has_room_def db_ex_def)
  have ne: "row_ex ''J1'' ''mail'' \<noteq> urgent_ex" "r_priority (row_ex ''J1'' ''mail'') = 0" "r_priority urgent_ex = 10"
    by (simp_all add: urgent_ex_def row_ex_def)
  have "\<exists>r \<in> set (d_jobs ?db). eligible (unix_milli (we_now (work_ex 2000000000))) (types (m_handlers ?m)) r"
    using el by (simp add: now j)
  from pass_runs_best_job [OF ro undisturbed_ex b this] obtain r where r: "r \<in> set (d_jobs ?db)"
    "\<forall>x \<in> set (d_jobs ?db). eligible (unix_milli (we_now (work_ex 2000000000))) (types (m_handlers ?m)) x \<longrightarrow>
        r_priority x < r_priority r \<or> r_priority x = r_priority r \<and> r_run_at r \<le> r_run_at x"
    "if has_room ?db (unix_milli (we_claim_now (work_ex 2000000000))) (r_type r)
     then \<exists>m'. tryClaimAndRun (work_ex 2000000000) ?m ?db = Some (m', ?db\<lparr>d_jobs := map (\<lambda>x. if x = r
        then outcome_row (work_ex 2000000000) ?m (runHandler ?m (claimed_job r)) r else x) (d_jobs ?db)\<rparr>, True)
     else tryClaimAndRun (work_ex 2000000000) ?m ?db = Some (?m, ?db, False)" by blast
  have "r = urgent_ex"
  proof (rule ccontr)
    assume "r \<noteq> urgent_ex"
    then have "r = row_ex ''J1'' ''mail''" using r(1) by (simp add: j)
    then show False using r(2) el(2) ne by (simp add: j now)
  qed
  moreover have "\<exists>m'. tryClaimAndRun (work_ex 2000000000) ?m ?db = Some (m', ?db\<lparr>d_jobs := map (\<lambda>x. if x = r
        then outcome_row (work_ex 2000000000) ?m (runHandler ?m (claimed_job r)) r else x) (d_jobs ?db)\<rparr>, True)"
    using r(3) by (simp only: room if_True)
  moreover have "outcome_row (work_ex 2000000000) ?m (runHandler ?m (claimed_job urgent_ex)) urgent_ex =
      mark_retry 7000 ''boom'' (mark_claimed 2000 ''n1'' urgent_ex)"
    by (simp add: urgent_ex_def ex_defs outcome_row_def retry_delay_def runHandler_def lookup_def claimed_job_def job_of_row_def
        nextBackoff_def shl1_def wrap64_def backoff_for_def unix_milli_def Let_def mark_claimed_def)
  ultimately show ?thesis using ne by (simp add: db_ex_def)
qed

subsection \<open>A job that always fails dies\<close>

lemma nextBackoff_cap:
  assumes "Int63n_ok r" and "nextBackoff r b k = Some d" and "in_i64 (bo_Max b)"
  shows "d \<le> (if bo_Max b \<le> 0 then 3600000000000 else bo_Max b)"
proof -
  define base where "base = (if bo_Base b \<le> 0 then 5 * 1000000000 else bo_Base b)"
  define cap where "cap = (if bo_Max b \<le> 0 then 3600 * 1000000000 else bo_Max b)"
  define mult where "mult = (let m = shl1 (nat ((if k < 1 then 1 else k) - 1)) in if m = 0 \<or> 2 ^ 20 < m then 2 ^ 20 else m)"
  define e where "e = (if cap < wrap64 (int mult * base) then cap else wrap64 (int mult * base))"
  have E: "nextBackoff r b k = (if base < e then
      (let n = wrap64 (e - base + 1) in if n \<le> 0 then None else Some (wrap64 (base + r n))) else Some e)"
    by (simp add: nextBackoff_def Let_def base_def cap_def mult_def e_def)
  have base: "0 < base" by (simp add: base_def)
  have e: "e \<le> cap" "e < 2 ^ 63"
    using wrap64_range [of "int mult * base"] assms(3) by (simp_all add: e_def cap_def in_i64_def i64_max_def)
  have "d \<le> cap"
  proof (cases "base < e")
    case True
    have n: "wrap64 (e - base + 1) = e - base + 1"
      using True base e by (intro wrap64_id) (simp add: in_i64_def i64_min_def i64_max_def)
    have rn: "0 \<le> r (e - base + 1)" "r (e - base + 1) < e - base + 1"
      using assms(1) [unfolded Int63n_ok_def, rule_format, of "e - base + 1"] True by linarith+
    then have "wrap64 (base + r (e - base + 1)) = base + r (e - base + 1)"
      using base e by (intro wrap64_id) (simp add: in_i64_def i64_min_def i64_max_def)
    then show ?thesis using assms(2) True n rn e by (simp add: E Let_def)
  next
    case False
    then show ?thesis using assms(2) e by (simp add: E)
  qed
  then show ?thesis by (simp add: cap_def split: if_splits)
qed

lemma tryClaimAndRun_manager:
  "tryClaimAndRun env m db = Some (m', db', b) \<Longrightarrow> m_handlers m' = m_handlers m \<and> m_config m' = m_config m"
  by (auto simp: tryClaimAndRun_def finalise_def Let_def split: if_splits sum.splits option.splits prod.splits handler_err.splits)

text \<open>Passes far enough apart for the delays, all undisturbed, with a proper random source.\<close>

fun spaced :: "duration \<Rightarrow> int \<Rightarrow> work_env list \<Rightarrow> bool" where
  "spaced gap due_at [] \<longleftrightarrow> True"
| "spaced gap due_at (env # envs) \<longleftrightarrow> due_at \<le> unix_milli (we_now env) \<and> undisturbed env \<and> Int63n_ok (we_Int63n env) \<and>
     spaced gap (unix_milli (we_retry_now env + gap)) envs"

lemma spaced_mono: "spaced gap d envs \<Longrightarrow> d' \<le> d \<Longrightarrow> spaced gap d' envs"
  by (cases envs) auto

definition always_fails :: "Manager \<Rightarrow> string \<Rightarrow> bool" where
  "always_fails m t \<longleftrightarrow> (case lookup (m_handlers m) t of None \<Rightarrow> False
     | Some entry \<Rightarrow> \<forall>ctx p. he_fn entry ctx p \<noteq> Returned None)"

lemma always_fails_run: "always_fails m (j_Type j) \<Longrightarrow> \<exists>e. runHandler m j = Some (HandlerErr e)"
  by (auto simp: always_fails_def runHandler_def Let_def split: option.splits handler_out.splits)

definition backoff_gap :: "Manager \<Rightarrow> string \<Rightarrow> duration" where
  "backoff_gap m t = (let b = backoff_for m t in if bo_Max b \<le> 0 then 3600000000000 else bo_Max b)"

definition backoffs_ok :: "Manager \<Rightarrow> bool" where
  "backoffs_ok m \<longleftrightarrow> in_i64 (bo_Max (cf_DefaultBackoff (m_config m))) \<and>
     list_all (\<lambda>e. in_i64 (bo_Max (he_backoff (snd e)))) (m_handlers m)"

lemma backoffs_ok_for: "backoffs_ok m \<Longrightarrow> in_i64 (bo_Max (backoff_for m t))"
  by (auto simp: backoffs_ok_def backoff_for_def lookup_def list_all_iff split: option.splits dest!: map_of_SomeD)

text \<open>A pass over a table whose only first due job is the one given, with a handler that fails.\<close>

lemma single_pass:
  assumes "rows_ok (d_jobs db)" and "r \<in> set (d_jobs db)" and "r_status r = StatusPending"
    and "r_run_at r \<le> unix_milli (we_now env)" and "undisturbed env" and "backoffs_ok m" and "always_fails m (r_type r)"
    and "has_room db (unix_milli (we_claim_now env)) (r_type r)"
    and "\<forall>x \<in> set (d_jobs db). x \<noteq> r \<longrightarrow> eligible (unix_milli (we_now env)) (types (m_handlers m)) x \<longrightarrow>
      r_priority x < r_priority r"
  obtains m' e where "tryClaimAndRun env m db = Some (m', put_row r (outcome_row env m (Some (HandlerErr e)) r) db, True)"
proof -
  let ?now = "unix_milli (we_now env)" and ?ts = "types (m_handlers m)"
  have "r_type r \<in> set ?ts"
    using assms(7) by (auto simp: always_fails_def types_def lookup_def split: option.splits dest!: map_of_SomeD
      intro: image_eqI [where x = "(r_type r, e)" for e])
  then have el: "eligible ?now ?ts r" using assms(3,4) by (simp add: eligible_def)
  then have "\<exists>x \<in> set (d_jobs db). eligible ?now ?ts x" using assms(2) by blast
  from pass_outcome [OF assms(1,5) _ _ this] assms(6) obtain x where x: "first_due ?now ?ts (d_jobs db) x"
    "if has_room db (unix_milli (we_claim_now env)) (r_type x)
     then \<exists>m'. tryClaimAndRun env m db = Some (m', put_row x (outcome_row env m (runHandler m (claimed_job x)) x) db, True)
     else tryClaimAndRun env m db = Some (m, db, False)" by (auto simp: backoffs_ok_def)
  have "x = r" by (rule first_due_unique [OF x(1) assms(2) el assms(9)])
  then obtain m' where p: "tryClaimAndRun env m db =
      Some (m', put_row r (outcome_row env m (runHandler m (claimed_job r)) r) db, True)"
    using x(2) assms(8) by auto
  obtain e where "runHandler m (claimed_job r) = Some (HandlerErr e)"
    using always_fails_run [of m "claimed_job r"] assms(7) by (auto simp: claimed_job_def job_of_row_def)
  then show thesis using that p by (simp only:)
qed

text \<open>A row that neither runs nor carries a start takes no room.\<close>

lemma has_room_put:
  assumes "r_status c \<noteq> StatusRunning" and "r_started_at c = None" and "has_room db now t"
  shows "has_room (put_row r c db) now t"
proof -
  have l: "length (filter P (map (\<lambda>x. if x = r then c else x) xs)) \<le> length (filter P xs)" if "\<not> P c" for P xs
    using that by (induction xs) auto
  have w: "in_window (put_row r c db) now = in_window db now" 
    by (rule ext) (simp add: in_window_def split: option.split)
  have "running_count (put_row r c db) \<le> running_count db"
    unfolding running_count_def using l [of "\<lambda>x. r_type x = r_type x \<and> r_status x = StatusRunning"] assms(1) by simp
  moreover have "started_count (put_row r c db) now \<le> started_count db now"
    unfolding started_count_def w using l [of "\<lambda>x. r_type x = r_type x \<and> in_window db now x"] assms(2)
    by (simp add: in_window_def)
  ultimately show ?thesis using assms(3) by (auto simp: has_room_def split: option.splits)
qed

lemma retry_delay_gap:
  assumes "Int63n_ok (we_Int63n env)" and "backoffs_ok m"
  shows "retry_delay env m r \<le> backoff_gap m (r_type r)"
proof -
  obtain d where d: "nextBackoff (we_Int63n env) (backoff_for m (r_type r)) (r_attempts r + 1) = Some d"
    using nextBackoff_total [OF backoffs_ok_for [OF assms(2)]] by blast
  from nextBackoff_cap [OF assms(1) d backoffs_ok_for [OF assms(2)]]
  show ?thesis by (simp add: retry_delay_def d backoff_gap_def Let_def)
qed

text \<open>After a failed run with attempts left the next pass that keeps the distance finds the job due.\<close>

lemma failed_row_retries:
  assumes "r_attempts r + 1 < r_max_attempts r" and "Int63n_ok (we_Int63n env)" and "backoffs_ok m"
    and r1_def: "r1 = outcome_row env m (Some (HandlerErr e)) r"
  shows "r_status r1 = StatusPending" "r_attempts r1 = r_attempts r + 1" "r_max_attempts r1 = r_max_attempts r"
    "r_type r1 = r_type r" "r_id r1 = r_id r" "r_priority r1 = r_priority r" "r_unique_key r1 = r_unique_key r"
    "r_started_at r1 = None" "r_run_at r1 \<le> unix_milli (we_retry_now env + backoff_gap m (r_type r))"
proof -
  have r1: "r1 = mark_retry (unix_milli (we_retry_now env + retry_delay env m r)) e
      (mark_claimed (unix_milli (we_claim_now env)) (m_nodeID m) r)"
    using assms(1) by (simp add: r1_def outcome_row_def Let_def)
  show "r_status r1 = StatusPending" "r_attempts r1 = r_attempts r + 1" "r_max_attempts r1 = r_max_attempts r"
    "r_type r1 = r_type r" "r_id r1 = r_id r" "r_priority r1 = r_priority r" "r_unique_key r1 = r_unique_key r"
    "r_started_at r1 = None"
    unfolding r1 by (simp_all add: mark_retry_def mark_claimed_def)
  have "unix_milli (we_retry_now env + retry_delay env m r) \<le>
      unix_milli (we_retry_now env + backoff_gap m (r_type r))"
    using retry_delay_gap [OF assms(2,3), of r] unfolding unix_milli_def by (intro zdiv_mono1) simp_all
  then show "r_run_at r1 \<le> unix_milli (we_retry_now env + backoff_gap m (r_type r))"
    unfolding r1 by (simp add: mark_retry_def)
qed

text \<open>C14. A pending job whose handler always fails, in a table with any other jobs, is dead after exactly
  as many passes of the worker as it has attempts left, its attempts at the maximum, and no other row
  has changed. The passes are undisturbed and at least the longest retry delay of the type apart; at
  each of them every other job that is due has a lower priority, and the limits leave room.\<close>

theorem failing_job_dies:
  assumes "rows_ok (d_jobs db)" and "r \<in> set (d_jobs db)"
    and "r_status r = StatusPending" and "r_attempts r < r_max_attempts r"
    and "int (length envs) = r_max_attempts r - r_attempts r"
    and "spaced (backoff_gap m (r_type r)) (r_run_at r) envs"
    and "backoffs_ok m" and "always_fails m (r_type r)"
    and "\<forall>env \<in> set envs. has_room db (unix_milli (we_claim_now env)) (r_type r) \<and>
      (\<forall>x \<in> set (d_jobs db). x \<noteq> r \<longrightarrow> eligible (unix_milli (we_now env)) (types (m_handlers m)) x \<longrightarrow>
         r_priority x < r_priority r)"
  shows "\<exists>m' r' waits. workerLoop (map (Pair TimerFired) envs) m db =
       Some (m', db\<lparr>d_jobs := map (\<lambda>x. if x = r then r' else x) (d_jobs db)\<rparr>, waits) \<and>
     r_id r' = r_id r \<and> r_status r' = StatusDead \<and> r_attempts r' = r_max_attempts r"
  using assms
proof (induction envs arbitrary: r m db)
  case (Cons env envs)
  have sp: "r_run_at r \<le> unix_milli (we_now env)" "undisturbed env" "Int63n_ok (we_Int63n env)"
    "spaced (backoff_gap m (r_type r)) (unix_milli (we_retry_now env + backoff_gap m (r_type r))) envs"
    using Cons.prems(6) by simp_all
  have now: "has_room db (unix_milli (we_claim_now env)) (r_type r)"
    "\<forall>x \<in> set (d_jobs db). x \<noteq> r \<longrightarrow> eligible (unix_milli (we_now env)) (types (m_handlers m)) x \<longrightarrow> r_priority x < r_priority r"
    using Cons.prems(9) by simp_all
  obtain m1 e where p: "tryClaimAndRun env m db = Some (m1, put_row r (outcome_row env m (Some (HandlerErr e)) r) db, True)"
    using single_pass [OF Cons.prems(1-3) sp(1,2) Cons.prems(7,8) now] .
  note m1 = tryClaimAndRun_manager [OF p]
  define r1 where "r1 = outcome_row env m (Some (HandlerErr e)) r"
  let ?w = "workerLoop (map (Pair TimerFired) envs) m1"
  have W: "workerLoop (map (Pair TimerFired) (env # envs)) m db =
      (case ?w (put_row r r1 db) of None \<Rightarrow> None | Some (m', db', waits) \<Rightarrow> Some (m', db', 0 # waits))"
    unfolding r1_def by (simp add: p)
  show ?case
  proof (cases "r_max_attempts r \<le> r_attempts r + 1")
    case True
    then have "length envs = 0" using Cons.prems(4,5) by (simp del: length_0_conv)
    then have "envs = []" by (rule iffD1 [OF length_0_conv])
    moreover have "r_status r1 = StatusDead" "r_attempts r1 = r_max_attempts r" "r_id r1 = r_id r"
      using True Cons.prems(4) by (simp_all add: r1_def outcome_row_def Let_def mark_dead_def mark_claimed_def)
    ultimately show ?thesis using W by auto
  next
    case False
    then have "r_attempts r + 1 < r_max_attempts r" by simp
    note f = failed_row_retries [OF this sp(3) Cons.prems(7) r1_def]
    have "live r" using Cons.prems(3) by (simp add: live_def)
    have ro: "rows_ok (d_jobs (put_row r r1 db))" by (rule rows_ok_put [OF Cons.prems(1) \<open>live r\<close> f(5,7)])
    have bm: "backoff_for m1 t = backoff_for m t" for t using m1 by (simp add: backoff_for_def split: option.split)
    have "spaced (backoff_gap m1 (r_type r1)) (r_run_at r1) envs"
      using spaced_mono [OF sp(4)] f by (simp add: backoff_gap_def bm)
    moreover have "backoffs_ok m1" "always_fails m1 (r_type r1)"
      using Cons.prems(7,8) m1 f by (simp_all add: backoffs_ok_def always_fails_def)
    moreover have "\<forall>env \<in> set envs. has_room (put_row r r1 db) (unix_milli (we_claim_now env)) (r_type r1) \<and>
        (\<forall>x \<in> set (d_jobs (put_row r r1 db)). x \<noteq> r1 \<longrightarrow> eligible (unix_milli (we_now env)) (types (m_handlers m1)) x \<longrightarrow>
           r_priority x < r_priority r1)"
      using Cons.prems(9) m1 f has_room_put [of r1 db] by auto
    ultimately have "\<exists>m' r' waits. ?w (put_row r r1 db) = Some (m', put_row r1 r' (put_row r r1 db), waits) \<and>
        r_id r' = r_id r1 \<and> r_status r' = StatusDead \<and> r_attempts r' = r_max_attempts r1"
      using Cons.prems(2,4,5) f ro False by (intro Cons.IH) auto
    then show ?thesis using W f(3,5) unfolding put_row_again [OF Cons.prems(1,2) f(5)] by auto
  qed
qed simp

lemma spaced_ex: "spaced (backoff_gap (man_ex out) ''mail'') 1000 [work_ex 2000000000, work_ex 4000000000000]"
  by (simp add: undisturbed_ex)
    (simp add: ex_defs backoff_gap_def backoff_for_def lookup_def unix_milli_def Int63n_ok_def Let_def)

lemma backoffs_ok_ex: "backoffs_ok (man_ex out)"
  by (simp add: backoffs_ok_def ex_defs in_i64_def i64_min_def i64_max_def)

text \<open>In the witness another job of the type is due all the time, less urgent, and stays as it is.\<close>

definition doomed_ex :: job_row where
  "doomed_ex = row_ex ''J2'' ''mail''\<lparr>r_priority := 10, r_max_attempts := 2\<rparr>"

theorem failing_job_dies_witness:
  "\<exists>m' r' waits. workerLoop [(TimerFired, work_ex 2000000000), (TimerFired, work_ex 4000000000000)]
       (man_ex (Panicked ''boom'')) (db_ex [row_ex ''J1'' ''mail'', doomed_ex]) =
         Some (m', db_ex [row_ex ''J1'' ''mail'', r'], waits) \<and>
     r_id r' = ''J2'' \<and> r_status r' = StatusDead \<and> r_attempts r' = 2"
proof -
  let ?m = "man_ex (Panicked ''boom'')" and ?db = "db_ex [row_ex ''J1'' ''mail'', doomed_ex]"
  let ?envs = "[work_ex 2000000000, work_ex 4000000000000]"
  have ro: "rows_ok (d_jobs ?db)"
    by (simp add: db_ex_def doomed_ex_def row_ex_def rows_ok_def id_ok_def keys_ok_def live_def)
  have d: "d_jobs ?db = [row_ex ''J1'' ''mail'', doomed_ex]" "doomed_ex \<in> set (d_jobs ?db)" by (simp_all add: db_ex_def)
  have r: "r_status doomed_ex = StatusPending" "r_attempts doomed_ex < r_max_attempts doomed_ex"
    "int (length ?envs) = r_max_attempts doomed_ex - r_attempts doomed_ex" "r_type doomed_ex = ''mail''"
    "r_run_at doomed_ex = 1000" "r_id doomed_ex = ''J2''" "r_max_attempts doomed_ex = 2" "row_ex ''J1'' ''mail'' \<noteq> doomed_ex"
    "r_priority (row_ex ''J1'' ''mail'') < r_priority doomed_ex"
    by (simp_all add: doomed_ex_def row_ex_def)
  have f: "always_fails ?m ''mail''" by (simp add: always_fails_def man_ex_def lookup_def)
  have w: "\<forall>env \<in> set ?envs. has_room ?db (unix_milli (we_claim_now env)) (r_type doomed_ex) \<and>
      (\<forall>x \<in> set (d_jobs ?db). x \<noteq> doomed_ex \<longrightarrow> eligible (unix_milli (we_now env)) (types (m_handlers ?m)) x \<longrightarrow>
         r_priority x < r_priority doomed_ex)"
    using r(9) unfolding d(1) by (simp add: has_room_def db_ex_def)
  from failing_job_dies [OF ro d(2) r(1-3) _ backoffs_ok_ex _ w] spaced_ex f
  show ?thesis unfolding r(4-7) d(1) using r(8) by (simp add: db_ex_def)
qed

subsection \<open>Sweeper and reaper\<close>

text \<open>C15. A job whose worker died is not lost: in every reachable state, a running job with a timeout
  that has passed since its claim is, after a sweep, due and pending again for any worker that
  handles its type; a running job whose timeout has not passed keeps its row.\<close>

theorem sweep_recovers:
  assumes "queue_state db" and "r \<in> set (d_jobs db)" and "r_status r = StatusRunning" and "r_type r \<in> set ts"
  shows "if orphaned (unix_milli now) r
    then \<exists>r' \<in> set (d_jobs (sweepOnce None now db)). r_id r' = r_id r \<and> eligible (unix_milli now) ts r'
    else r \<in> set (d_jobs (sweepOnce None now db))"
proof -
  note inv = queue_state_inv [OF assms(1)]
  have U: "d_jobs (sweepOnce None now db) = map (\<lambda>r. if orphaned (unix_milli now) r then mark_orphaned r else r) (d_jobs db)"
    using inv update_jobs_total [of "d_jobs db" "orphaned (unix_milli now)" mark_orphaned]
    by (simp add: sweepOnce_def exec_jobs_def job_inv_def rows_ok_def mark_orphaned_def orphaned_def live_def)
  show ?thesis
  proof (cases "orphaned (unix_milli now) r")
    case True
    have "row_ok r" using inv assms(2) by (simp add: job_inv_def)
    then have "r_run_at r \<le> unix_milli now"
      using True by (auto simp: orphaned_def row_ok_def split: option.splits)
    then have "eligible (unix_milli now) ts (mark_orphaned r)"
      using assms(4) by (simp add: eligible_def mark_orphaned_def)
    moreover have "mark_orphaned r \<in> set (d_jobs (sweepOnce None now db))"
      unfolding U using True assms(2) by (auto intro!: image_eqI [of _ _ r])
    moreover have "r_id (mark_orphaned r) = r_id r" by simp
    ultimately show ?thesis using True by (simp del: mark_ids) blast
  next
    case False
    then have "r \<in> set (d_jobs (sweepOnce None now db))" unfolding U using assms(2) by (auto intro!: image_eqI [of _ _ r])
    then show ?thesis using False by simp
  qed
qed

theorem sweep_recovers_witness:
  "\<exists>r \<in> set (d_jobs (sweepOnce None 400000000000 (db_ex [mark_claimed 2000 ''n1'' (row_ex ''J1'' ''mail'')]))).
     r_id r = ''J1'' \<and> eligible 400000 [''mail''] r"
proof -
  have "queue_state (db_ex [])" by (rule queue_state.empty) (simp add: db_ex_def)
  then have "queue_state (db_ex [row_ex ''J1'' ''mail''])"
    by (rule queue_state.enqueue [OF _ _ _ enqueue_ex]) (simp_all add: enq_ex_def orderly_id)
  then have q: "queue_state (db_ex [mark_claimed 2000 ''n1'' (row_ex ''J1'' ''mail'')])"
    by (rule queue_state.cut) (rule stmt.claim [OF claim_ex])
  let ?r = "mark_claimed 2000 ''n1'' (row_ex ''J1'' ''mail'')"
  have f: "unix_milli 400000000000 = 400000" "?r \<in> set (d_jobs (db_ex [?r]))" "r_status ?r = StatusRunning"
    "r_type ?r \<in> set [''mail'']" "orphaned 400000 ?r" "r_id ?r = ''J1''"
    by (simp_all add: unix_milli_def db_ex_def mark_claimed_def row_ex_def orphaned_def)
  show ?thesis using sweep_recovers [OF q f(2-4), of 400000000000] by (simp only: f if_True)
qed

text \<open>C34. The reaper deletes exactly the succeeded and dead jobs that finished before the retention
  cutoff; every pending or running job and every younger one stays, in order.\<close>

theorem reap_exact:
  "d_jobs (snd (reapOnce None now m db)) =
     filter (\<lambda>r. \<not> (terminal r \<and> (case r_finished_at r of None \<Rightarrow> False
       | Some t \<Rightarrow> t < unix_milli (now - cf_RetainTerminal (m_config m))))) (d_jobs db)"
proof -
  have e: "expired cutoff r \<longleftrightarrow> terminal r \<and> (case r_finished_at r of None \<Rightarrow> False | Some t \<Rightarrow> t < cutoff)" for cutoff r
    by (simp add: expired_def terminal_def)
  show ?thesis by (simp add: reapOnce_def exec_jobs_def delete_jobs_def e Let_def)
qed

subsection \<open>What goes wrong\<close>

text \<open>C33. The outcome is written without checking that the claim still stands. In any reachable state a
  worker's pass runs the first due job, with no faults and nobody writing before its claim; if while the
  handler runs the other connections, by any statements, bring the job to success, and the handler then
  fails with attempts left, the pass puts that succeeded row back to pending, due after the retry delay
  for any worker of its type. The states are reachable. In the witness the job outlives its timeout, is
  swept, and a second worker runs it to success.\<close>

theorem late_outcome_revives_job:
  assumes "queue_state db" and "backoffs_ok m"
    and "r \<in> set (d_jobs db)" and "eligible (unix_milli (we_now env)) (types (m_handlers m)) r"
    and "\<forall>x \<in> set (d_jobs db). x \<noteq> r \<longrightarrow> eligible (unix_milli (we_now env)) (types (m_handlers m)) x \<longrightarrow>
      r_priority x < r_priority r"
    and "has_room db (unix_milli (we_claim_now env)) (r_type r)"
    and "we_find_fault env = None \<and> we_claim_fault env = None \<and> we_fin_fault env = None \<and>
      we_before_claim env = (\<lambda>db. db) \<and> we_now env \<le> we_claim_now env"
    and "orderly (we_during_run env)"
    and "db2 = we_during_run env (db\<lparr>d_jobs := map (\<lambda>x. if x = r
      then mark_claimed (unix_milli (we_claim_now env)) (m_nodeID m) r else x) (d_jobs db)\<rparr>)"
    and "r2 \<in> set (d_jobs db2)" and "r_id r2 = r_id r" and "r_status r2 = StatusSucceeded"
    and "\<forall>x \<in> set (d_jobs db2). x \<noteq> r2 \<longrightarrow> live x \<longrightarrow> r_unique_key x = None \<or> r_unique_key x \<noteq> r_unique_key r2"
    and "runHandler m (claimed_job r) = Some (HandlerErr e)" and "r_attempts r + 1 < r_max_attempts r"
  shows "\<exists>m' r3 db3. tryClaimAndRun env m db = Some (m', db3, True) \<and> queue_state db3 \<and>
     db3 = db2\<lparr>d_jobs := map (\<lambda>x. if x = r2 then r3 else x) (d_jobs db2)\<rparr> \<and>
     r_id r3 = r_id r \<and> r_status r3 = StatusPending \<and>
     (\<forall>now ts. r_type r2 \<in> set ts \<longrightarrow> unix_milli (we_retry_now env + retry_delay env m r) \<le> now \<longrightarrow> eligible now ts r3)"
proof -
  let ?now = "unix_milli (we_now env)" and ?ts = "types (m_handlers m)" and ?cn = "unix_milli (we_claim_now env)"
  let ?db1 = "put_row r (mark_claimed ?cn (m_nodeID m) r) db"
  note u = assms(7)
  have ok: "rows_ok (d_jobs db)" using queue_state_inv [OF assms(1)] by (simp add: job_inv_def)
  obtain x where x: "findCandidate None ?now ?ts db = Inr (Some (job_of_row x))" "first_due ?now ?ts (d_jobs db) x"
    using findCandidate_first [of db ?now ?ts] assms(3,4) by blast
  have "x = r" by (rule first_due_unique [OF x(2) assms(3-5)])
  note x = x [unfolded this]
  have "?now \<le> ?cn" using u unfolding unix_milli_def by (intro zdiv_mono1) simp_all
  then have "may_claim db ?cn r" using assms(4,6) by (simp add: may_claim_room eligible_def)
  note cl = claim_put_row [OF ok assms(3) this, of "m_nodeID m"]
  have "stmts db ?db1" using stmt.claim [OF cl] by blast
  then have "stmts db db2" unfolding assms(9) by (rule rtranclp_trans) (rule orderlyD [OF assms(8)])
  then have "job_inv db2" by (rule queue.stmts_keep [OF _ queue_state_inv [OF assms(1)]])
  then have ok2: "rows_ok (d_jobs db2)" by (simp add: job_inv_def)
  have keys: "keys_ok (d_jobs (put_row r2 c db2))" if "r_unique_key c = r_unique_key r2" for c
    using keys_ok_put [of "d_jobs db2" r2 c] ok2 rows_distinct [OF ok2] assms(13) that by (simp add: rows_ok_def)
  let ?m = "m\<lparr>m_executed := m_executed m + 1\<rparr>" and ?j = "claimed_job r"
  have j: "j_ID ?j = r_id r" "j_Type ?j = r_type r" "j_Attempts ?j = r_attempts r + 1" "j_MaxAttempts ?j = r_max_attempts r"
    by (simp_all add: claimed_job_def job_of_row_def)
  have cj: "(job_of_row r)\<lparr>j_Attempts := j_Attempts (job_of_row r) + 1, j_Status := StatusRunning\<rparr> = ?j"
    "j_ID (job_of_row r) = r_id r"
    by (simp_all add: claimed_job_def job_of_row_def)
  let ?r3 = "mark_retry (unix_milli (we_retry_now env + retry_delay env m r)) e r2"
  obtain m' where fin: "finalise env ?m ?j (Some (HandlerErr e)) db2 = Some (m', put_row r2 ?r3 db2)"
    using finalise_row [OF ok2 assms(10) keys, of env ?j ?m "Some (HandlerErr e)"] u assms(11,15) j
      backoffs_ok_for [OF assms(2)]
    by (auto simp: retry_delay_def)
  have "length ?ts \<noteq> 0" using assms(4) by (auto simp: eligible_def)
  then have t: "tryClaimAndRun env m db = Some (m', put_row r2 ?r3 db2, True)"
    using u x(1) cl fin assms(14) by (simp add: tryClaimAndRun_def Let_def cj flip: assms(9))
  have "queue_state (put_row r2 ?r3 db2)"
    by (rule queue_state.run [OF assms(1) _ assms(8) t]) (simp add: u orderly_id)
  moreover have "r_id ?r3 = r_id r" "r_status ?r3 = StatusPending"
    "\<forall>now ts. r_type r2 \<in> set ts \<longrightarrow> unix_milli (we_retry_now env + retry_delay env m r) \<le> now \<longrightarrow> eligible now ts ?r3"
    using assms(11) by (simp_all add: mark_retry_def eligible_def)
  ultimately show ?thesis using t by blast
qed

text \<open>While the first worker's handler runs: a sweep after the job's timeout, and a pass of a second worker.\<close>

definition overtake_ex :: "jobs_db \<Rightarrow> jobs_db" where
  "overtake_ex db = (let db = sweepOnce None 400000000000 db in
     case tryClaimAndRun (work_ex 401000000000) (man_ex (Returned None)) db of None \<Rightarrow> db | Some (_, db, _) \<Rightarrow> db)"

definition late_ex :: work_env where
  "late_ex = (work_ex 2000000000)\<lparr>we_during_run := overtake_ex, we_fin_now := 402000000000, we_retry_now := 402000000000\<rparr>"

lemma orderly_overtake: "orderly overtake_ex"
proof -
  have "stmts db1 db2" if "tryClaimAndRun (work_ex 401000000000) (man_ex (Returned None)) db1 = Some (m, db2, b)" for db1 db2 m b
    by (rule tryClaimAndRun_stmts [OF _ _ that]) (simp_all add: work_ex_def orderly_id)
  then have "stmts db db2" if "tryClaimAndRun (work_ex 401000000000) (man_ex (Returned None)) (sweepOnce f now db) = Some (m, db2, b)"
    for f now db db2 m b using that by (blast intro: rtranclp_trans [OF sweepOnce_stmts])
  then show ?thesis unfolding orderly_def overtake_ex_def Let_def using sweepOnce_stmts by (auto split: option.split)
qed

definition succeeded_ex :: job_row where
  "succeeded_ex = mark_succeeded 401000 (mark_claimed 401000 ''n1'' (mark_orphaned (mark_claimed 2000 ''n1'' (row_ex ''J1'' ''mail''))))"

lemma overtake_ex_eq: "overtake_ex (db_ex [mark_claimed 2000 ''n1'' (row_ex ''J1'' ''mail'')]) = db_ex [succeeded_ex]"
  by (simp add: ex_defs overtake_ex_def claim_def exec_jobs_def update_jobs_def claimable_def mark_claimed_def keys_ok_def live_def
      sweepOnce_def orphaned_def mark_orphaned_def tryClaimAndRun_def findCandidate_def eligible_def succeeded_ex_def
      job_of_row_def finalise_def runHandler_def types_def lookup_def unix_milli_def go_sort_def of_millis_def
      mark_succeeded_def Let_def)

theorem late_outcome_revives_job_witness:
  "\<exists>m' r3. tryClaimAndRun late_ex (man_ex (Returned (Some ''timeout''))) (db_ex [row_ex ''J1'' ''mail'']) =
       Some (m', db_ex [r3], True) \<and>
     we_during_run late_ex (db_ex [mark_claimed 2000 ''n1'' (row_ex ''J1'' ''mail'')]) = db_ex [succeeded_ex] \<and>
     r_status succeeded_ex = StatusSucceeded \<and> r_id r3 = ''J1'' \<and> r_status r3 = StatusPending \<and> eligible 500000 [''mail''] r3"
proof -
  let ?m = "man_ex (Returned (Some ''timeout''))" and ?r = "row_ex ''J1'' ''mail''"
  have q: "queue_state (db_ex [?r])"
    by (rule queue_state.enqueue [OF _ _ _ enqueue_ex]) (simp_all add: enq_ex_def orderly_id queue_state.empty db_ex_def)
  have d: "d_jobs (db_ex rs) = rs" "(db_ex rs)\<lparr>d_jobs := rs'\<rparr> = db_ex rs'" for rs rs' by (simp_all add: db_ex_def)
  have l: "we_find_fault late_ex = None \<and> we_claim_fault late_ex = None \<and> we_fin_fault late_ex = None \<and>
      we_before_claim late_ex = (\<lambda>db. db) \<and> we_now late_ex \<le> we_claim_now late_ex" "we_during_run late_ex = overtake_ex"
    "unix_milli (we_claim_now late_ex) = 2000" "unix_milli (we_now late_ex) = 2000" "we_retry_now late_ex = 402000000000"
    "we_Int63n late_ex = (\<lambda>n. 0)"
    by (simp_all add: late_ex_def work_ex_def unix_milli_def)
  have m: "m_nodeID ?m = ''n1''" "types (m_handlers ?m) = [''mail'']" by (simp_all add: man_ex_def types_def)
  have el: "eligible 2000 [''mail''] ?r" "has_room (db_ex [?r]) 2000 (r_type ?r)" "r_attempts ?r + 1 < r_max_attempts ?r"
    by (simp_all add: eligible_def row_ex_def has_room_def db_ex_def)
  have h: "runHandler ?m (claimed_job ?r) = Some (HandlerErr ''timeout'')"
    by (simp add: ex_defs runHandler_def claimed_job_def job_of_row_def lookup_def Let_def)
  have s: "r_id succeeded_ex = r_id ?r" "r_status succeeded_ex = StatusSucceeded" "r_type succeeded_ex = ''mail''" "r_id ?r = ''J1''"
    by (simp_all add: succeeded_ex_def mark_succeeded_def mark_claimed_def mark_orphaned_def row_ex_def)
  have w: "retry_delay late_ex ?m ?r = 5000000000"
    unfolding retry_delay_def l(6)
    by (simp add: ex_defs nextBackoff_def shl1_def wrap64_def backoff_for_def lookup_def Let_def)
  have db2: "db_ex [succeeded_ex] = we_during_run late_ex ((db_ex [?r])\<lparr>d_jobs := map (\<lambda>x. if x = ?r
      then mark_claimed (unix_milli (we_claim_now late_ex)) (m_nodeID ?m) ?r else x) (d_jobs (db_ex [?r]))\<rparr>)"
    unfolding l(2,3) m d using overtake_ex_eq by (simp add: d)
  have "\<exists>m' r3 db3. tryClaimAndRun late_ex ?m (db_ex [?r]) = Some (m', db3, True) \<and> queue_state db3 \<and>
      db3 = (db_ex [succeeded_ex])\<lparr>d_jobs := map (\<lambda>x. if x = succeeded_ex then r3 else x) (d_jobs (db_ex [succeeded_ex]))\<rparr> \<and>
      r_id r3 = r_id ?r \<and> r_status r3 = StatusPending \<and>
      (\<forall>now ts. r_type succeeded_ex \<in> set ts \<longrightarrow> unix_milli (we_retry_now late_ex + retry_delay late_ex ?m ?r) \<le> now \<longrightarrow> eligible now ts r3)"
    by (rule late_outcome_revives_job [OF q backoffs_ok_ex _ _ _ _ l(1) _ db2 _ s(1,2) _ h el(3)])
      (use el in \<open>simp_all add: d l m orderly_overtake\<close>)
  then obtain m' r3 where "tryClaimAndRun late_ex ?m (db_ex [?r]) = Some (m', db_ex [r3], True)"
    "r_id r3 = r_id ?r" "r_status r3 = StatusPending" "eligible 500000 [''mail''] r3"
    unfolding d l(5) w s(3) by (auto simp: d unix_milli_def)
  then show ?thesis unfolding l(2) overtake_ex_eq s(4) using s(2) by blast
qed

text \<open>The sweeper does not look at the attempts: a job whose worker dies in every run, with the
  last of its attempts used up, is put back and claimed for one attempt more than its maximum.\<close>

lemma sweeper_exceeds_max_attempts:
  "let db0 = db_ex [mark_claimed 2000 ''n1'' (row_ex ''J1'' ''mail''\<lparr>r_attempts := 4\<rparr>)];
       db1 = sweepOnce None 400000000000 db0;
       (db2, res) = claim None 401000 ''n2'' ''J1'' db1
   in res = Inr 1 \<and> map r_attempts (d_jobs db0) = map r_max_attempts (d_jobs db0) \<and>
      map r_attempts (d_jobs db2) = [6] \<and> map r_max_attempts (d_jobs db2) = [5]"
  by (simp add: ex_defs claim_def exec_jobs_def update_jobs_def claimable_def mark_claimed_def keys_ok_def live_def
      sweepOnce_def orphaned_def mark_orphaned_def unix_milli_def Let_def)

text \<open>A retry clears \<open>started_at\<close>, which the rate limit counts: with one start per minute
  allowed, a job fails and two milliseconds after its start another of the type is claimed.\<close>

lemma rate_limit_forgets_failures:
  "let db0 = (db_ex [row_ex ''J1'' ''mail'', row_ex ''J2'' ''mail''])\<lparr>d_ratelimit := [''mail'' \<mapsto> (1, 60000)]\<rparr>;
       (db1, first) = claim None 2000 ''n1'' ''J1'' db0;
       blocked = snd (claim None 2001 ''n2'' ''J2'' db1);
       db2 = snd (the (finalise (work_ex 2001000000) (man_ex (Returned None)) (claimed_job (row_ex ''J1'' ''mail''))
               (Some (HandlerErr ''boom'')) db1));
       second = snd (claim None 2002 ''n2'' ''J2'' db2)
   in first = Inr 1 \<and> blocked = Inr 0 \<and> second = Inr 1"
  by (simp add: ex_defs claim_def exec_jobs_def update_jobs_def claimable_def mark_claimed_def keys_ok_def live_def
      in_window_def started_count_def finalise_def unix_milli_def mark_retry_def claimed_job_def job_of_row_def
      nextBackoff_def shl1_def wrap64_def backoff_for_def lookup_def Let_def)

end
