(* ===== verification/Jobs_Intake.thy ===== *)
theory Jobs_Intake
  imports Jobs_Invariant
begin

text \<open>
  What putting work in guarantees: a unique key has one live job and its id is what \<open>Enqueue\<close>
  returns, whatever races; the scheduler adds one job per due row and moves the row on; the
  configuration is always usable and the start-up ends.
\<close>

subsection \<open>Enqueue\<close>

lemma unique_violation: "isUniqueViolation (Some (unique_error col))"
proof -
  have "index_from i (''constraint failed: UNIQUE constraint failed: colmena_jobs.'' @ col) ''UNIQUE constraint failed'' \<noteq> None" for i
    by simp
  then show ?thesis by (simp add: isUniqueViolation_def unique_error_def contains_def indexOf_def)
qed

lemma select_live_Some:
  assumes "select_live f k db = Some jid"
  shows "\<exists>r \<in> set (d_jobs db). r_id r = jid \<and> live r \<and> r_unique_key r = Some k"
proof -
  obtain r where r: "find (live_with_key k) (d_jobs db) = Some r" "r_id r = jid"
    using assms by (auto simp: select_live_def split: option.splits)
  then have "r \<in> set (d_jobs db)" "live_with_key k r"
    using find_Some_iff [of "live_with_key k" "d_jobs db" r] nth_mem by auto
  then show ?thesis using r(2) by (auto simp: live_with_key_def)
qed

lemma live_key_unique:
  "keys_ok rs \<Longrightarrow> r \<in> set rs \<Longrightarrow> s \<in> set rs \<Longrightarrow> live r \<Longrightarrow> live s \<Longrightarrow>
     r_unique_key r = Some k \<Longrightarrow> r_unique_key s = Some k \<Longrightarrow> r = s"
proof (induction rs)
  case (Cons x xs)
  have "k \<notin> set (live_keys xs)" if "live x" "r_unique_key x = Some k"
    using Cons.prems(1) that by (simp add: keys_ok_def)
  moreover have "keys_ok xs" using Cons.prems(1) by (auto simp: keys_ok_def split: if_splits option.splits)
  ultimately show ?case using Cons by (auto simp: set_live_keys)
qed simp

text \<open>C12. Unique keys under any race: when \<open>Enqueue\<close> with a unique key returns an id, then, whatever
  other connections did between its statements, exactly one live job of the table has the key, and
  it has that id.\<close>

theorem Enqueue_unique_key:
  assumes "queue_state db" and "orderly (ee_before_insert env)" and "orderly (ee_before_lookup env)"
    and "eo_uniqueKey (enqueue_opts env m options) = k" and "k \<noteq> []"
    and "Enqueue env m jobType options db = (m', db', Inr jid)"
  shows "(\<exists>!r. r \<in> set (d_jobs db') \<and> live r \<and> r_unique_key r = Some k) \<and>
    (\<exists>r. r \<in> set (d_jobs db') \<and> live r \<and> r_unique_key r = Some k \<and> r_id r = jid)"
proof -
  let ?o = "enqueue_opts env m options"
  have e: "\<exists>r. r \<in> set (d_jobs db') \<and> live r \<and> r_unique_key r = Some k \<and> r_id r = jid"
  proof (cases "ee_payload env")
    case (Inr payload)
    show ?thesis
    proof (cases "select_live (ee_select_fault env) k db")
      case None
      then have ins: "insert_new env m jobType payload ?o db = (m', db', Inr jid)"
        using assms(4-6) Inr by (simp add: Enqueue_def Let_def)
      obtain db2 res where x: "exec_jobs (ee_insert_fault env) (insert_job (new_job_row env jobType payload ?o))
          (ee_before_insert env db) = (db2, res)" by (metis surj_pair)
      show ?thesis
      proof (cases res)
        case (Inl err)
        then have "select_live (ee_lookup_fault env) k (ee_before_lookup env db2) = Some jid" "db' = ee_before_lookup env db2"
          using ins assms(4,5) by (auto simp: insert_new_def x Let_def split: if_splits option.splits)
        then show ?thesis using select_live_Some by blast
      next
        case (Inr n)
        then have "jid = ee_id env" "db' = db2" using ins by (simp_all add: insert_new_def x)
        moreover have "new_job_row env jobType payload ?o \<in> set (d_jobs db2)"
          using exec_jobs_cases [OF x] Inr by (auto simp: insert_job_def split: if_splits)
        moreover have "live (new_job_row env jobType payload ?o)" "r_id (new_job_row env jobType payload ?o) = ee_id env"
          "r_unique_key (new_job_row env jobType payload ?o) = Some k"
          using assms(4,5) by (simp_all add: new_job_row_def live_def Let_def)
        ultimately show ?thesis by blast
      qed
    next
      case (Some old)
      then have "db' = db" "jid = old" using assms(4-6) Inr by (auto simp: Enqueue_def Let_def)
      then show ?thesis using select_live_Some [OF Some] by blast
    qed
  qed (use assms(6) in \<open>simp add: Enqueue_def Let_def\<close>)
  have "queue_state db'" by (rule queue_state.enqueue [OF assms(1-3,6)])
  then have "keys_ok (d_jobs db')" using queue_state_inv [of db'] by (simp add: job_inv_def rows_ok_def)
  then have "\<exists>!r. r \<in> set (d_jobs db') \<and> live r \<and> r_unique_key r = Some k"
    using e live_key_unique [of "d_jobs db'"] by blast
  then show ?thesis using e by (rule conjI)
qed

text \<open>A race: between the select and the insert of this call another connection enqueues the key.\<close>

definition rival :: "jobs_db \<Rightarrow> jobs_db" where
  "rival db = fst (exec_jobs None (insert_job (row_ex ''J0'' ''mail''\<lparr>r_unique_key := Some ''k''\<rparr>)) db)"

lemma orderly_rival: "orderly rival"
proof -
  let ?r = "row_ex ''J0'' ''mail''\<lparr>r_unique_key := Some ''k''\<rparr>"
  have f: "fresh_row ?r" by (simp add: fresh_row_def row_ex_def)
  have "stmts db (rival db)" for db
    unfolding rival_def using stmt.insert [OF f surjective_pairing] by (rule r_into_rtranclp)
  then show ?thesis by (simp add: orderly_def)
qed

theorem Enqueue_unique_key_witness:
  "\<exists>db'. Enqueue ((enq_ex 1000000000 ''J1'')\<lparr>ee_before_insert := rival\<rparr>) (man_ex (Returned None)) ''mail''
     [WithUniqueKey ''k''] (db_ex []) = (man_ex (Returned None), db', Inr ''J0'') \<and>
     (\<exists>!r. r \<in> set (d_jobs db') \<and> live r \<and> r_unique_key r = Some ''k'')"
proof -
  let ?env = "(enq_ex 1000000000 ''J1'')\<lparr>ee_before_insert := rival\<rparr>" and ?m = "man_ex (Returned None)"
  have e: "Enqueue ?env ?m ''mail'' [WithUniqueKey ''k''] (db_ex []) =
      (?m, db_ex [row_ex ''J0'' ''mail''\<lparr>r_unique_key := Some ''k''\<rparr>], Inr ''J0'')"
    using unique_violation [of "''unique_key''"]
    by (simp add: ex_defs Enqueue_def insert_new_def enqueue_opts_def exec_jobs_def insert_job_def new_job_row_def
        keys_ok_def unix_milli_def milliseconds_def PriorityNormal_def WithUniqueKey_def rival_def select_live_def
        live_with_key_def live_def Let_def)
  have "queue_state (db_ex [])" by (rule queue_state.empty) (simp add: db_ex_def)
  from Enqueue_unique_key [OF this _ _ _ _ e]
  show ?thesis using e by (auto simp: orderly_rival orderly_id enq_ex_def enqueue_opts_def WithUniqueKey_def)
qed

subsection \<open>Scheduler\<close>

text \<open>A row after its run: the fired time is its last run, the next one the search's result.\<close>

definition advanced :: "location \<Rightarrow> schedule_row \<Rightarrow> schedule_row" where
  "advanced loc r = (case parseCron (s_cron_expr r) of
       Some (Inr sched) \<Rightarrow> r\<lparr>s_last_run_at := Some (s_next_run_at r),
         s_next_run_at := unix_milli (the (cron_Next loc sched (s_next_run_at r * 1000000)))\<rparr>
     | _ \<Rightarrow> r)"

definition valid_cron :: "string \<Rightarrow> bool" where
  "valid_cron e \<longleftrightarrow> (case parseCron e of Some (Inr _) \<Rightarrow> True | _ \<Rightarrow> False)"

text \<open>A due row handled with no faults and nobody else at work.\<close>

definition calm_fire :: "fire_env \<Rightarrow> bool" where
  "calm_fire env \<longleftrightarrow> fe_insert_fault env = None \<and> fe_advance_fault env = None \<and>
     fe_before_insert env = (\<lambda>db. db) \<and> fe_before_advance env = (\<lambda>db. db)"

lemma keys_ok_append_keyless: "keys_ok rs \<Longrightarrow> r_unique_key r = None \<Longrightarrow> keys_ok (rs @ [r])"
proof -
  have "r_unique_key r = None \<Longrightarrow> live_keys (rs @ [r]) = live_keys rs" by (induction rs) (auto split: option.splits)
  then show "keys_ok rs \<Longrightarrow> r_unique_key r = None \<Longrightarrow> keys_ok (rs @ [r])" by (simp add: keys_ok_def)
qed

lemma rows_ok_append:
  assumes "rows_ok rs" and "r_id r \<notin> r_id ` set rs" and "r_unique_key r = None"
  shows "rows_ok (rs @ [r])"
proof -
  have "keys_ok (rs @ [r])" using assms(1,3) by (intro keys_ok_append_keyless) (simp_all add: rows_ok_def)
  moreover have "id_ok (rs @ [r])" using assms(1,2) by (simp add: rows_ok_def id_ok_def)
  ultimately show ?thesis by (simp add: rows_ok_def)
qed

lemma fire_calm:
  assumes "calm_fire env" and "valid_cron (s_cron_expr d)" and "rows_ok (d_jobs db)"
    and "fe_id env \<notin> r_id ` set (d_jobs db)"
  shows "fire (fixed off) m d env db = Some (db\<lparr>d_jobs := d_jobs db @ [scheduled_row (fe_id env) m d],
      d_schedule := map (\<lambda>r. if s_id r = s_id d then r\<lparr>s_last_run_at := Some (s_next_run_at d),
        s_next_run_at := s_next_run_at (advanced (fixed off) d)\<rparr> else r) (d_schedule db)\<rparr>)"
proof -
  obtain sched where p: "parseCron (s_cron_expr d) = Some (Inr sched)"
    using assms(2) by (auto simp: valid_cron_def split: option.splits sum.splits)
  obtain nx where nx: "cron_Next (fixed off) sched (s_next_run_at d * 1000000) = Some nx"
    using cron_Next_returns by blast
  have "keys_ok (d_jobs db @ [scheduled_row (fe_id env) m d])"
    using assms(3) by (intro keys_ok_append_keyless) (simp_all add: rows_ok_def scheduled_row_def)
  moreover have "r_id (scheduled_row (fe_id env) m d) = fe_id env" by (simp add: scheduled_row_def)
  ultimately show ?thesis
    using assms(1,4) by (simp add: fire_def p nx calm_fire_def exec_jobs_def insert_job_def exec_fault_def advance_def
      advanced_def Let_def)
qed

lemma advanced_later: "valid_cron (s_cron_expr r) \<Longrightarrow> s_next_run_at r < s_next_run_at (advanced (fixed off) r)"
proof -
  assume "valid_cron (s_cron_expr r)"
  then obtain sched where p: "parseCron (s_cron_expr r) = Some (Inr sched)"
    by (auto simp: valid_cron_def split: option.splits sum.splits)
  from cron_Next_later [of off sched "s_next_run_at r * 1000000"] obtain nx where
    "cron_Next (fixed off) sched (s_next_run_at r * 1000000) = Some nx \<and> s_next_run_at r * 1000000 < nx \<and> nx mod minute = 0"
    by (rule exE)
  then have nx: "cron_Next (fixed off) sched (s_next_run_at r * 1000000) = Some nx" "s_next_run_at r * 1000000 < nx"
    and w: "nx mod minute = 0" by blast+
  obtain k where k: "nx = minute * k" using whole_minute [OF w] by (rule exE)
  have "s_next_run_at r < 60000 * k" using nx(2) by (simp add: k minute_def)
  moreover have "unix_milli nx = 60000 * k" unfolding unix_milli_def k minute_def by simp
  ultimately show ?thesis by (simp add: advanced_def p nx(1))
qed

lemma advanced_id [simp]: "s_id (advanced loc r) = s_id r"
  by (simp add: advanced_def split: option.split sum.split)

lemma advance_row:
  assumes "distinct (map s_id rows)" and "d \<in> set rows" and "d \<notin> done" and "valid_cron (s_cron_expr d)"
  shows "map (\<lambda>r. if s_id r = s_id d then r\<lparr>s_last_run_at := Some (s_next_run_at d),
        s_next_run_at := s_next_run_at (advanced loc d)\<rparr> else r)
      (map (\<lambda>r. if r \<in> done then advanced loc r else r) rows) =
    map (\<lambda>r. if r \<in> insert d done then advanced loc r else r) rows"
  unfolding map_map
proof (intro map_cong refl)
  fix r assume r: "r \<in> set rows"
  have same: "s_id r = s_id d \<longleftrightarrow> r = d"
    using assms(1,2) r by (auto simp: distinct_map inj_on_def)
  obtain sched where p: "parseCron (s_cron_expr d) = Some (Inr sched)"
    using assms(4) by (auto simp: valid_cron_def split: option.splits sum.splits)
  have eq: "d\<lparr>s_last_run_at := Some (s_next_run_at d), s_next_run_at := s_next_run_at (advanced loc d)\<rparr> =
      advanced loc d"
    unfolding advanced_def p option.case sum.case by simp
  show "((\<lambda>r. if s_id r = s_id d then r\<lparr>s_last_run_at := Some (s_next_run_at d),
      s_next_run_at := s_next_run_at (advanced loc d)\<rparr> else r) \<circ>
      (\<lambda>r. if r \<in> done then advanced loc r else r)) r = (if r \<in> insert d done then advanced loc r else r)"
    using same assms(3) eq by (cases "r = d") simp_all
qed

lemma fire_all_calm:
  assumes "\<And>d. d \<in> set ds \<Longrightarrow> calm_fire (envs d) \<and> valid_cron (s_cron_expr d)"
    and "rows_ok (d_jobs db)" and "distinct (map (\<lambda>d. fe_id (envs d)) ds)"
    and "\<And>d. d \<in> set ds \<Longrightarrow> fe_id (envs d) \<notin> r_id ` set (d_jobs db)"
    and "d_schedule db = map (\<lambda>r. if r \<in> done then advanced (fixed off) r else r) rows"
    and "distinct (map s_id rows)" and "set ds \<subseteq> set rows" and "distinct ds" and "set ds \<inter> done = {}"
  shows "fire_all (fixed off) m ds envs db = Some (db\<lparr>d_jobs := d_jobs db @ map (\<lambda>d. scheduled_row (fe_id (envs d)) m d) ds,
      d_schedule := map (\<lambda>r. if r \<in> done \<union> set ds then advanced (fixed off) r else r) rows\<rparr>)"
  using assms
proof (induction ds arbitrary: db "done")
  case (Cons d ds)
  let ?j = "scheduled_row (fe_id (envs d)) m d"
  let ?db = "db\<lparr>d_jobs := d_jobs db @ [?j], d_schedule := map (\<lambda>r. if r \<in> insert d done then advanced (fixed off) r else r) rows\<rparr>"
  have d: "d \<in> set rows" "d \<notin> done" "calm_fire (envs d)" "valid_cron (s_cron_expr d)" using Cons.prems by simp_all
  have one: "map (\<lambda>r. if s_id r = s_id d then r\<lparr>s_last_run_at := Some (s_next_run_at d),
        s_next_run_at := s_next_run_at (advanced (fixed off) d)\<rparr> else r) (d_schedule db) =
      map (\<lambda>r. if r \<in> insert d done then advanced (fixed off) r else r) rows"
    unfolding Cons.prems(5) by (rule advance_row [OF Cons.prems(6) d(1,2,4)])
  have fr: "fe_id (envs d) \<notin> r_id ` set (d_jobs db)" using Cons.prems(4) by simp
  have F: "fire (fixed off) m d (envs d) db = Some ?db"
    using fire_calm [OF d(3,4) Cons.prems(2) fr, of off m] unfolding one .
  have jid: "r_id ?j = fe_id (envs d)" by (simp add: scheduled_row_def)
  have "r_unique_key ?j = None" by (simp add: scheduled_row_def)
  then have ro: "rows_ok (d_jobs db @ [?j])"
    using rows_ok_append [OF Cons.prems(2)] fr jid by (simp only: not_False_eq_True)
  have "fire_all (fixed off) m ds envs ?db = Some (?db\<lparr>d_jobs := d_jobs ?db @ map (\<lambda>d. scheduled_row (fe_id (envs d)) m d) ds,
      d_schedule := map (\<lambda>r. if r \<in> insert d done \<union> set ds then advanced (fixed off) r else r) rows\<rparr>)"
  proof (rule Cons.IH)
    show "rows_ok (d_jobs ?db)" using ro by simp
    show "fe_id (envs e) \<notin> r_id ` set (d_jobs ?db)" if "e \<in> set ds" for e
    proof -
      have "fe_id (envs e) \<noteq> fe_id (envs d)" using Cons.prems(3) that by (auto simp: image_iff)
      then show ?thesis using Cons.prems(4) [of e] that jid by simp
    qed
    show "set ds \<inter> insert d done = {}" using Cons.prems(8,9) by auto
  qed (use Cons.prems in simp_all)
  then show ?case using F by simp
qed simp

text \<open>C28. One tick of the scheduler in a zone of fixed offset, undisturbed, with no faults, valid
  expressions and fresh ids in the due rows: every due row, and no other, adds exactly one job, due at the time the row was due, and moves its next run strictly
  forward; the other rows are unchanged.\<close>

theorem scheduler_tick:
  assumes "rows_ok (d_jobs db)" and "distinct (map s_id (d_schedule db))"
    and "filter (due (unix_milli now)) (d_schedule db) = dues"
    and "list_all (\<lambda>d. calm_fire (envs d) \<and> valid_cron (s_cron_expr d) \<and> fe_id (envs d) \<notin> r_id ` set (d_jobs db)) dues"
    and "distinct (map (\<lambda>d. fe_id (envs d)) dues)"
  shows "schedulerOnce (fixed off) None now envs m db = Some (db\<lparr>
      d_jobs := d_jobs db @ map (\<lambda>d. scheduled_row (fe_id (envs d)) m d) dues,
      d_schedule := map (\<lambda>r. if due (unix_milli now) r then advanced (fixed off) r else r) (d_schedule db)\<rparr>) \<and>
    list_all (\<lambda>d. s_next_run_at d < s_next_run_at (advanced (fixed off) d)) dues"
proof -
  have "set dues \<subseteq> set (d_schedule db)" "distinct dues" "set dues = {r \<in> set (d_schedule db). due (unix_milli now) r}"
    using assms(2,3) by (auto simp: distinct_map)
  then have "fire_all (fixed off) m dues envs db = Some (db\<lparr>
      d_jobs := d_jobs db @ map (\<lambda>d. scheduled_row (fe_id (envs d)) m d) dues,
      d_schedule := map (\<lambda>r. if r \<in> {} \<union> set dues then advanced (fixed off) r else r) (d_schedule db)\<rparr>)"
    using assms by (intro fire_all_calm) (auto simp: list_all_iff)
  moreover have "map (\<lambda>r. if r \<in> {} \<union> set dues then advanced (fixed off) r else r) (d_schedule db) =
      map (\<lambda>r. if due (unix_milli now) r then advanced (fixed off) r else r) (d_schedule db)"
    using \<open>set dues = _\<close> by (intro map_cong) auto
  ultimately show ?thesis
    using assms(3,4) advanced_later by (simp add: schedulerOnce_def list_all_iff)
qed

definition fire_ex :: "string \<Rightarrow> fire_env" where
  "fire_ex jid = \<lparr>fe_id = jid, fe_before_insert = (\<lambda>db. db), fe_insert_fault = None,
     fe_before_advance = (\<lambda>db. db), fe_advance_fault = None\<rparr>"

definition sched_ex :: "string \<Rightarrow> int \<Rightarrow> schedule_row" where
  "sched_ex expr next = \<lparr>s_id = ''S1'', s_job_type = ''mail'', s_cron_expr = expr, s_payload = ''{}'',
     s_next_run_at = next, s_last_run_at = None, s_enabled = True\<rparr>"

lemma scheduler_calm_ex: "calm_fire (fire_ex jid)"
  by (simp add: calm_fire_def fire_ex_def)

theorem scheduler_tick_witness:
  "\<exists>db. schedulerOnce (fixed 60) None 1710061200000000000 (\<lambda>d. fire_ex ''J1'') (man_ex (Returned None))
     ((db_ex [])\<lparr>d_schedule := [sched_ex ''0 3 * * *'' 1710000000000]\<rparr>) = Some db \<and>
     map r_run_at (d_jobs db) = [1710000000000]"
proof -
  let ?db = "(db_ex [])\<lparr>d_schedule := [sched_ex ''0 3 * * *'' 1710000000000]\<rparr>"
  have "filter (due (unix_milli 1710061200000000000)) (d_schedule ?db) = [sched_ex ''0 3 * * *'' 1710000000000]"
    by (simp add: due_def sched_ex_def unix_milli_def)
  from scheduler_tick [OF _ _ this, of "\<lambda>d. fire_ex ''J1''" 60 "man_ex (Returned None)"]
  show ?thesis
    using scheduler_calm_ex parse_daily_at_3
    by (simp add: db_ex_def rows_ok_def id_ok_def keys_ok_def sched_ex_def fire_ex_def valid_cron_def scheduled_row_def)
qed

definition every_minute :: cronSchedule where
  "every_minute = \<lparr>cs_minute = 0xFFFFFFFFFFFFFFF, cs_hour = 0xFFFFFF, cs_dom = 0xFFFFFFFE, cs_month = 0x1FFE,
     cs_dow = 0x7F, cs_domStarred = True, cs_dowStarred = True\<rparr>"

lemma parse_every_minute: "parseCron ''* * * * *'' = Some (Inr every_minute)"
proof -
  have "Go_Text.fields ''* * * * *'' = [''*'', ''*'', ''*'', ''*'', ''*'']" by code_simp
  moreover have "parseField ''*'' 0 59 = Some (Inr 0xFFFFFFFFFFFFFFF)"
    by (simp add: parseField_def parseRange_def parse_step_def parse_bounds_def atoi_def parse_int_def
      parse_uint_def digit_val_def char_code_def fill_mask.simps wrap64_def bit_at_def)
  moreover have  "parseField ''*'' 0 23 = Some (Inr 0xFFFFFF)"
    "parseField ''*'' 1 31 = Some (Inr 0xFFFFFFFE)" "parseField ''*'' 1 12 = Some (Inr 0x1FFE)"
    "parseField ''*'' 0 6 = Some (Inr 0x7F)"
    by (simp_all add: parseField_def parseRange_def parse_step_def parse_bounds_def atoi_def parse_int_def
      parse_uint_def digit_val_def char_code_def fill_mask.simps wrap64_def bit_at_def)
  ultimately show ?thesis by (simp add: parseCron_def with_field_def every_minute_def)
qed
lemma next_every_minute:
  "cron_Next (fixed 0) every_minute (1710000000000 * 1000000) = Some (1710000060000 * 1000000)"
proof -
  have "trunc_minute (1710000000000 * 1000000 + minute) = 1710000060000 * 1000000"
    "t_Date (fixed 0) (1710000060000 * 1000000) = (2024, 3, 9)"
    "has_bit (cs_month every_minute) 3" "dayMatches (fixed 0) every_minute (1710000060000 * 1000000)"
    "has_bit (cs_hour every_minute) (t_Hour (fixed 0) (1710000060000 * 1000000))"
    "has_bit (cs_minute every_minute) (t_Minute (fixed 0) (1710000060000 * 1000000))"
    by code_simp+
  then show ?thesis
    unfolding cron_Next_def Let_def by (subst next_loop.simps) (simp add: minute_def)
qed

lemma next_every_minute2:
  "cron_Next (fixed 0) every_minute (1710000060000 * 1000000) = Some (1710000120000 * 1000000)"
proof -
  have "trunc_minute (1710000060000 * 1000000 + minute) = 1710000120000 * 1000000"
    "t_Date (fixed 0) (1710000120000 * 1000000) = (2024, 3, 9)"
    "has_bit (cs_month every_minute) 3" "dayMatches (fixed 0) every_minute (1710000120000 * 1000000)"
    "has_bit (cs_hour every_minute) (t_Hour (fixed 0) (1710000120000 * 1000000))"
    "has_bit (cs_minute every_minute) (t_Minute (fixed 0) (1710000120000 * 1000000))"
    by code_simp+
  then show ?thesis
    unfolding cron_Next_def Let_def by (subst next_loop.simps) (simp add: minute_def)
qed

text \<open>The next run is searched from the run just fired, not from the clock, so a scheduler that
  was paused for an hour fires an every-minute schedule again at each tick until it has caught up:
  two ticks at the same instant add two jobs, and the row is still due.\<close>

lemma missed_ticks_fan_out:
  "let now = 1710003600000 * 1000000; m = man_ex (Returned None);
       db0 = (db_ex [])\<lparr>d_schedule := [sched_ex ''* * * * *'' 1710000000000]\<rparr>;
       db1 = the (schedulerOnce (fixed 0) None now (\<lambda>d. fire_ex ''J1'') m db0);
       db2 = the (schedulerOnce (fixed 0) None now (\<lambda>d. fire_ex ''J2'') m db1)
   in map r_run_at (d_jobs db2) = [1710000000000, 1710000060000] \<and> map (due (unix_milli now)) (d_schedule db2) = [True]"
  by (simp add: schedulerOnce_def due_def sched_ex_def unix_milli_def fire_def parse_every_minute exec_jobs_def
      insert_job_def scheduled_row_def db_ex_def fire_ex_def keys_ok_def live_def next_every_minute [simplified]
      next_every_minute2 [simplified] exec_fault_def advance_def Let_def)

subsection \<open>Configuration and start-up\<close>

lemma default_to_fields:
  "default_to cf_Workers cf_Workers_update v c = c\<lparr>cf_Workers := if cf_Workers c \<le> 0 then v else cf_Workers c\<rparr>"
  "default_to cf_PollInterval cf_PollInterval_update v c = c\<lparr>cf_PollInterval := if cf_PollInterval c \<le> 0 then v else cf_PollInterval c\<rparr>"
  "default_to cf_DefaultTimeout cf_DefaultTimeout_update v c = c\<lparr>cf_DefaultTimeout := if cf_DefaultTimeout c \<le> 0 then v else cf_DefaultTimeout c\<rparr>"
  "default_to cf_DefaultMaxAttempts cf_DefaultMaxAttempts_update v c = c\<lparr>cf_DefaultMaxAttempts := if cf_DefaultMaxAttempts c \<le> 0 then v else cf_DefaultMaxAttempts c\<rparr>"
  "default_to cf_SweepInterval cf_SweepInterval_update v c = c\<lparr>cf_SweepInterval := if cf_SweepInterval c \<le> 0 then v else cf_SweepInterval c\<rparr>"
  "default_to cf_ScheduleInterval cf_ScheduleInterval_update v c = c\<lparr>cf_ScheduleInterval := if cf_ScheduleInterval c \<le> 0 then v else cf_ScheduleInterval c\<rparr>"
  "default_to cf_ReapInterval cf_ReapInterval_update v c = c\<lparr>cf_ReapInterval := if cf_ReapInterval c \<le> 0 then v else cf_ReapInterval c\<rparr>"
  "default_to (\<lambda>c. bo_Base (cf_DefaultBackoff c)) (\<lambda>g. cf_DefaultBackoff_update (bo_Base_update g)) v c =
     c\<lparr>cf_DefaultBackoff := (cf_DefaultBackoff c)\<lparr>bo_Base := if bo_Base (cf_DefaultBackoff c) \<le> 0 then v else bo_Base (cf_DefaultBackoff c)\<rparr>\<rparr>"
  "default_to (\<lambda>c. bo_Max (cf_DefaultBackoff c)) (\<lambda>g. cf_DefaultBackoff_update (bo_Max_update g)) v c =
     c\<lparr>cf_DefaultBackoff := (cf_DefaultBackoff c)\<lparr>bo_Max := if bo_Max (cf_DefaultBackoff c) \<le> 0 then v else bo_Max (cf_DefaultBackoff c)\<rparr>\<rparr>"
  "(if cf_RetainTerminal c = 0 then c\<lparr>cf_RetainTerminal := v\<rparr> else c) =
     c\<lparr>cf_RetainTerminal := if cf_RetainTerminal c = 0 then v else cf_RetainTerminal c\<rparr>"
  by (simp_all add: default_to_def)

definition pos_or :: "int \<Rightarrow> int \<Rightarrow> int" where
  "pos_or v x = (if x \<le> 0 then v else x)"

lemma applyDefaults_eq: "applyDefaults c = \<lparr>cf_Workers = pos_or 4 (cf_Workers c),
    cf_PollInterval = pos_or 1000000000 (cf_PollInterval c), cf_DefaultTimeout = pos_or 300000000000 (cf_DefaultTimeout c),
    cf_DefaultMaxAttempts = pos_or 5 (cf_DefaultMaxAttempts c), cf_SweepInterval = pos_or 30000000000 (cf_SweepInterval c),
    cf_ScheduleInterval = pos_or 30000000000 (cf_ScheduleInterval c),
    cf_DefaultBackoff = \<lparr>bo_Base = pos_or 5000000000 (bo_Base (cf_DefaultBackoff c)),
      bo_Max = pos_or 3600000000000 (bo_Max (cf_DefaultBackoff c))\<rparr>,
    cf_RetainTerminal = (if cf_RetainTerminal c = 0 then 86400000000000 else cf_RetainTerminal c),
    cf_ReapInterval = pos_or 600000000000 (cf_ReapInterval c)\<rparr>"
proof (cases c)
  case (fields w p t a s sc b r re)
  obtain base mx where b: "b = \<lparr>bo_Base = base, bo_Max = mx\<rparr>" by (cases b)
  show ?thesis
    unfolding fields b applyDefaults_def Let_def default_to_fields pos_or_def [symmetric]
    by simp
qed

lemma pos_or: "0 < v \<Longrightarrow> 0 < pos_or v x" "x \<le> 0 \<or> pos_or v x = x" "0 < x \<Longrightarrow> pos_or v x = x"
  by (simp_all add: pos_or_def)

text \<open>C38. After \<open>applyDefaults\<close> the manager can run: there is a worker, every ticker interval and the
  bound of the workers' random start delay are positive (\<open>time.NewTicker\<close> and \<open>rand.Int63n\<close> panic
  otherwise), every attempt limit, timeout and delay is positive; every positive setting is kept, a
  negative retention too; and applying the defaults again changes nothing.\<close>

theorem applyDefaults_usable:
  "let d = applyDefaults c in
   0 < cf_Workers d \<and> 0 < cf_PollInterval d \<and> 0 < cf_SweepInterval d \<and> 0 < cf_ScheduleInterval d \<and>
   0 < cf_ReapInterval d \<and> 0 < cf_DefaultTimeout d \<and> 0 < cf_DefaultMaxAttempts d \<and>
   0 < bo_Base (cf_DefaultBackoff d) \<and> 0 < bo_Max (cf_DefaultBackoff d) \<and> cf_RetainTerminal d \<noteq> 0 \<and>
   (cf_RetainTerminal c = 0 \<or> cf_RetainTerminal d = cf_RetainTerminal c) \<and>
   (cf_Workers c \<le> 0 \<or> cf_Workers d = cf_Workers c) \<and>
   (cf_DefaultTimeout c \<le> 0 \<or> cf_DefaultTimeout d = cf_DefaultTimeout c) \<and>
   (cf_PollInterval c \<le> 0 \<or> cf_PollInterval d = cf_PollInterval c) \<and>
   (cf_SweepInterval c \<le> 0 \<or> cf_SweepInterval d = cf_SweepInterval c) \<and>
   (cf_ScheduleInterval c \<le> 0 \<or> cf_ScheduleInterval d = cf_ScheduleInterval c) \<and>
   (cf_ReapInterval c \<le> 0 \<or> cf_ReapInterval d = cf_ReapInterval c) \<and>
   (cf_DefaultMaxAttempts c \<le> 0 \<or> cf_DefaultMaxAttempts d = cf_DefaultMaxAttempts c) \<and>
   (bo_Base (cf_DefaultBackoff c) \<le> 0 \<or> bo_Base (cf_DefaultBackoff d) = bo_Base (cf_DefaultBackoff c)) \<and>
   (bo_Max (cf_DefaultBackoff c) \<le> 0 \<or> bo_Max (cf_DefaultBackoff d) = bo_Max (cf_DefaultBackoff c)) \<and>
   applyDefaults d = d"
  using pos_or(2) by (simp add: Let_def applyDefaults_eq pos_or(1,3))

lemma migrate_loop_step:
  "migrate_loop outcomes clock deadline k = (case migrate (outcomes k) of
     None \<Rightarrow> Some None
   | Some e \<Rightarrow> if deadline < clock k then Some (Some (Wrapped ''colmena/jobs: schema migration'' e))
               else migrate_loop outcomes clock deadline (k + 1))"
  by (rule migrate_loop.simps)

lemma migrate_loop_returns:
  assumes "\<And>k. clock k + 100000000 \<le> clock (k + 1)"
  shows "\<exists>r. migrate_loop outcomes clock deadline k = Some r"
proof (induction "nat (deadline + 1 - clock k)" arbitrary: k rule: less_induct)
  case less
  show ?case
  proof (cases "migrate (outcomes k)")
    case (Some e)
    show ?thesis
    proof (cases "deadline < clock k")
      case False
      then have "\<exists>r. migrate_loop outcomes clock deadline (k + 1) = Some r"
        using assms [of k] by (intro less.hyps) simp
      then show ?thesis using Some False by (simp add: migrate_loop_step [of _ _ _ k])
    qed (simp add: migrate_loop_step [of _ _ _ k] Some)
  qed (simp add: migrate_loop_step [of _ _ _ k])
qed

lemma migrate_loop_nil:
  assumes "migrate_loop outcomes clock deadline k = Some r" and "k \<le> n" and "migrate (outcomes n) = None"
    and "\<And>i. k \<le> i \<Longrightarrow> i < n \<Longrightarrow> clock i \<le> deadline"
  shows "r = None"
  using assms
proof (induction "n - k" arbitrary: k)
  case 0
  then show ?case by (simp add: migrate_loop_step [of _ _ _ k])
next
  case (Suc d)
  show ?case
  proof (cases "migrate (outcomes k)")
    case None
    then show ?thesis using Suc.prems(1) by (simp add: migrate_loop_step [of _ _ _ k])
  next
    case (Some e)
    then have "k \<noteq> n" using Suc.prems(3) by auto
    moreover have "\<not> deadline < clock k" using Suc.prems(2,4) calculation by (simp add: not_less)
    ultimately show ?thesis
      using Suc.prems Suc.hyps Some by (intro Suc.hyps(1) [of "k + 1"]) (simp_all add: migrate_loop_step [of _ _ _ k])
  qed
qed

text \<open>C39. The migration retries of \<open>New\<close> end when the clock moves by at least the 100 ms of each
  sleep, and the result is nil when some attempt that ends within 10 seconds of the start succeeds.\<close>

theorem waitMigrate_returns:
  assumes "\<And>k. clock k + 100000000 \<le> clock (k + 1)"
  shows "\<exists>r. waitMigrate outcomes clock start = Some r \<and>
    ((\<exists>n. migrate (outcomes n) = None \<and> clock n \<le> start + 10000000000) \<longrightarrow> r = None)"
proof -
  obtain r where r: "migrate_loop outcomes clock (start + 10000000000) 0 = Some r"
    using migrate_loop_returns [of clock outcomes] assms by blast
  have mono: "clock i \<le> clock n" if "i \<le> n" for i n
    using that
  proof (induction rule: dec_induct)
    case (step k)
    then show ?case using assms [of k] by simp
  qed simp
  have "r = None" if "migrate (outcomes n) = None" "clock n \<le> start + 10000000000" for n
    using migrate_loop_nil [OF r, of n] that mono by (meson le0 less_imp_le order_trans)
  then show ?thesis using r by (auto simp: waitMigrate_def)
qed

theorem waitMigrate_returns_witness:
  "waitMigrate (\<lambda>k. if k < 3 then [Some (ErrEnv ''no leader'')] else [None, None]) (\<lambda>k. int k * 150000000) 0 = Some None"
  using waitMigrate_returns [of "\<lambda>k. int k * 150000000" "\<lambda>k. if k < 3 then [Some (ErrEnv ''no leader'')] else [None, None]" 0]
  by (auto simp: migrate_def intro: exI [of _ 3])

end
