(* ===== verification/Jobs_Admin.thy ===== *)
theory Jobs_Admin
  imports Jobs_Manager Go_Text Go_Time
begin

text \<open>
  The read side of the queue (\<open>jobs/stats.go\<close>, \<open>jobs/admin.go\<close>): counters and queue depth, the
  job listing of the admin API, and the HTML dashboard with its escaping.
\<close>

fun status_text :: "Status \<Rightarrow> string" where
  "status_text StatusPending = ''pending''"
| "status_text StatusRunning = ''running''"
| "status_text StatusSucceeded = ''succeeded''"
| "status_text StatusFailed = ''failed''"
| "status_text StatusDead = ''dead''"

subsection \<open>Stats\<close>

text \<open>\<open>SELECT key, COUNT(*) ... GROUP BY key\<close>: one row per value that occurs.\<close>

definition group_count :: "(job_row \<Rightarrow> 'k) \<Rightarrow> job_row list \<Rightarrow> ('k \<times> nat) list" where
  "group_count key rows = map (\<lambda>k. (k, length (filter (\<lambda>r. key r = k) rows))) (remdups (map key rows))"

record Stats =
  st_Executed :: "64 word"
  st_Succeeded :: "64 word"
  st_Failed :: "64 word"
  st_Retried :: "64 word"
  st_Dead :: "64 word"
  st_Reaped :: "64 word"
  st_ByStatus :: "Status \<rightharpoonup> nat"
  st_PendingByType :: "string \<rightharpoonup> nat"

text \<open>The two queries can fail, and other connections can write between them.\<close>

definition get_Stats ::
  "error option \<Rightarrow> error option \<Rightarrow> (jobs_db \<Rightarrow> jobs_db) \<Rightarrow> Manager \<Rightarrow> jobs_db \<Rightarrow> Stats result" where
  "get_Stats fault1 fault2 between m db =
     (case fault1 of
        Some err \<Rightarrow> Inl err
      | None \<Rightarrow>
          (let byStatus = map_of (group_count r_status (d_jobs db)) in
           case fault2 of
             Some err \<Rightarrow> Inl err
           | None \<Rightarrow>
               Inr \<lparr>st_Executed = m_executed m, st_Succeeded = m_succeeded m, st_Failed = m_failed m,
                 st_Retried = m_retried m, st_Dead = m_dead m, st_Reaped = m_reaped m,
                 st_ByStatus = byStatus,
                 st_PendingByType = map_of (group_count r_type
                   (filter (\<lambda>r. r_status r = StatusPending) (d_jobs (between db))))\<rparr>))"

subsection \<open>The listing\<close>

record adminJob =
  a_ID :: string
  a_Type :: string
  a_Status :: string
  a_Priority :: int
  a_Attempts :: int
  a_MaxAttempts :: int
  a_EnqueuedAt :: int
  a_RunAt :: int
  a_ClaimedBy :: string
  a_LastError :: string

definition coalesce :: "string option \<Rightarrow> string" where
  "coalesce x = (case x of None \<Rightarrow> [] | Some s \<Rightarrow> s)"

definition admin_job :: "job_row \<Rightarrow> adminJob" where
  "admin_job r = \<lparr>a_ID = r_id r, a_Type = r_type r, a_Status = status_text (r_status r),
     a_Priority = r_priority r, a_Attempts = r_attempts r, a_MaxAttempts = r_max_attempts r,
     a_EnqueuedAt = r_enqueued_at r, a_RunAt = r_run_at r, a_ClaimedBy = coalesce (r_claimed_by r),
     a_LastError = coalesce (r_last_error r)\<rparr>"

definition newer :: "job_row \<Rightarrow> job_row \<Rightarrow> bool" where
  "newer a b \<longleftrightarrow> r_enqueued_at b < r_enqueued_at a"

interpretation listing: keyed_lt newer "\<lambda>r. - r_enqueued_at r"
  by unfold_locales (simp add: newer_def)

definition listJobs :: "error option \<Rightarrow> string \<Rightarrow> nat \<Rightarrow> jobs_db \<Rightarrow> adminJob list result" where
  "listJobs fault status limit db =
     (case fault of
        Some err \<Rightarrow> Inl err
      | None \<Rightarrow>
          (let rows = (if status \<noteq> [] then filter (\<lambda>r. status_text (r_status r) = status) (d_jobs db) else d_jobs db)
           in Inr (map admin_job (take limit (go_sort newer rows)))))"

subsection \<open>The dashboard\<close>

text \<open>\<open>html.EscapeString\<close>.\<close>

definition esc_char :: "char \<Rightarrow> string" where
  "esc_char c =
     (if c = CHR ''&'' then ''&amp;''
      else if c = CHR 0x27 then ''&#39;''
      else if c = CHR ''<'' then ''&lt;''
      else if c = CHR ''>'' then ''&gt;''
      else if c = CHR 0x22 then ''&#34;''
      else [c])"

definition EscapeString :: "string \<Rightarrow> string" where
  "EscapeString s = concat (map esc_char s)"

text \<open>\<open>time.UnixMilli(ms).Format(time.RFC3339)\<close> in a location.\<close>

definition rfc3339 :: "location \<Rightarrow> int \<Rightarrow> string" where
  "rfc3339 loc ms =
     (let t = ms * 1000000; (y, m, d) = t_Date loc t; w = wall_secs loc t; off = loc (t div second) div 60
      in pad_num 4 y @ ''-'' @ pad_num 2 m @ ''-'' @ pad_num 2 d @ ''T'' @ pad_num 2 (t_Hour loc t) @ '':'' @
         pad_num 2 (t_Minute loc t) @ '':'' @ pad_num 2 (w mod 60) @
         (if loc (t div second) = 0 then ''Z''
          else (if off < 0 then ''-'' else ''+'') @ pad_num 2 (\<bar>off\<bar> div 60) @ '':'' @ pad_num 2 (\<bar>off\<bar> mod 60)))"

definition quot :: string where "quot = [CHR 0x22]"
definition newline :: string where "newline = [CHR 0x0A]"

text \<open>One row of the table of recent jobs.\<close>

definition render_row :: "location \<Rightarrow> adminJob \<Rightarrow> string" where
  "render_row loc j =
     ''<tr><td><code>'' @ EscapeString (a_ID j) @ ''</code></td><td>'' @ EscapeString (a_Type j) @
     ''</td><td><span class='' @ quot @ ''pill s-'' @ EscapeString (a_Status j) @ quot @ ''>'' @
     EscapeString (a_Status j) @ ''</span></td><td>'' @ fmt_d (a_Attempts j) @ ''/'' @ fmt_d (a_MaxAttempts j) @
     ''</td><td>'' @ rfc3339 loc (a_EnqueuedAt j) @ ''</td><td class='' @ quot @ ''err'' @ quot @ ''>'' @
     EscapeString (a_LastError j) @ ''</td></tr>''"

definition status_row :: "(Status \<rightharpoonup> nat) \<Rightarrow> Status \<Rightarrow> string" where
  "status_row byStatus st =
     ''<tr><td><span class='' @ quot @ ''pill s-'' @ status_text st @ quot @ ''>'' @ status_text st @
     ''</span></td><td>'' @ fmt_d (case byStatus st of None \<Rightarrow> 0 | Some n \<Rightarrow> int n) @ ''</td></tr>''"

text \<open>The constant text of the page up to the body.\<close>

definition page_head :: string where
  "page_head =
     ''<!doctype html><html><head><meta charset='' @ quot @ ''utf-8'' @ quot @
     ''><title>colmena jobs</title><style>'' @ newline @
     ''        body{font:14px/1.4 -apple-system,BlinkMacSystemFont,sans-serif;margin:2e'' @
     ''m;color:#222}'' @ newline @ ''        h1,h2{font-weight:600}'' @ newline @
     ''        table{border-collapse:collapse;width:100%;margin-top:1em}'' @ newline @
     ''        th,td{text-align:left;padding:6px 10px;border-bottom:1px solid #eee}'' @ newline @
     ''        th{background:#f5f5f5}'' @ newline @
     ''        td.err{color:#a00;max-width:30em;overflow:hidden;text-overflow:ellipsis;'' @
     ''white-space:nowrap}'' @ newline @
     ''        .pill{padding:2px 6px;border-radius:6px;font-size:12px}'' @ newline @
     ''        .s-pending{background:#eef}'' @ newline @
     ''        .s-running{background:#ffe;color:#660}'' @ newline @
     ''        .s-succeeded{background:#efe;color:#060}'' @ newline @
     ''        .s-failed{background:#fee;color:#900}'' @ newline @
     ''        .s-dead{background:#222;color:#fff}'' @ newline @ ''    </style></head><body>''"

definition renderDashboard :: "location \<Rightarrow> Stats \<Rightarrow> adminJob list \<Rightarrow> string" where
  "renderDashboard loc s recent =
     page_head @ ''<h1>colmena jobs</h1>'' @
     ''<p>executed='' @ fmt_d (uint (st_Executed s)) @ '' succeeded='' @ fmt_d (uint (st_Succeeded s)) @
     '' failed='' @ fmt_d (uint (st_Failed s)) @ '' retried='' @ fmt_d (uint (st_Retried s)) @
     '' dead='' @ fmt_d (uint (st_Dead s)) @ ''</p>'' @
     ''<h2>Queue depth</h2><table><tr><th>status</th><th>count</th></tr>'' @
     concat (map (status_row (st_ByStatus s))
       [StatusPending, StatusRunning, StatusSucceeded, StatusFailed, StatusDead]) @ ''</table>'' @
     ''<h2>Recent jobs</h2><table>'' @
     ''<tr><th>id</th><th>type</th><th>status</th><th>attempts</th><th>enqueued</th><th>last error</th></tr>'' @
     concat (map (render_row loc) recent) @ ''</table></body></html>''"

subsection \<open>Routes\<close>

text \<open>What the handler answers: status 500 with a text, a value encoded as JSON, or the page.\<close>

datatype response =
    Status500 error
  | JsonStats Stats
  | JsonJobs "adminJob list"
  | Html string

record admin_env =
  ad_fault1 :: "error option"
  ad_fault2 :: "error option"
  ad_fault3 :: "error option"
  ad_between :: "jobs_db \<Rightarrow> jobs_db"

text \<open>\<open>AdminHandler\<close> on the path below its prefix and the value of the query parameter
  \<open>status\<close>. A failed listing leaves the dashboard's table of recent jobs empty.\<close>

definition AdminHandler :: "location \<Rightarrow> admin_env \<Rightarrow> Manager \<Rightarrow> string \<Rightarrow> string \<Rightarrow> jobs_db \<Rightarrow> response" where
  "AdminHandler loc env m path status db =
     (if path = ''/stats.json'' then
        (case get_Stats (ad_fault1 env) (ad_fault2 env) (ad_between env) m db of
           Inl err \<Rightarrow> Status500 err | Inr s \<Rightarrow> JsonStats s)
      else if path = ''/jobs.json'' then
        (case listJobs (ad_fault1 env) status 200 db of
           Inl err \<Rightarrow> Status500 err | Inr jobs \<Rightarrow> JsonJobs jobs)
      else
        (case get_Stats (ad_fault1 env) (ad_fault2 env) (ad_between env) m db of
           Inl err \<Rightarrow> Status500 err
         | Inr s \<Rightarrow>
             Html (renderDashboard loc s
               (case listJobs (ad_fault3 env) [] 50 (ad_between env db) of Inl _ \<Rightarrow> [] | Inr recent \<Rightarrow> recent))))"

end
