(* ===== verification/Jobs_Views.thy ===== *)
theory Jobs_Views
  imports Jobs_Admin Jobs_Invariant
begin

text \<open>
  What the read side shows: counts that add up to the table, listings that are newest first, and a
  page whose markup no job can change.
\<close>

subsection \<open>Counts\<close>

lemma group_count_value:
  "map_of (group_count key rows) k = (let n = length (filter (\<lambda>r. key r = k) rows) in if n = 0 then None else Some n)"
proof -
  let ?c = "\<lambda>k. length (filter (\<lambda>r. key r = k) rows)"
  have "map_of (map (\<lambda>k. (k, ?c k)) ks) k = (if k \<in> set ks then Some (?c k) else None)" for ks
    by (induction ks) auto
  moreover have "k \<in> set (remdups (map key rows)) \<longleftrightarrow> ?c k \<noteq> 0" by (auto simp: filter_empty_conv)
  ultimately show ?thesis by (simp add: group_count_def Let_def)
qed

definition status_count :: "(Status \<rightharpoonup> nat) \<Rightarrow> Status \<Rightarrow> nat" where
  "status_count m st = (case m st of None \<Rightarrow> 0 | Some n \<Rightarrow> n)"

lemma status_count_group: "status_count (map_of (group_count r_status rows)) st = length (filter (\<lambda>r. r_status r = st) rows)"
  by (simp add: status_count_def group_count_value Let_def)

text \<open>The queue depth adds up: when \<open>Stats\<close> succeeds, its counts by status are those of the
  rows the first query read, together the number of jobs in the table, and its pending counts by
  type are those of the rows the second query read.\<close>

lemma stats_add_up:
  assumes "get_Stats f1 f2 between m db = Inr s"
  shows "sum_list (map (status_count (st_ByStatus s)) [StatusPending, StatusRunning, StatusSucceeded, StatusFailed, StatusDead])
      = length (d_jobs db) \<and>
    st_PendingByType s t = (let n = length (filter (\<lambda>r. r_status r = StatusPending \<and> r_type r = t) (d_jobs (between db)))
      in if n = 0 then None else Some n)"
proof -
  have s: "st_ByStatus s = map_of (group_count r_status (d_jobs db))"
    "st_PendingByType s = map_of (group_count r_type (filter (\<lambda>r. r_status r = StatusPending) (d_jobs (between db))))"
    using assms by (auto simp: get_Stats_def Let_def split: option.splits)
  have "sum_list (map (\<lambda>st. length (filter (\<lambda>r. r_status r = st) rows))
      [StatusPending, StatusRunning, StatusSucceeded, StatusFailed, StatusDead]) = length rows" for rows :: "job_row list"
  proof (induction rows)
    case (Cons r rows)
    then show ?case by (cases "r_status r") simp_all
  qed simp
  then show ?thesis by (simp add: s status_count_group group_count_value Let_def)
qed

lemma stats_add_up_witness:
  "\<exists>s. get_Stats None None (\<lambda>db. db) (man_ex (Returned None)) (db_ex [row_ex ''J1'' ''mail'', row_ex ''J2'' ''mail'']) = Inr s \<and>
     st_PendingByType s ''mail'' = Some 2"
proof -
  let ?db = "db_ex [row_ex ''J1'' ''mail'', row_ex ''J2'' ''mail'']"
  obtain s where s: "get_Stats None None (\<lambda>db. db) (man_ex (Returned None)) ?db = Inr s" by (simp add: get_Stats_def)
  from stats_add_up [OF this, of "''mail''"] s show ?thesis by (simp add: db_ex_def row_ex_def)
qed

subsection \<open>Listings\<close>

text \<open>The job listing is newest first, at most \<open>limit\<close> long, holds only jobs of the table with the
  asked status, and leaves out none that is newer than one it shows.\<close>

lemma listJobs_newest:
  assumes "listJobs None status limit db = Inr out"
  shows "\<exists>shown rest. out = map admin_job shown \<and> length shown \<le> limit \<and>
    mset (shown @ rest) = mset (filter (\<lambda>r. status = [] \<or> status_text (r_status r) = status) (d_jobs db)) \<and>
    sorted (map (\<lambda>r. - r_enqueued_at r) (shown @ rest)) \<and> (rest = [] \<or> length shown = limit)"
proof -
  let ?rows = "filter (\<lambda>r. status = [] \<or> status_text (r_status r) = status) (d_jobs db)"
  have out: "out = map admin_job (take limit (go_sort newer ?rows))"
    using assms by (cases "status = []") (simp_all add: listJobs_def)
  have "mset (take limit (go_sort newer ?rows) @ drop limit (go_sort newer ?rows)) = mset ?rows"
    "sorted (map (\<lambda>r. - r_enqueued_at r) (take limit (go_sort newer ?rows) @ drop limit (go_sort newer ?rows)))"
    unfolding append_take_drop_id by (rule mset_go_sort, rule listing.sorted_go_sort)
  then show ?thesis
    using out by (intro exI [of _ "take limit (go_sort newer ?rows)"] exI [of _ "drop limit (go_sort newer ?rows)"])
      (auto simp: min_def)
qed

lemma listJobs_example:
  "\<exists>out. listJobs None ''pending'' 1 (db_ex [row_ex ''J1'' ''mail'', row_ex ''J2'' ''mail''\<lparr>r_enqueued_at := 2000\<rparr>]) = Inr out \<and>
     length out \<le> 1"
proof -
  let ?db = "db_ex [row_ex ''J1'' ''mail'', row_ex ''J2'' ''mail''\<lparr>r_enqueued_at := 2000\<rparr>]"
  obtain out where "listJobs None ''pending'' 1 ?db = Inr out" by (simp add: listJobs_def)
  with listJobs_newest [OF this] show ?thesis by auto
qed

subsection \<open>Escaping\<close>

definition markup :: "char list" where
  "markup = [CHR ''<'', CHR ''>'', CHR 0x22, CHR 0x27]"

lemma esc_char_no_markup: "c \<in> set markup \<Longrightarrow> c \<notin> set (esc_char d)"
  by (auto simp: markup_def esc_char_def)

lemma escape_no_markup: "c \<in> set markup \<Longrightarrow> c \<notin> set (EscapeString s)"
  using esc_char_no_markup by (auto simp: EscapeString_def)

lemma digit_not_markup: "d < 10 \<Longrightarrow> hexd d \<notin> set markup"
proof -
  assume d: "d < 10"
  have "char_code c \<noteq> 48 + d" if "c \<in> set markup" for c
    using that d by (auto simp: char_code_def markup_def)
  moreover have "char_code (hexd d) = 48 + d" using char_code_hexd [of d] d by simp
  ultimately show ?thesis by blast
qed

lemma digits_no_markup: "c \<in> set markup \<Longrightarrow> c \<notin> set (digits_of 10 n)"
proof (induction n rule: less_induct)
  case (less n)
  show ?case
  proof (cases "n < 10")
    case True
    then show ?thesis using digit_not_markup [of n] less.prems by (auto simp: digits_of.simps [of 10 n])
  next
    case False
    then show ?thesis
      using digit_not_markup [of "n mod 10"] less.prems less.IH [of "n div 10"] by (auto simp: digits_of.simps [of 10 n])
  qed
qed

lemma zero_not_markup: "CHR ''0'' \<notin> set markup" "CHR ''-'' \<notin> set markup"
  by (simp_all add: markup_def)

lemma fmt_d_no_markup: "c \<in> set markup \<Longrightarrow> c \<notin> set (fmt_d x)"
  using digits_no_markup zero_not_markup by (auto simp: fmt_d_def)

lemma pad_num_no_markup: "c \<in> set markup \<Longrightarrow> c \<notin> set (pad_num w x)"
  using digits_no_markup zero_not_markup by (auto simp: pad_num_def pad0_def)

lemma rfc3339_no_markup: "c \<in> set markup \<Longrightarrow> c \<notin> set (rfc3339 loc ms)"
  using pad_num_no_markup by (auto simp: rfc3339_def Let_def markup_def split: prod.splits)

lemma count_notin_markup: "c \<notin> set s \<Longrightarrow> filter (\<lambda>x. x = c) s = []"
  by (auto simp: filter_empty_conv)

text \<open>C40. The dashboard cannot be injected into: the markup characters of a row of the job table, in
  their order, are the same whatever the job's id, type, status text and error hold.\<close>

theorem dashboard_row_markup:
  "filter (\<lambda>c. c \<in> set markup) (render_row loc j) = filter (\<lambda>c. c \<in> set markup) (render_row loc' j')"
proof -
  have none: "filter (\<lambda>c. c \<in> set markup) s = []" if "\<And>c. c \<in> set markup \<Longrightarrow> c \<notin> set s" for s
    using that by (auto simp: filter_empty_conv)
  have E: "filter (\<lambda>c. c \<in> set markup) (EscapeString s) = []"
    "filter (\<lambda>c. c \<in> set markup) (fmt_d x) = []"
    "filter (\<lambda>c. c \<in> set markup) (rfc3339 l ms) = []" for s x l ms
    using escape_no_markup fmt_d_no_markup rfc3339_no_markup by (auto intro: none)
  show ?thesis unfolding render_row_def filter_append E ..
qed

text \<open>Unescaping: the five entities back to their characters.\<close>

fun unescape :: "string \<Rightarrow> string" where
  "unescape [] = []"
| "unescape (c # cs) =
     (if take 5 (c # cs) = ''&amp;'' then CHR ''&'' # unescape (drop 4 cs)
      else if take 5 (c # cs) = ''&#39;'' then CHR 0x27 # unescape (drop 4 cs)
      else if take 4 (c # cs) = ''&lt;'' then CHR ''<'' # unescape (drop 3 cs)
      else if take 4 (c # cs) = ''&gt;'' then CHR ''>'' # unescape (drop 3 cs)
      else if take 5 (c # cs) = ''&#34;'' then CHR 0x22 # unescape (drop 4 cs)
      else c # unescape cs)"

text \<open>Escaping loses nothing: what a reader sees, the entities decoded, is the text of the job.\<close>

theorem escape_roundtrip: "unescape (EscapeString s) = s"
proof (induction s)
  case (Cons c s)
  show ?case
    using Cons by (simp add: EscapeString_def esc_char_def)
qed (simp add: EscapeString_def)

end
