(* ===== verification/Jobs_Metrics.thy ===== *)
theory Jobs_Metrics
  imports Jobs_Admin Go_Fmt
begin

text \<open>
  The metrics page (\<open>jobs/metrics.go\<close>) in the text format of Prometheus. The two maps of the
  statistics are written in an order of the runtime's choice, which is an argument.
\<close>

definition writeCounter :: "string \<Rightarrow> string \<Rightarrow> 64 word \<Rightarrow> string" where
  "writeCounter name help v =
     ''# HELP '' @ name @ '' '' @ help @ newline @ ''# TYPE '' @ name @ '' counter'' @ newline @
     name @ '' '' @ fmt_d (uint v) @ newline"

definition gauge_line :: "string \<Rightarrow> string \<Rightarrow> string \<Rightarrow> nat \<Rightarrow> string" where
  "gauge_line name lbl v num =
     name @ ''{'' @ lbl @ ''='' @ go_quote v @ ''} '' @ fmt_d (int num) @ newline"

definition gauge_lines :: "string \<Rightarrow> string \<Rightarrow> ('k \<Rightarrow> string) \<Rightarrow> 'k list \<Rightarrow> ('k \<rightharpoonup> nat) \<Rightarrow> string" where
  "gauge_lines name lbl txt order m =
     concat (List.map_filter (\<lambda>k. map_option (gauge_line name lbl (txt k)) (m k)) order)"

definition metrics_text :: "Status list \<Rightarrow> string list \<Rightarrow> Stats \<Rightarrow> string" where
  "metrics_text statuses jobTypes s =
     writeCounter ''colmena_jobs_executed_total'' ''Jobs handlers invoked on this node since start'' (st_Executed s) @
     writeCounter ''colmena_jobs_succeeded_total'' ''Job runs that returned nil error'' (st_Succeeded s) @
     writeCounter ''colmena_jobs_failed_total'' ''Job runs that returned a non-nil error'' (st_Failed s) @
     writeCounter ''colmena_jobs_retried_total'' ''Job runs that were rescheduled for retry'' (st_Retried s) @
     writeCounter ''colmena_jobs_dead_total'' ''Jobs that reached max_attempts and were marked dead'' (st_Dead s) @
     writeCounter ''colmena_jobs_reaped_total'' ''Terminal jobs deleted by the retention reaper on this node'' (st_Reaped s) @
     ''# HELP colmena_jobs_queue Cluster-wide job count by status'' @ newline @
     ''# TYPE colmena_jobs_queue gauge'' @ newline @
     gauge_lines ''colmena_jobs_queue'' ''status'' status_text statuses (st_ByStatus s) @
     ''# HELP colmena_jobs_pending_by_type Pending jobs per type'' @ newline @
     ''# TYPE colmena_jobs_pending_by_type gauge'' @ newline @
     gauge_lines ''colmena_jobs_pending_by_type'' ''type'' (\<lambda>t. t) jobTypes (st_PendingByType s)"

text \<open>The page, or the error that becomes a status 500.\<close>

definition MetricsHandler ::
  "Status list \<Rightarrow> string list \<Rightarrow> admin_env \<Rightarrow> Manager \<Rightarrow> jobs_db \<Rightarrow> string result" where
  "MetricsHandler statuses jobTypes env m db =
     (case get_Stats (ad_fault1 env) (ad_fault2 env) (ad_between env) m db of
        Inl err \<Rightarrow> Inl err
      | Inr s \<Rightarrow> Inr (metrics_text statuses jobTypes s))"

subsection \<open>One sample per line\<close>

lemma hexd_line:
  assumes "n < 16"
  shows "hexd n \<noteq> CHR 0x0A" "CHR 0x0A \<noteq> hexd n"
proof -
  have "char_code (CHR 0x0A) = 10" by (simp add: char_code_def)
  moreover have "char_code (hexd n) \<noteq> 10" using char_code_hexd [OF assms] by simp
  ultimately show "hexd n \<noteq> CHR 0x0A" by metis
  then show "CHR 0x0A \<noteq> hexd n" by (rule not_sym)
qed

lemma quote_char_line: "CHR 0x0A \<notin> set (quote_char c)"
proof -
  have "char_code c div 16 < 16" "char_code c mod 16 < 16"
    using nat_of_char_less_256 [of c] by (simp_all add: char_code_def less_mult_imp_div_less)
  then show ?thesis using hexd_line [of "char_code c div 16"] hexd_line [of "char_code c mod 16"]
    by (auto simp: quote_char_def Let_def) (auto simp: char_code_def)
qed

text \<open>Whatever the name of a job type, its sample is one line: a type cannot forge another sample.\<close>

lemma gauge_line_single:
  assumes "CHR 0x0A \<notin> set name" and "CHR 0x0A \<notin> set lbl"
  shows "\<exists>l. gauge_line name lbl v n = l @ newline \<and> CHR 0x0A \<notin> set l"
proof -
  have d: "CHR 0x0A \<notin> set (fmt_d (int n))"
  proof
    assume "CHR 0x0A \<in> set (fmt_d (int n))"
    then have "CHR 0x0A \<in> set (digits_of 10 n)" by (simp add: fmt_d_def)
    then obtain k where "k < 10" "CHR 0x0A = hexd k" using digits_of_digit by blast
    then show False using hexd_line(2) [of k] by simp
  qed
  have q: "CHR 0x0A \<notin> set (go_quote v)" using quote_char_line by (auto simp: go_quote_def)
  show ?thesis
    using assms d q by (intro exI [of _ "name @ ''{'' @ lbl @ ''='' @ go_quote v @ ''} '' @ fmt_d (int n)"])
      (simp add: gauge_line_def)
qed

text \<open>A control character in a type is written as Go writes it, which the format does not know.\<close>

lemma metrics_label_escape: "go_quote [CHR 0x09] = [CHR 0x22, CHR 0x5C, CHR ''t'', CHR 0x22]"
  by (simp add: go_quote_def quote_char_def char_code_def)

end
