(* ===== verification/Spec2Isabelle.thy ===== *)
theory Spec2Isabelle
  imports
    Prelude Go_Text Go_Fmt Go_Time Go_Sha256 Wal Names File_System Backend Local_Backend
    Backup_Engine Restore Backup_Chain Backup_Recovery Backup_Later Backup_Example Restore_Success
    S3_Text S3_Backend S3_Service S3_Contract S3_Example S3_Recovery S3_Success
    Store Node Driver Driver_Tx Alert
    Jobs_Id Jobs_Retry Jobs_Cron Jobs_Invariant Jobs_Claims Jobs_Outcome Jobs_Intake Jobs_Views Jobs_Metrics
begin

text \<open>
  Colmena: an embedded SQLite store for Go services with continuous backup, point-in-time restore
  and a job queue. This library models the implementation (\<open>src/*.go\<close>, \<open>src/backup/s3\<close>,
  \<open>src/jobs\<close>) as HOL functions and step relations, and proves what makes it correct; where the
  code does not keep a promise, a theorem or lemma shows how.

  \<^bold>\<open>The program.\<close> A node (\<open>node.go\<close>) owns a directory of databases. Each is a store
  (\<open>store.go\<close>): a writer pool of one connection and a read-only pool, opened on first use through
  the \<open>database/sql\<close> driver (\<open>driver.go\<close>). A hook attaches to every store a backup engine
  (\<open>backup.go\<close>), which scans the write-ahead log (\<open>wal.go\<close>), ships its committed bytes as segments
  of a generation to a backend (\<open>backup_local.go\<close>, \<open>backup/s3/s3.go\<close>), checkpoints the log, takes
  snapshots, prunes, and reports errors, by e-mail if \<open>alert.go\<close> is plugged in. \<open>Restore\<close> rebuilds a
  database from a backend. The job queue (\<open>jobs\<close>) keeps its tables in such a store.

  \<^bold>\<open>Theories.\<close>

  \<^item> Ground: \<open>Prelude\<close> (types, errors as values, \<open>int64\<close>, \<open>sort.Slice\<close>, the locale \<open>keyed_lt\<close>), \<open>Go_Text\<close>
    (\<open>strings\<close>, \<open>strconv\<close>, \<open>fmt\<close>), \<open>Go_Fmt\<close> (error texts, \<open>%q\<close>, \<open>filepath.Join\<close>), \<open>Go_Time\<close> (calendar and
    locations), \<open>Go_Sha256\<close>, \<open>File_System\<close> (\<open>os\<close> and \<open>io\<close> over a tree with a plan of faults).
  \<^item> Backup: \<open>Wal\<close> (\<open>wal.go\<close>), \<open>Names\<close> (object names), \<open>Backend\<close> (the interface \<open>BackupBackend\<close> as a record
    and its contract as the locales \<open>backup_backend\<close> and \<open>atomic_backend\<close>), \<open>Local_Backend\<close>,
    \<open>Backup_Engine\<close> (\<open>backupManager\<close>), \<open>Restore\<close>; then \<open>Backup_Chain\<close> (the chain of a generation and the
    invariant that ties it to the engine and the files), \<open>Backup_Recovery\<close> (executions, and what a
    restore gives), \<open>Backup_Later\<close> (what may follow, and restores to a moment before it), \<open>Backup_Example\<close> (a run evaluated on any backend that answers, the locales
    \<open>run_start\<close> and \<open>run_backend\<close>), \<open>Restore_Success\<close> (when a restore reports success, the locale
    \<open>serving_backend\<close>).
  \<^item> S3: \<open>S3_Text\<close> (encoding and names), \<open>S3_Backend\<close> (requests, SigV4, paging, the operations),
    \<open>S3_Service\<close> (the service the S3 API documents), \<open>S3_Contract\<close> (the backend meets the contract of
    \<open>Backend\<close>), \<open>S3_Example\<close> (a simulated bucket, which may lose replies), \<open>S3_Recovery\<close>, \<open>S3_Success\<close>.
  \<^item> Node: \<open>Store\<close> (pools, stores, concurrent opens, the locale \<open>store_hook\<close>), \<open>Node\<close> (\<open>node.go\<close>,
    \<open>config.go\<close>, \<open>version.go\<close>), \<open>Driver\<close> and \<open>Driver_Tx\<close> (\<open>driver.go\<close>), \<open>Alert\<close> (\<open>alert.go\<close>).
  \<^item> Jobs: \<open>Jobs_DB\<close> (tables and statements), \<open>Jobs_Manager\<close>, \<open>Jobs_Worker\<close>, \<open>Jobs_Enqueue\<close>, \<open>Jobs_Loops\<close>,
    \<open>Jobs_Admin\<close>, \<open>Jobs_Metrics\<close>, \<open>Jobs_Cron\<close>, \<open>Jobs_Id\<close>, \<open>Jobs_Retry\<close> follow the files of \<open>src/jobs\<close>;
    \<open>Jobs_Invariant\<close> (reachable tables, the locale \<open>db_invariant\<close>), \<open>Jobs_Claims\<close>, \<open>Jobs_Outcome\<close>,
    \<open>Jobs_Intake\<close> and \<open>Jobs_Views\<close> hold what is proved of them.

  A method of the source is a definition of its name, with a prefix where names clash
  (\<open>local_\<close>, \<open>s3_\<close>, \<open>sm_\<close>, \<open>node_\<close>, \<open>conn_\<close>, \<open>tx_\<close>, \<open>stmt_\<close>); a struct is a record of its fields with a
  prefix of their own; an error return is the \<open>Inl\<close> of a sum, or \<open>Some\<close> of an optional error.

  \<^bold>\<open>What is shown.\<close> The scanner finds exactly the end of the last commit whose whole prefix of
  frames is valid. Executions of the engine are the relation \<open>run_with\<close>: it begins with a successful
  snapshot and goes on with commits and WAL restarts, syncs of any outcome and successful snapshots,
  where a sync is \<open>calm\<close> (nobody commits between its scan and its checkpoint, the scan is not cut short
  by a read error, and the WAL can be looked at after a checkpoint). A sync of such an execution
  that reports no error is followed by restores that give exactly the contents it scanned
  (\<open>backup_restores_last_sync\<close>); with a timestamp this stays so whatever happens later, newer
  generations and restarts included (\<open>restore_point_in_time\<close>, over \<open>later_run\<close>). Both backends are shown to meet
  the contract this rests on, the local one under every plan of faults, the S3 one over any service
  that answers as documented; as S3 may store a segment and lose the reply, its theorem is for
  executions in which no sync did that (\<open>lost_write\<close>). Closing a node makes every engine that runs do
  a last sync (\<open>close_backs_up\<close>). When the databases are sound and no call fails on the way such a restore does report success
  (\<open>restore_succeeds\<close>, \<open>s3_restore_succeeds\<close>). The theorems \<open>commit_before_checkpoint_lost\<close>,
  \<open>lost_reply_loses_commit\<close> and \<open>failed_snapshot_hides_backup\<close> show that the conditions of these theorems are
  needed: without them the code loses commits, or cannot restore what it has; so does the lemma
  \<open>cut_scan_reports_success\<close> for a scan cut short. Stores are opened once, whatever races; transactions of the driver are atomic and
  isolated. In the queue unique keys, claims, limits, retries, sweeps, reaping and the
  scheduler do what they document, with the exceptions that named lemmas exhibit.

  \<^bold>\<open>Interfaces.\<close> Every locale is interpreted on the code's own definitions: \<open>keyed_lt\<close> on the
  comparisons the code sorts by, \<open>atomic_backend\<close> (a write that fails has stored no
  segment) on the local backend (\<open>local\<close>), \<open>backup_backend\<close>, which does not ask that, on the S3 backend over a service that may lose replies (\<open>s3\<close>), \<open>serving_backend\<close> on both
  (\<open>local_serving\<close>, \<open>s3_serving\<close>), \<open>run_backend\<close> on both backends,
  \<open>store_hook\<close> on the hook of a node, \<open>db_invariant\<close> on the rows of the queue.

  \<^bold>\<open>Bounds and fuel.\<close> No operation has fuel (\<open>drain\<close>, which reads rows, has the number of calls to make;
  \<open>drain_rows\<close> says how many are enough). Loops that may not end are \<open>partial_function (option)\<close>, where \<open>None\<close> is a
  call that never returns: \<open>fill_mask\<close>, \<open>next_loop\<close>, \<open>migrate_loop\<close> and \<open>listAll_from\<close>; that they return is a theorem
  (\<open>parseCron_returns\<close>, \<open>cron_Next_first\<close>, \<open>waitMigrate_returns\<close>, \<open>listAll_complete\<close>), and for \<open>next_loop\<close> across a
  change of clocks so is that it does not (\<open>cron_Next_hangs\<close>). The search of a schedule ends after five years,
  as in the code. In the driver a call that waits for the writer connection has no result either.

  \<^bold>\<open>Parameters and assumptions.\<close> SQLite is not under \<open>src\<close>: its recovery of a database from a WAL is a function
  \<open>fw\<close> assumed to use the committed frames only (\<open>wal_apply_ok\<close>), its checkpoints and opens are assumed to
  keep the committed contents (\<open>env_ok\<close>, \<open>sqlite_ok\<close>) and, for the theorems that a restore succeeds, to succeed on
  databases that are sound before and after their WAL is applied (\<open>sqlite_serves\<close>), and in the driver it is a function of the statement and
  the contents. Gzip is a \<open>codec\<close> whose reader inverts its writer (\<open>codec_ok\<close>). HTTP, \<open>url.Parse\<close> and XML are parameters,
  and so are clocks, random bytes, failing system calls and what other connections do in between, as
  fields of an environment that the theorems quantify over. Each theorem with such an assumption has a witness in which the assumption holds.

  \<^bold>\<open>Not modelled.\<close> Text is ASCII bytes; encodings above it pass through. The state of the local backend and
  the target of a restore are two trees. A statement of the queue is atomic, as SQLite makes it, and a query that
  names an order leaves ties in the order of insertion. A statement of the driver that begins or ends a transaction
  itself is left out; rows are read at once. A time zone is a function from
  instants to offsets, and the search theorem for schedules is for fixed offsets.
  The logger, the time a goroutine takes to end, JSON decoding of job arguments and the HTTP routing of the
  pages are arguments or left out. The files \<open>colmena.go\<close> and \<open>jobs/doc.go\<close> hold comments only.
\<close>

section \<open>Backup and restore\<close>

text \<open>C1. Backup then restore, on the local backend. An execution begins with a successful snapshot and
  goes on with any number of syncs (successful or failing), commits and WAL restarts by other
  connections, and successful snapshots, with SQLite as documented, in which no sync lets a commit
  in between its scan of the WAL and its checkpoint, cuts its scan short by a read error or fails to
  look at the file after a checkpoint. Once a sync of such an execution reports no error, a restore
  that reports success leaves in the target exactly the committed contents the database had when
  the sync scanned it. (C18 shows the window before the checkpoint; an execution with a failed
  snapshot is not one of these, see C20.)\<close>

theorem backup_restores_last_sync:
  assumes "reachable fw cd (local_ops bdir) (l_snap bdir) (l_seg bdir) (l_inv bdir) (t, b, w)"
    and "wal_apply_ok fw" and "codec_ok cd" and "sqlite_ok fw q"
    and "sync_env fw E t b (w_files w)"
    and "sync cd (local_ops bdir) E b w = (None, b', w')"
    and "Restore cd (local_ops bdir) q dir [] s (w_backend w') = (None, s', st)" and "fs_wf s"
  shows "node_at s' (dir @ [''default.db'']) = Some (File (db_image fw (w_files w)))"
  using local.sync_then_restore assms .

theorem backup_restores_last_sync_witness:
  "\<exists>s'. Restore codec_ex (local_ops [''b'']) sq_ex [''d''] [] l_ex backend3_ex = (None, s', backend3_ex) \<and>
     node_at s' [''d'', ''default.db''] = Some (File (drop 32 wal_ex))"
proof -
  obtain b' where s: "sync codec_ex (local_ops [''b'']) (env_ex 2000) mgr1_ex world2_ex =
      (None, b', cycle_ex wal_ex backend3_ex)" using run_local.sync_ex by blast
  obtain s' where r: "Restore codec_ex (local_ops [''b'']) sq_ex [''d''] [] l_ex backend3_ex =
      (None, s', backend3_ex)"
    using run_local.Restore_ex [of "[''d'', ''default.db'']" "[]" wal_ex] wal_ex_not_Nil
    by (auto simp: opt_ts_def opt_db_def)
  have "db_image fw_ex (w_files world2_ex) = drop 32 wal_ex"
    by (simp add: db_image_def cycle_files fw_ex_def wal_ex_committed wal_ex_length)
  then show ?thesis
    using backup_restores_last_sync [OF run_local.reachable_cycle wal_apply_ok_ex codec_ok_ex sqlite_ok_ex
        sync_env_ex s, of "[''d'']" l_ex s' backend3_ex] r l_inv_wf [OF l_inv_ex] by simp
qed

text \<open>C5. Point in time, on the local backend: whatever happens after a sync of such an execution that
  reported no error, a restore to a moment not before that sync and before everything that happened
  since, when it reports success, gives the committed contents the database had when the sync
  scanned it. What happens later are syncs and snapshots of the loop with any outcome (a later
  snapshot opens a newer generation), any changes of the database files and restarts of the
  program, with clocks past the moment, as long as the retention keeps the generation and sizes fit
  an \<open>int64\<close>.\<close>

theorem restore_point_in_time:
  assumes "reachable fw cd (local_ops bdir) (l_snap bdir) (l_seg bdir) (l_inv bdir) (t, b, w)"
    and "wal_apply_ok fw" and "codec_ok cd" and "sqlite_ok fw q"
    and "sync_env fw E t b (w_files w)"
    and "sync cd (local_ops bdir) E b w = (None, b', w')"
    and "ParseGenerationID (b_generation b') = Inr tg"
    and "later_run cd (local_ops bdir) ts tg (b', w') (b2, w2)" and "e_now E 0 \<le> ts"
    and "Restore cd (local_ops bdir) q dir [\<lparr>ro_DB = db, ro_Timestamp = ts\<rparr>] s (w_backend w2) =
           (None, s', st)"
    and "fs_wf s" and "db \<noteq> ''''"
  shows "node_at s' (dir @ [db @ ''.db'']) = Some (File (db_image fw (w_files w)))"
proof -
  from local.reachable_sync [OF assms(1-3,5,6)] obtain base ch where
    M: "run_inv fw cd (l_snap bdir) (l_seg bdir) (l_inv bdir) (e_now E 0, b', w') base ch"
    "replay fw ch base = db_image fw (w_files w)" by blast
  have "0 \<le> e_now E 0" using assms(5) by (simp add: sync_env_def)
  from local.restore_at [OF M(1) this assms(9,7,8,4,10-12)] show ?thesis unfolding M(2) .
qed

text \<open>In the witness the loop takes another snapshot at 3000, so the newest generation is too new.\<close>

theorem restore_point_in_time_witness:
  "\<exists>s'. Restore codec_ex (local_ops [''b'']) sq_ex [''d''] [\<lparr>ro_DB = ''x'', ro_Timestamp = 2000\<rparr>]
          l_ex two_ex = (None, s', two_ex) \<and>
     node_at s' [''d'', ''x.db''] = Some (File (db_image fw_ex (w_files world2_ex)))"
proof -
  let ?o = "[\<lparr>ro_DB = ''x'', ro_Timestamp = 2000\<rparr>]"
  obtain b' where s: "sync codec_ex (local_ops [''b'']) (env_ex 2000) mgr1_ex world2_ex =
      (None, b', cycle_ex wal_ex backend3_ex)" and i: "b_walIndex b' = 0" using run_local.sync_ex by blast
  have b': "b_generation b' = g_ex" "b_cfg b' = cfg_ex" "b_walIndex b' = 0"
    using sync_keeps [OF s] i by (simp_all add: mgr1_ex_simps)
  obtain page b2 where n: "run_step codec_ex (local_ops [''b'']) (env_ex 3000) SnapTick b' (cycle_ex wal_ex backend3_ex) =
      (page, True, b2, cycle_ex wal_ex two_ex)" using snapshot2_turn [OF b'(2)] by blast
  have "later_env 2000 1000 (env_ex 3000) b' (w_files (cycle_ex wal_ex backend3_ex))"
    using b' by (simp add: later_env_def scan_file_def env_ex_def open_file_def cycle_files wal_ex_committed cfg_ex_def
        in_i64_def i64_min_def i64_max_def)
  from later_run.turn [OF later_run.none this n]
  have l: "later_run codec_ex (local_ops [''b'']) 2000 1000 (b', cycle_ex wal_ex backend3_ex) (b2, cycle_ex wal_ex two_ex)" .
  obtain s' where r: "Restore codec_ex (local_ops [''b'']) sq_ex [''d''] ?o l_ex two_ex = (None, s', two_ex)"
    using two_Restore [OF refl] by blast
  have "e_now (env_ex 2000) 0 \<le> 2000" by (simp add: env_ex_def)
  from restore_point_in_time [OF run_local.reachable_cycle wal_apply_ok_ex codec_ok_ex sqlite_ok_ex
      sync_env_ex s _ l this, of "[''d'']" "''x''" l_ex s' two_ex] show ?thesis
    using r g_ex_parse b'(1) l_inv_wf [OF l_inv_ex] by simp
qed

text \<open>C6. What restore does, for any state of the local backend and any options: when it reports
  success, the target is the replay, over the snapshot of the newest acceptable generation, of
  the contiguous segments of each index stamped up to the requested moment.\<close>

theorem restore_spec:
  assumes "Restore cd (local_ops bdir) q dir opts s st = (None, s', st')"
    and "l_inv bdir st" and "sqlite_ok fw q" and "fs_wf s"
  shows "\<exists>g z base l. gen_at (opt_ts opts) g \<and> ParseGenerationID (g_ID g) = Inr (g_CreatedAt g) \<and>
    (\<forall>g' t. l_snap bdir st g' \<noteq> None \<longrightarrow> ParseGenerationID g' = Inr t \<longrightarrow>
       gen_at (opt_ts opts) \<lparr>g_ID = g', g_CreatedAt = t\<rparr> \<longrightarrow> t \<le> g_CreatedAt g) \<and>
    l_snap bdir st (g_ID g) = Some z \<and> gzip_read cd z = Inr base \<and>
    lists_segs (l_seg bdir st (g_ID g)) l \<and>
    node_at s' (dir @ [opt_db opts @ ''.db'']) =
      Some (File (replay fw (with_data cd (l_seg bdir st (g_ID g)) (filter (seg_at (opt_ts opts)) l)) base))"
  using local.Restore_ok [OF assms] by blast

theorem restore_spec_witness:
  "\<exists>s' base l. gzip_read codec_ex [1] = Inr base \<and> lists_segs (l_seg [''b''] backend3_ex g_ex) l \<and>
     node_at s' [''d'', ''default.db''] = Some (File (replay fw_ex
       (with_data codec_ex (l_seg [''b''] backend3_ex g_ex) (filter (seg_at zero_time) l)) base))"
proof -
  obtain b' where s: "sync codec_ex (local_ops [''b'']) (env_ex 2000) mgr1_ex world2_ex =
      (None, b', cycle_ex wal_ex backend3_ex)" using run_local.sync_ex by blast
  have inv: "l_inv [''b''] backend3_ex"
    using local.reachable_sync [OF run_local.reachable_cycle wal_apply_ok_ex codec_ok_ex sync_env_ex s]
    by (auto simp: run_inv_def)
  obtain s' where r: "Restore codec_ex (local_ops [''b'']) sq_ex [''d''] [] l_ex backend3_ex =
      (None, s', backend3_ex)"
    using run_local.Restore_ex [of "[''d'', ''default.db'']" "[]" wal_ex] wal_ex_not_Nil
    by (auto simp: opt_ts_def opt_db_def)
  have only: "l_snap [''b''] backend3_ex g = (if g = g_ex then Some [1] else None)" for g
    by (simp add: l_snap_def snap_path_def genDir_def seg_tree_def
        node_at_def snap_name_def)
  from restore_spec [OF r inv sqlite_ok_ex l_inv_wf [OF l_inv_ex]] show ?thesis
    by (auto simp: only opt_ts_def opt_db_def split: if_splits)
qed

text \<open>C18. The window the conditions of C1 exclude is real: in a reachable state, with a
  well-behaved SQLite, a commit that lands after the sync has written its segment and before its
  checkpoint is folded into the main file, the WAL is emptied, the sync reports success, and a
  successful restore gives a database without that commit. Nothing of it is left to be shipped.\<close>

theorem commit_before_checkpoint_lost:
  "\<exists>E b w b' w' s'.
     reachable fw_ex codec_ex (local_ops [''b'']) (l_snap [''b'']) (l_seg [''b'']) (l_inv [''b'']) (1000, b, w) \<and>
     wal_apply_ok fw_ex \<and> codec_ok codec_ex \<and> sqlite_ok fw_ex sq_ex \<and> env_ok fw_ex E \<and>
     sync codec_ex (local_ops [''b'']) E b w = (None, b', w') \<and> \<not> wal_nonempty (w_files w') \<and>
     Restore codec_ex (local_ops [''b'']) sq_ex [''d''] [] l_ex (w_backend w') = (None, s', w_backend w') \<and>
     node_at s' [''d'', ''default.db''] = Some (File [1]) \<and> db_image fw_ex (w_files w') \<noteq> [1]"
proof -
  obtain b' where s: "sync codec_ex (local_ops [''b'']) env_race_ex mgr1_ex world2h_ex =
      (None, b', \<lparr> w_files = \<lparr> f_main = drop 32 wal_ex, f_wal = Some [], f_backfill = 0,
                               f_salts = [salts_of wal_h_ex] \<rparr>,
                   w_backend = backend_with wal_hdr_ex \<rparr>)" (is "_ = (None, b', ?w')")
    using run_local.sync_race_ex by blast
  have "wal_hdr_ex \<noteq> []" by (simp add: wal_hdr_ex_def)
  moreover have "fw_ex [1] wal_hdr_ex = [1]" by (simp add: fw_ex_def committed_hdr_ex)
  ultimately obtain s' where r: "Restore codec_ex (local_ops [''b'']) sq_ex [''d''] [] l_ex
      (backend_with wal_hdr_ex) = (None, s', backend_with wal_hdr_ex)"
    "node_at s' [''d'', ''default.db''] = Some (File [1])"
    using run_local.Restore_ex [of "[''d'', ''default.db'']" "[]" wal_hdr_ex] by (auto simp: opt_ts_def opt_db_def)
  have re: "reachable fw_ex codec_ex (local_ops [''b'']) (l_snap [''b'']) (l_seg [''b'']) (l_inv [''b''])
      (1000, mgr1_ex, world2h_ex)"
    by (rule run_local.reachable_cycle)
  have e: "length (drop 32 wal_ex) = 536" by (simp add: wal_ex_length)
  have "drop 32 wal_ex \<noteq> [1]"
  proof
    assume "drop 32 wal_ex = [1]"
    then have "length (drop 32 wal_ex) = 1" by simp
    with e show False by simp
  qed
  then have "db_image fw_ex (w_files ?w') \<noteq> [1]"
    by (simp add: db_image_def fw_ex_def walCommittedSize_def walHeaderSize_def)
  moreover have "\<not> wal_nonempty (w_files ?w')" by (simp add: wal_nonempty_def)
  ultimately show ?thesis
    using re wal_apply_ok_ex codec_ok_ex sqlite_ok_ex env_ok_race s r
    by (intro exI [of _ env_race_ex] exI [of _ mgr1_ex] exI [of _ world2h_ex] exI [of _ b']
        exI [of _ ?w'] exI [of _ s']) simp
qed

text \<open>C26. Pruning on the local backend removes exactly the generations that ended their retention:
  the current one and any created at or after the cutoff keep their snapshot and segments, and
  when no call fails every other one loses both.\<close>

theorem prune_exact:
  assumes "l_inv bdir st" and "ParseGenerationID g = Inr t" and "0 < Retention (b_cfg b)"
    and "node_at st bdir = Some Dir"
    and "st' = pruneLocked (local_ops bdir) now b st"
  shows "(g = b_generation b \<or> now - Retention (b_cfg b) \<le> t \<longrightarrow>
           l_snap bdir st' g = l_snap bdir st g \<and> l_seg bdir st' g = l_seg bdir st g) \<and>
         (g \<noteq> b_generation b \<and> t < now - Retention (b_cfg b) \<and> l_snap bdir st g \<noteq> None \<and> faults st = [] \<longrightarrow>
           l_snap bdir st' g = None \<and> l_seg bdir st' g = (\<lambda>_. None))"
proof (intro conjI impI)
  assume "g = b_generation b \<or> now - Retention (b_cfg b) \<le> t"
  from local.pruneLocked_keeps [OF assms(1,2) this]
  show "l_snap bdir st' g = l_snap bdir st g" "l_seg bdir st' g = l_seg bdir st g"
    unfolding assms(5) by simp_all
next
  assume a: "g \<noteq> b_generation b \<and> t < now - Retention (b_cfg b) \<and> l_snap bdir st g \<noteq> None \<and> faults st = []"
  let ?c = "now - Retention (b_cfg b)"
  obtain gens st1 where g: "Generations (local_ops bdir) st = (Inr gens, st1)" "faults st1 = []"
    using a assms(4)
    by (auto simp: local_ops_def local_Generations_def os_ReadDir_def no_fault)
  have L: "l_inv bdir st1" "\<lparr>g_ID = g, g_CreatedAt = t\<rparr> \<in> set gens"
    using local.list_generations [OF assms(1) g(1)] a assms(2) by simp_all
  have d: "fst (DeleteGeneration (local_ops bdir) h s) = None \<and>
      faults (snd (DeleteGeneration (local_ops bdir) h s)) = []" if "faults s = []" for h s
    using that by (simp add: local_ops_def local_DeleteGeneration_def os_RemoveAll_def no_fault)
  have "l_snap bdir (prune_each (local_ops bdir) b ?c gens st1) g = None \<and>
      l_seg bdir (prune_each (local_ops bdir) b ?c gens st1) g = (\<lambda>_. None)"
    using local.prune_each_deletes [of bdir st1 "\<lambda>s. faults s = []" g gens b ?c] L g(2) d a
    by (force simp: prunable_def)
  then show "l_snap bdir st' g = None" "l_seg bdir st' g = (\<lambda>_. None)"
    using g assms(3) by (simp_all add: assms(5) pruneLocked_def)
qed

theorem prune_exact_witness:
  "l_snap [''b''] (pruneLocked (local_ops [''b'']) 5000 (mgr_ex\<lparr>b_cfg := cfg_ex\<lparr>Retention := 1000\<rparr>\<rparr>)
     backend3_ex) g_ex = None"
proof -
  obtain b' where s: "sync codec_ex (local_ops [''b'']) (env_ex 2000) mgr1_ex world2_ex =
      (None, b', cycle_ex wal_ex backend3_ex)" using run_local.sync_ex by blast
  have inv: "l_inv [''b''] backend3_ex"
    using local.reachable_sync [OF run_local.reachable_cycle wal_apply_ok_ex codec_ok_ex sync_env_ex s]
    by (auto simp: run_inv_def)
  have "g_ex \<noteq> ''''" unfolding g_ex_def by (rule NewGenerationID_not_Nil)
  then show ?thesis
    using prune_exact [OF inv g_ex_parse _ _ refl,
        of "mgr_ex\<lparr>b_cfg := cfg_ex\<lparr>Retention := 1000\<rparr>\<rparr>" 5000]
    by (simp add: mgr_ex_simps seg_tree_def node_at_def l_snap_def
        snap_path_def genDir_def snap_name_def)
qed

text \<open>C27. Paging: \<open>OnError\<close> is called on a report exactly when it is an error and the last
  \<open>AlertAfter\<close> reports, this one included, were all errors; the status keeps the last error.\<close>

theorem report_pages:
  assumes "b_consecErrs b = 0" and "1 \<le> AlertAfter (b_cfg b)"
  shows "last (fst (reports (es @ [(t, e)]) b)) = (AlertAfter (b_cfg b) \<le> int (failing (es @ [(t, e)]))) \<and>
    length (fst (reports (es @ [(t, e)]) b)) = Suc (length es) \<and>
    (e \<noteq> None \<longrightarrow> st_LastError (b_status (snd (reports (es @ [(t, e)]) b))) = e)"
proof -
  show ?thesis
    using reports_state [OF assms(1), of es] assms(2)
    by (cases e) (simp_all add: reports_snoc reports_length report_def failing_def Let_def add.commute)
qed

theorem report_pages_witness:
  "fst (reports [(1, Some ErrRange), (2, None), (3, Some ErrRange), (4, Some ErrSyntax)]
     (mgr_ex\<lparr>b_cfg := cfg_ex\<lparr>AlertAfter := 2\<rparr>\<rparr>)) \<noteq> [] \<and>
   last (fst (reports ([(1, Some ErrRange), (2, None), (3, Some ErrRange)] @ [(4, Some ErrSyntax)])
     (mgr_ex\<lparr>b_cfg := cfg_ex\<lparr>AlertAfter := 2\<rparr>\<rparr>)))"
proof -
  have c: "b_consecErrs (mgr_ex\<lparr>b_cfg := cfg_ex\<lparr>AlertAfter := 2\<rparr>\<rparr>) = 0"
    by (simp add: mgr_ex_def newBackupManager_def)
  show ?thesis
    using report_pages [OF c, of "[(1, Some ErrRange), (2, None), (3, Some ErrRange)]" 4 "Some ErrSyntax"]
    by (auto simp: failing_def)
qed

end
